(* ===== verification/Raft_Prelude.thy ===== *)
theory Raft_Prelude
  imports Main "HOL-Library.AList" "HOL-Library.Word" "HOL-Library.Multiset"
begin

text \<open>
  Shared vocabulary of the development: how a C++ member function that may throw is
  written (an \<open>outcome\<close> that keeps the object state at the throw), a small
  weakest-precondition calculus over outcomes that the component proofs run by simplification,
  \<open>std::map\<close> with its inserting \<open>operator[]\<close>, and the pieces of the C and C++ standard library
  that the sources call on strings (\<open>std::to_string\<close>, \<open>atoi\<close>, \<open>sprintf("%4d")\<close>).

  Naming: a data member \<open>foo_\<close> of a class is the record field \<open>foo_m\<close> (Isabelle refuses names
  that end in an underscore).
\<close>

section \<open>Exceptions and outcomes\<close>

text \<open>
  One constructor per \<^verbatim>\<open>throw_line\<close> site (or group of sites with the same meaning) of the
  sources, plus the ways the process dies without a C++ exception: \<^verbatim>\<open>exit(EXIT_FAILURE)\<close>,
  a null pointer dereference, and undefined behaviour (an access outside a vector or buffer).
\<close>

datatype exn =
    Read_config_failed          \<comment> \<open>RaftServer::load_config_from_file\<close>
  | Bad_config_line
  | Run_waiting                 \<comment> \<open>RaftServer::run\<close>
  | Trans2F_waiting             \<comment> \<open>RaftServer::trans2F\<close>
  | Trans2C_waiting             \<comment> \<open>RaftServer::trans2C\<close>
  | Term_decreases              \<comment> \<open>RaftServer::update_term\<close>
  | AE_waiting                  \<comment> \<open>RaftServer::AE\<close>
  | Timer_error                 \<comment> \<open>a timer handler called with an error other than abort\<close>
  | Handler_min_expiry          \<comment> \<open>a handler that finds its timer set to \<open>min_date_time\<close>\<close>
  | Entry_size_gt_1             \<comment> \<open>RaftServer::react2ae\<close>
  | Two_primaries
  | Bad_prelog_term
  | Commit_beyond_log
  | Bad_entry_index
  | Resp_ae_not_primary         \<comment> \<open>RaftServer::react2resp\_ae\<close>
  | Last_send_gt_size           \<comment> \<open>RaftServer::primary\_deal\_resp\_ae\_with\_same\_term\<close>
  | Refused_at_zero
  | Commit_decreases            \<comment> \<open>RaftServer::follower\_update\_commit\_index\<close>
  | Entries_get_range           \<comment> \<open>Entries::get\<close>
  | Entries_insert_range        \<comment> \<open>Entries::insert\<close>
  | Offset_range                \<comment> \<open>Entries::get\_offset, modify\_offset\_vector\_after\_insert\<close>
  | File_create_failed          \<comment> \<open>data::data\<close>
  | File_open_failed
  | Length_error                \<comment> \<open>\<open>std::string\<close> of negative length\<close>
  | Unknown_rpc_type            \<comment> \<open>rpc\_to\_str, client::react\_to\_resp\<close>
  | Bad_address                 \<comment> \<open>asio \<open>address::from_string\<close>\<close>
  | Body_read_failed            \<comment> \<open>connection::body\_callback\<close>
  | Pool_stopped                \<comment> \<open>ThreadPool::enqueue\<close>
  | Write_threads_not_1         \<comment> \<open>StateMachineControler constructor\<close>
  | Exit_failure                \<comment> \<open>\<open>exit(EXIT_FAILURE)\<close>\<close>
  | Null_deref                  \<comment> \<open>a null \<open>shared_ptr\<close> dereferenced\<close>
  | Undefined_behaviour         \<comment> \<open>out-of-bounds access\<close>

text \<open>A call either returns with the new object state, or throws and leaves the object as it was
  at the throw (files already written and messages already sent included).\<close>

datatype 's outcome = Ok 's | Throw exn 's

type_synonym 'a res = "exn + 'a"

text \<open>\<open>seq m f\<close>: run \<open>m\<close>, then \<open>f\<close> on the state it leaves; an exception skips \<open>f\<close>.\<close>

primrec seq :: "'s outcome \<Rightarrow> ('s \<Rightarrow> 's outcome) \<Rightarrow> 's outcome" where
  "seq (Ok s) f = f s"
| "seq (Throw e s) f = Throw e s"

text \<open>\<open>with_res r s f\<close>: use the value of a fallible sub-computation in state \<open>s\<close>.\<close>

primrec with_res :: "'a res \<Rightarrow> 's \<Rightarrow> ('a \<Rightarrow> 's outcome) \<Rightarrow> 's outcome" where
  "with_res (Inl e) s f = Throw e s"
| "with_res (Inr a) s f = f a"

text \<open>The range-based \<open>for\<close> over a vector, its body run on every element in order.\<close>

primrec for_each :: "'a list \<Rightarrow> ('a \<Rightarrow> 's \<Rightarrow> 's outcome) \<Rightarrow> 's \<Rightarrow> 's outcome" where
  "for_each [] f s = Ok s"
| "for_each (x # xs) f s = seq (f x s) (for_each xs f)"

primrec state_of :: "'s outcome \<Rightarrow> 's" where
  "state_of (Ok s) = s"
| "state_of (Throw e s) = s"

lemma seq_Ok_right [simp]: "seq m Ok = m"
  by (cases m) simp_all

lemma seq_assoc: "seq (seq m f) g = seq m (\<lambda>s. seq (f s) g)"
  by (cases m) simp_all

lemma seq_eq_Ok: "seq m f = Ok t \<longleftrightarrow> (\<exists>s. m = Ok s \<and> f s = Ok t)"
  by (cases m) simp_all

lemma map_outcome_eq_Ok: "map_outcome f m = Ok t \<longleftrightarrow> (\<exists>s. m = Ok s \<and> t = f s)"
  by (cases m) auto

lemma with_res_eq_Ok: "with_res r s f = Ok t \<longleftrightarrow> (\<exists>a. r = Inr a \<and> f a = Ok t)"
  by (cases r) simp_all

section \<open>A weakest precondition for outcomes\<close>

text \<open>
  \<open>okp Q m\<close>: if \<open>m\<close> returns normally, its state satisfies \<open>Q\<close> (partial). \<open>surely Q m\<close>: \<open>m\<close> does
  return normally and its state satisfies \<open>Q\<close> (total: no exception). The equations of the
  collection \<open>wp\<close> push both through the control structure, so that a handler's proof is one
  simplification with its definitions.
\<close>

named_theorems wp \<open>weakest-precondition equations for outcomes\<close>

primrec okp :: "('s \<Rightarrow> bool) \<Rightarrow> 's outcome \<Rightarrow> bool" where
  "okp Q (Ok s) = Q s"
| "okp Q (Throw e s) = True"

primrec surely :: "('s \<Rightarrow> bool) \<Rightarrow> 's outcome \<Rightarrow> bool" where
  "surely Q (Ok s) = Q s"
| "surely Q (Throw e s) = False"

lemma okp_seq [wp]: "okp Q (seq m f) = okp (\<lambda>s. okp Q (f s)) m"
  by (cases m) simp_all

lemma okp_map_outcome [wp]: "okp Q (map_outcome f m) = okp (\<lambda>s. Q (f s)) m"
  by (cases m) simp_all

lemma okp_with_res [wp]: "okp Q (with_res r s f) = (\<forall>a. r = Inr a \<longrightarrow> okp Q (f a))"
  by (cases r) simp_all

lemma okp_if [wp]: "okp Q (if b then m else n) = ((b \<longrightarrow> okp Q m) \<and> (\<not> b \<longrightarrow> okp Q n))"
  by simp

lemma surely_seq [wp]: "surely Q (seq m f) = surely (\<lambda>s. surely Q (f s)) m"
  by (cases m) simp_all

lemma surely_map_outcome [wp]: "surely Q (map_outcome f m) = surely (\<lambda>s. Q (f s)) m"
  by (cases m) simp_all

lemma surely_with_res [wp]: "surely Q (with_res r s f) = (\<exists>a. r = Inr a \<and> surely Q (f a))"
  by (cases r) simp_all

lemma surely_if [wp]: "surely Q (if b then m else n) = ((b \<longrightarrow> surely Q m) \<and> (\<not> b \<longrightarrow> surely Q n))"
  by simp

lemma okp_mono: "okp P m \<Longrightarrow> (\<And>s. P s \<Longrightarrow> Q s) \<Longrightarrow> okp Q m"
  by (cases m) simp_all

lemma surely_mono: "surely P m \<Longrightarrow> (\<And>s. P s \<Longrightarrow> Q s) \<Longrightarrow> surely Q m"
  by (cases m) simp_all

lemma okpD: "okp Q m \<Longrightarrow> m = Ok s \<Longrightarrow> Q s"
  by simp

lemma okpI: "(\<And>s. m = Ok s \<Longrightarrow> Q s) \<Longrightarrow> okp Q m"
  by (cases m) simp_all

lemma surelyD: "surely Q m \<Longrightarrow> \<exists>s. m = Ok s \<and> Q s"
  by (cases m) simp_all

lemma surely_imp_okp: "surely Q m \<Longrightarrow> okp Q m"
  by (cases m) simp_all

lemma surelyI: "surely (\<lambda>s. True) m \<Longrightarrow> okp Q m \<Longrightarrow> surely Q m"
  by (cases m) simp_all

lemma okp_conj: "okp (\<lambda>s. P s \<and> Q s) m = (okp P m \<and> okp Q m)"
  by (cases m) simp_all

lemma okp_True [simp]: "okp (\<lambda>s. True) m"
  by (cases m) simp_all

text \<open>Loop rules: an invariant kept by the body on every element is kept by the loop.\<close>

lemma okp_for_each:
  assumes "I s" and "\<And>x t. x \<in> set xs \<Longrightarrow> I t \<Longrightarrow> okp I (f x t)"
  shows "okp I (for_each xs f s)"
  using assms
proof (induction xs arbitrary: s)
  case Nil
  then show ?case by simp
next
  case (Cons x xs)
  have "okp I (f x s)" using Cons.prems by simp
  then have "okp (\<lambda>t. okp I (for_each xs f t)) (f x s)"
    by (rule okp_mono) (rule Cons.IH, use Cons.prems in auto)
  then show ?case by (simp add: wp)
qed

text \<open>The total rule has an invariant indexed by the elements still to visit.\<close>

lemma surely_for_each:
  assumes "I xs s"
    and "\<And>x ys t. I (x # ys) t \<Longrightarrow> x \<in> set xs \<Longrightarrow> surely (I ys) (f x t)"
  shows "surely (I []) (for_each xs f s)"
  using assms
proof (induction xs arbitrary: s)
  case Nil
  then show ?case by simp
next
  case (Cons x xs)
  have "surely (I xs) (f x s)" using Cons.prems by simp
  then have "surely (\<lambda>t. surely (I []) (for_each xs f t)) (f x s)"
    by (rule surely_mono) (rule Cons.IH, use Cons.prems in auto)
  then show ?case by (simp add: wp)
qed

section \<open>\<open>std::map\<close>\<close>

text \<open>
  A \<open>std::map\<close> is an association list with distinct keys. No source loop depends on the order of
  the keys (the one loop that reads values sorts them). \<open>m[k]\<close> on an absent key inserts a
  value-initialised element; \<open>at0\<close> is the value such a read yields for \<open>int\<close> and \<open>touch\<close> the map
  it leaves.
\<close>

type_synonym ('k, 'v) smap = "('k \<times> 'v) list"

definition at0 :: "('k, int) smap \<Rightarrow> 'k \<Rightarrow> int" where
  "at0 m k = (case map_of m k of None \<Rightarrow> 0 | Some v \<Rightarrow> v)"

definition put :: "'k \<Rightarrow> 'v \<Rightarrow> ('k, 'v) smap \<Rightarrow> ('k, 'v) smap" where
  "put k v m = AList.update k v m"

definition touch :: "'k \<Rightarrow> ('k, int) smap \<Rightarrow> ('k, int) smap" where
  "touch k m = put k (at0 m k) m"

definition keys :: "('k, 'v) smap \<Rightarrow> 'k set" where
  "keys m = fst ` set m"

lemma map_of_put [simp]: "map_of (put k v m) = (map_of m)(k \<mapsto> v)"
  by (simp add: put_def update_conv')

lemma at0_put [simp]: "at0 (put k v m) j = (if j = k then v else at0 m j)"
  by (simp add: at0_def)

lemma at0_touch [simp]: "at0 (touch k m) j = at0 m j"
  by (simp add: touch_def)

lemma keys_put [simp]: "keys (put k v m) = insert k (keys m)"
  by (auto simp: keys_def put_def update_keys image_set simp del: set_map)

lemma keys_touch [simp]: "keys (touch k m) = insert k (keys m)"
  by (simp add: touch_def)

lemma distinct_put [simp]: "distinct (map fst m) \<Longrightarrow> distinct (map fst (put k v m))"
  by (simp add: put_def distinct_update)

lemma map_fst_put_mem: "k \<in> keys m \<Longrightarrow> map fst (put k v m) = map fst m"
  by (simp add: keys_def put_def update_keys)

lemma at0_mem: "distinct (map fst m) \<Longrightarrow> (k, v) \<in> set m \<Longrightarrow> at0 m k = v"
  by (simp add: at0_def)

lemma map_snd_eq_at0: "distinct (map fst m) \<Longrightarrow> map snd m = map (at0 m) (map fst m)"
  by (auto simp: at0_mem)

lemma keys_iff_map_of: "k \<in> keys m \<longleftrightarrow> map_of m k \<noteq> None"
  by (simp add: keys_def map_of_eq_None_iff)

lemma keys_Nil [simp]: "keys [] = {}"
  by (simp add: keys_def)

lemma insert_keys_Some [simp]: "map_of m k = Some v \<Longrightarrow> insert k (keys m) = keys m"
  by (simp add: keys_iff_map_of insert_absorb)

lemma keys_map_values [simp]: "keys (map (\<lambda>(k, v). (k, f v)) m) = keys m"
  by (force simp: keys_def)

section \<open>Strings of the C and C++ standard libraries\<close>

definition digit_char :: "nat \<Rightarrow> char" where
  "digit_char d = char_of (48 + d)"

definition is_digit :: "char \<Rightarrow> bool" where
  "is_digit c = (48 \<le> (of_char c :: nat) \<and> (of_char c :: nat) \<le> 57)"

definition digit_val :: "char \<Rightarrow> int" where
  "digit_val c = int (of_char c) - 48"

fun show_nat :: "nat \<Rightarrow> string" where
  "show_nat n = (if n < 10 then [digit_char n] else show_nat (n div 10) @ [digit_char (n mod 10)])"

declare show_nat.simps [simp del]

text \<open>\<open>std::to_string(int)\<close>, also what \<open>ostream << int\<close> prints.\<close>

definition to_string :: "int \<Rightarrow> string" where
  "to_string i = (if i < 0 then CHR ''-'' # show_nat (nat (- i)) else show_nat (nat i))"

text \<open>\<open>ostream << bool\<close> without \<open>boolalpha\<close>.\<close>

definition show_bool :: "bool \<Rightarrow> string" where
  "show_bool b = (if b then ''1'' else ''0'')"

text \<open>\<open>sprintf("%4d")\<close>: padded on the left with spaces to four characters.\<close>

definition sprintf_4d :: "int \<Rightarrow> string" where
  "sprintf_4d i = (let t = to_string i in replicate (4 - length t) CHR '' '' @ t)"

definition is_space :: "char \<Rightarrow> bool" where
  "is_space c = (c \<in> {CHR '' '', CHR 0x09, CHR 0x0A, CHR 0x0B, CHR 0x0C, CHR 0x0D})"

primrec digits_val :: "int \<Rightarrow> string \<Rightarrow> int" where
  "digits_val acc [] = acc"
| "digits_val acc (c # cs) = (if is_digit c then digits_val (10 * acc + digit_val c) cs else acc)"

text \<open>\<open>atoi\<close>: leading white space, an optional sign, then digits up to the first other character
  (a terminating NUL is one).\<close>

definition atoi :: "string \<Rightarrow> int" where
  "atoi s = (case dropWhile is_space s of
       [] \<Rightarrow> 0
     | c # cs \<Rightarrow> if c = CHR ''-'' then - digits_val 0 cs
                 else if c = CHR ''+'' then digits_val 0 cs
                 else digits_val 0 (c # cs))"

text \<open>A C string ends at its first NUL.\<close>

definition c_str :: "string \<Rightarrow> string" where
  "c_str s = takeWhile (\<lambda>c. c \<noteq> CHR 0x00) s"

lemma of_char_digit_char: "d < 10 \<Longrightarrow> (of_char (digit_char d) :: nat) = 48 + d"
  by (simp add: digit_char_def of_char_of take_bit_eq_mod)

lemma is_digit_digit_char [simp]: "d < 10 \<Longrightarrow> is_digit (digit_char d)"
  by (simp add: is_digit_def of_char_digit_char)

lemma digit_val_digit_char [simp]: "d < 10 \<Longrightarrow> digit_val (digit_char d) = int d"
  by (simp add: digit_val_def of_char_digit_char)

lemma show_nat_digits: "\<forall>c \<in> set (show_nat n). is_digit c"
proof (induction n rule: show_nat.induct)
  case (1 n)
  then show ?case by (cases "n < 10") (auto simp: show_nat.simps [of n])
qed

lemma show_nat_nonempty [simp]: "show_nat n \<noteq> []"
  by (subst show_nat.simps) simp

lemma digits_val_append:
  "\<forall>c \<in> set xs. is_digit c \<Longrightarrow> digits_val a (xs @ ys) = digits_val (digits_val a xs) ys"
  by (induction xs arbitrary: a) auto

lemma digits_val_show_nat: "digits_val 0 (show_nat n) = int n"
proof (induction n rule: show_nat.induct)
  case (1 n)
  show ?case
  proof (cases "n < 10")
    case True
    then show ?thesis by (simp add: show_nat.simps [of n])
  next
    case False
    then have "digits_val 0 (show_nat n) = 10 * int (n div 10) + int (n mod 10)"
      using 1 by (simp add: show_nat.simps [of n] digits_val_append show_nat_digits)
    then show ?thesis by presburger
  qed
qed

lemma digits_val_stop:
  "ys = [] \<or> \<not> is_digit (hd ys) \<Longrightarrow> digits_val a ys = a"
  by (cases ys) auto

lemma is_digit_not_space: "is_digit c \<Longrightarrow> \<not> is_space c"
  by (auto simp: is_digit_def is_space_def)

lemma is_digit_not_sign: "is_digit c \<Longrightarrow> c \<noteq> CHR ''-'' \<and> c \<noteq> CHR ''+''"
  by (auto simp: is_digit_def)

lemma dropWhile_space_show_nat: "dropWhile is_space (show_nat n @ ys) = show_nat n @ ys"
proof (cases "show_nat n")
  case (Cons c cs)
  then have "is_digit c" using show_nat_digits [of n] by simp
  then show ?thesis by (simp add: Cons is_digit_not_space)
qed simp

text \<open>\<open>atoi\<close> undoes \<open>to_string\<close>, whatever follows the number and whatever blanks precede it.\<close>

lemma atoi_show_nat:
  assumes "ys = [] \<or> \<not> is_digit (hd ys)"
  shows "atoi (replicate k CHR '' '' @ show_nat n @ ys) = int n"
proof -
  have sp: "dropWhile is_space (replicate k CHR '' '' @ zs) = dropWhile is_space zs" for zs
    by (induction k) (simp_all add: is_space_def)
  obtain c cs where sn: "show_nat n = c # cs" by (cases "show_nat n") auto
  have "is_digit c" using show_nat_digits [of n] sn by simp
  then have sg: "c \<noteq> CHR ''-''" "c \<noteq> CHR ''+''" by (auto dest: is_digit_not_sign)
  have "atoi (replicate k CHR '' '' @ show_nat n @ ys) = digits_val 0 (show_nat n @ ys)"
    unfolding atoi_def sp dropWhile_space_show_nat by (simp add: sn sg)
  also have "\<dots> = int n"
    using assms by (simp add: digits_val_append show_nat_digits digits_val_show_nat digits_val_stop)
  finally show ?thesis .
qed

lemma atoi_to_string:
  assumes "ys = [] \<or> \<not> is_digit (hd ys)"
  shows "atoi (to_string i @ ys) = i"
proof (cases "i < 0")
  case True
  then have "atoi (to_string i @ ys) = - digits_val 0 (show_nat (nat (- i)) @ ys)"
    by (simp add: to_string_def atoi_def is_space_def)
  with True assms show ?thesis
    by (simp add: digits_val_append show_nat_digits digits_val_show_nat digits_val_stop)
next
  case False
  then show ?thesis using atoi_show_nat [OF assms, of 0 "nat i"] by (simp add: to_string_def)
qed

lemma length_show_nat_le:
  "n < 10 ^ k \<Longrightarrow> 0 < k \<Longrightarrow> length (show_nat n) \<le> k"
proof (induction n arbitrary: k rule: show_nat.induct)
  case (1 n)
  show ?case
  proof (cases "n < 10")
    case True
    with "1.prems" show ?thesis by (simp add: show_nat.simps [of n])
  next
    case False
    then obtain j where k: "k = Suc j" and j: "0 < j"
      using "1.prems" by (cases k; cases "k - 1") (auto simp: not_less)
    have "n div 10 < 10 ^ j" using "1.prems" k by simp
    then have "length (show_nat (n div 10)) \<le> j" using "1.IH" False j by simp
    with False k show ?thesis by (simp add: show_nat.simps [of n])
  qed
qed

lemma digits_val_bound: "0 \<le> a \<Longrightarrow> digits_val a cs < (a + 1) * 10 ^ length cs"
proof (induction cs arbitrary: a)
  case (Cons c cs)
  show ?case
  proof (cases "is_digit c")
    case True
    then have d: "0 \<le> digit_val c" "digit_val c \<le> 9" by (auto simp: is_digit_def digit_val_def)
    then have "digits_val (10 * a + digit_val c) cs < (10 * a + digit_val c + 1) * 10 ^ length cs"
      using Cons by simp
    also have "\<dots> \<le> (10 * (a + 1)) * 10 ^ length cs"
      using d by (intro mult_right_mono) simp_all
    finally show ?thesis using True by (simp add: algebra_simps)
  next
    case False
    have "1 \<le> (10 :: int) ^ Suc (length cs)" by (rule one_le_power) simp
    then have "(a + 1) * 1 \<le> (a + 1) * 10 ^ Suc (length cs)"
      using Cons.prems by (intro mult_left_mono) simp_all
    then show ?thesis using False by simp
  qed
qed simp

lemma length_show_nat_gt:
  assumes "10 ^ k \<le> n"
  shows "k < length (show_nat n)"
proof (rule ccontr)
  assume "\<not> k < length (show_nat n)"
  then have "(10 :: int) ^ length (show_nat n) \<le> 10 ^ k" by (intro power_increasing) simp_all
  moreover have "int n < 10 ^ length (show_nat n)"
    using digits_val_bound [of 0 "show_nat n"] by (simp add: digits_val_show_nat)
  ultimately have "int n < 10 ^ k" by linarith
  then have "int n < int (10 ^ k)" by simp
  with assms show False by linarith
qed

lemma to_string_nonempty [simp]: "to_string i \<noteq> []"
  by (simp add: to_string_def)

lemma to_string_chars: "c \<in> set (to_string i) \<Longrightarrow> is_digit c \<or> c = CHR ''-''"
  using show_nat_digits by (auto simp: to_string_def split: if_splits)

lemma to_string_inj: "to_string i = to_string j \<Longrightarrow> i = j"
  using atoi_to_string [of "[]" i] atoi_to_string [of "[]" j] by simp

section \<open>Lists\<close>

lemma mset_concat_update:
  assumes "k < length ws"
  shows "mset (concat (map g (ws[k := w]))) + mset (g (ws ! k)) = mset (concat (map g ws)) + mset (g w)"
proof -
  have a: "ws = take k ws @ ws ! k # drop (Suc k) ws" by (rule id_take_nth_drop [OF assms])
  have b: "ws[k := w] = take k ws @ w # drop (Suc k) ws" using assms by (rule upd_conv_take_nth_drop)
  have "mset (concat (map g ws)) =
      mset (concat (map g (take k ws))) + mset (g (ws ! k)) + mset (concat (map g (drop (Suc k) ws)))"
    by (subst a) simp
  then show ?thesis unfolding b by simp
qed

text \<open>The \<open>m\<close>-th largest value: at least \<open>m\<close> elements are as large, and fewer than \<open>m\<close> are larger.\<close>

lemma length_filter_rev_sort: "length (filter Q (rev (sort xs))) = length (filter Q xs)"
proof -
  have "mset (filter Q (rev (sort xs))) = mset (filter Q xs)" by simp
  then show ?thesis by (metis size_mset)
qed

lemma rev_sort_antimono: "i \<le> j \<Longrightarrow> j < length xs \<Longrightarrow> rev (sort xs) ! j \<le> rev (sort xs) ! i"
  for xs :: "'a::linorder list"
  using sorted_nth_mono [OF sorted_sort, of "length xs - Suc j" "length xs - Suc i" xs]
  by (simp add: rev_nth)

lemma kth_largest:
  fixes xs :: "'a::linorder list"
  assumes "0 < m" "m \<le> length xs"
  defines "v \<equiv> rev (sort xs) ! (m - 1)"
  shows "m \<le> length (filter (\<lambda>x. v \<le> x) xs)"
    and "\<And>w. v < w \<Longrightarrow> length (filter (\<lambda>x. w \<le> x) xs) < m"
    and "v \<in> set xs"
proof -
  let ?ys = "rev (sort xs)"
  have split: "length (filter Q xs) = length (filter Q (take k ?ys)) + length (filter Q (drop k ?ys))" for Q k
    by (metis append_take_drop_id filter_append length_append length_filter_rev_sort)
  have "\<forall>x \<in> set (take m ?ys). v \<le> x"
    using assms rev_sort_antimono [of _ "m - 1" xs] by (auto simp: in_set_conv_nth v_def)
  then have "filter (\<lambda>x. v \<le> x) (take m ?ys) = take m ?ys" by (simp add: filter_id_conv)
  then show "m \<le> length (filter (\<lambda>x. v \<le> x) xs)"
    using split [of "\<lambda>x. v \<le> x" m] assms by simp
  show "length (filter (\<lambda>x. w \<le> x) xs) < m" if "v < w" for w
  proof -
    have "x \<le> v" if "x \<in> set (drop (m - 1) ?ys)" for x
      using that assms rev_sort_antimono [of "m - 1" _ xs] by (auto simp: in_set_conv_nth v_def)
    then have "filter (\<lambda>x. w \<le> x) (drop (m - 1) ?ys) = []"
      using that by (force simp: filter_empty_conv not_le)
    moreover have "length (filter (\<lambda>x. w \<le> x) (take (m - 1) ?ys)) \<le> m - 1"
      using length_filter_le [of _ "take (m - 1) ?ys"] by (simp add: le_trans)
    ultimately show ?thesis using split [of "\<lambda>x. w \<le> x" "m - 1"] assms by simp
  qed
  have "v \<in> set ?ys" unfolding v_def using assms by (intro nth_mem) simp
  then show "v \<in> set xs" by simp
qed

section \<open>Addresses\<close>

text \<open>\<open>std::tuple<string, int>\<close>: the ip and port of a peer.\<close>

type_synonym endpoint = "string \<times> int"

abbreviation ip_of :: "endpoint \<Rightarrow> string" where "ip_of \<equiv> fst"
abbreviation port_of :: "endpoint \<Rightarrow> int" where "port_of \<equiv> snd"

section \<open>Quorums\<close>

text \<open>Two majorities share a member.\<close>

lemma quorums_meet:
  assumes "finite U" "X \<subseteq> U" "Y \<subseteq> U" "int (card U) div 2 + 1 \<le> int (card X)" "int (card U) div 2 + 1 \<le> int (card Y)"
  shows "X \<inter> Y \<noteq> {}"
proof
  assume "X \<inter> Y = {}"
  then have "card X + card Y = card (X \<union> Y)"
    using assms(1-3) by (metis card_Un_disjoint finite_subset)
  also have "\<dots> \<le> card U" using assms(1-3) by (intro card_mono) simp_all
  finally show False using assms(4,5) by simp
qed

end
