(* ===== verification/Raft_Util.thy ===== *)
theory Raft_Util
  imports Raft_Prelude
begin

text \<open>
  \<^verbatim>\<open>src/util.cpp\<close>: the randomised timeouts, \<open>server2str\<close> and \<open>split_str_boost\<close>.
  \<open>rand()\<close> is a parameter of the timeout functions (the value it returned, which the C library
  keeps between 0 and \<open>RAND_MAX\<close>); \<open>boost::split\<close> is third-party code and a parameter of
  \<open>split_str_boost\<close>, with its documented behaviour as the hypothesis \<open>boost_split_law\<close>.
\<close>

section \<open>Randomised timeouts\<close>

text \<open>\<^verbatim>\<open>DEBUG_FACTOR\<close> is 1. C's \<open>%\<close> agrees with \<open>mod\<close> on the non-negative results of \<open>rand()\<close>.\<close>

definition random_between :: "int \<Rightarrow> int \<Rightarrow> int \<Rightarrow> int" where
  "random_between min_ms max_ms r = (let range = max_ms - min_ms + 1 in r mod range + min_ms)"

definition random_candidate_expire :: "int \<Rightarrow> int" where
  "random_candidate_expire r = random_between 150 300 r"

definition random_rv_retry_expire :: "int \<Rightarrow> int" where
  "random_rv_retry_expire r = random_between 5 10 r"

definition random_ae_retry_expire :: "int \<Rightarrow> int" where
  "random_ae_retry_expire r = random_between 5 10 r"

definition smaller :: "int \<Rightarrow> int \<Rightarrow> int" where
  "smaller a b = (if a < b then a else b)"

lemma random_between_range:
  "lo \<le> hi \<Longrightarrow> lo \<le> random_between lo hi r \<and> random_between lo hi r \<le> hi"
proof -
  assume "lo \<le> hi"
  then have "0 < hi - lo + 1" by simp
  then have "0 \<le> r mod (hi - lo + 1)" "r mod (hi - lo + 1) < hi - lo + 1"
    by (rule pos_mod_sign, rule pos_mod_bound)
  then show ?thesis by (simp add: random_between_def Let_def)
qed

lemma random_between_onto:
  "lo \<le> k \<Longrightarrow> k \<le> hi \<Longrightarrow> \<exists>r. 0 \<le> r \<and> r \<le> hi - lo \<and> random_between lo hi r = k"
  by (rule exI [of _ "k - lo"]) (simp add: random_between_def Let_def)

section \<open>Addresses as strings\<close>

definition server2str :: "endpoint \<Rightarrow> string" where
  "server2str server = (let ip = ip_of server; port = port_of server in ip @ '':'' @ to_string port)"

type_synonym splitter = "string \<Rightarrow> (char \<Rightarrow> bool) \<Rightarrow> string list"

definition split_str_boost :: "splitter \<Rightarrow> string \<Rightarrow> char \<Rightarrow> string list" where
  "split_str_boost boost_split str delim = boost_split str (\<lambda>c. c = delim)"

text \<open>The documented behaviour of \<open>boost::split\<close> without token compression: one token per
  separator, plus one; tokens hold no separator.\<close>

definition boost_split_law :: "splitter \<Rightarrow> bool" where
  "boost_split_law sp \<longleftrightarrow>
     (\<forall>p a. (\<forall>c \<in> set a. \<not> p c) \<longrightarrow> sp a p = [a]) \<and>
     (\<forall>p a d b. (\<forall>c \<in> set a. \<not> p c) \<longrightarrow> p d \<longrightarrow> sp (a @ d # b) p = a # sp b p)"

text \<open>A concrete splitter that has the behaviour, for witnesses.\<close>

fun split_chars :: "string \<Rightarrow> string \<Rightarrow> (char \<Rightarrow> bool) \<Rightarrow> string list" where
  "split_chars acc [] p = [acc]"
| "split_chars acc (c # cs) p = (if p c then acc # split_chars [] cs p else split_chars (acc @ [c]) cs p)"

lemma split_chars_none: "\<forall>c \<in> set a. \<not> p c \<Longrightarrow> split_chars acc a p = [acc @ a]"
  by (induction a arbitrary: acc) auto

lemma split_chars_sep:
  "\<forall>c \<in> set a. \<not> p c \<Longrightarrow> p d \<Longrightarrow> split_chars acc (a @ d # b) p = (acc @ a) # split_chars [] b p"
  by (induction a arbitrary: acc) auto

lemma boost_split_law_split_chars: "boost_split_law (split_chars [])"
  by (simp add: boost_split_law_def split_chars_none split_chars_sep)

lemma to_string_no_colon: "CHR '':'' \<notin> set (to_string i)"
proof
  assume "CHR '':'' \<in> set (to_string i)"
  then have "is_digit CHR '':''" by (auto dest: to_string_chars)
  then show False by (simp add: is_digit_def)
qed

lemma split_server2str:
  assumes "boost_split_law sp" and "CHR '':'' \<notin> set ip"
  shows "split_str_boost sp (server2str (ip, port)) CHR '':'' = [ip, to_string port]"
proof -
  have a: "\<forall>c \<in> set ip. c \<noteq> CHR '':''" using assms(2) by auto
  have b: "\<forall>c \<in> set (to_string port). c \<noteq> CHR '':''" using to_string_no_colon by metis
  have "sp (ip @ CHR '':'' # to_string port) (\<lambda>c. c = CHR '':'') = ip # sp (to_string port) (\<lambda>c. c = CHR '':'')"
    using assms(1) a unfolding boost_split_law_def by simp
  also have "sp (to_string port) (\<lambda>c. c = CHR '':'') = [to_string port]"
    using assms(1) b unfolding boost_split_law_def by simp
  finally show ?thesis by (simp add: split_str_boost_def server2str_def)
qed

end
