(* ===== verification/Raft_Data.thy ===== *)
theory Raft_Data
  imports Raft_Prelude
begin

text \<open>
  \<^verbatim>\<open>src/entry/data.cpp\<close>: the class \<open>data\<close>, a file written and read at byte offsets with
  \<open>lseek\<close>, \<open>read\<close>, \<open>write\<close> and \<open>ftruncate\<close>. The file descriptor is a record of the bytes in the
  file, the file position, and whether the device refuses writes (which ends the process with
  \<open>exit(EXIT_FAILURE)\<close>). The offsets are C++ \<open>int\<close>s: a negative one makes \<open>lseek\<close> and \<open>ftruncate\<close>
  fail, and the code looks at neither result.
\<close>

record file_fd =
  contents :: string
  pos :: nat
  wr_fails :: bool

definition pad :: "nat \<Rightarrow> string \<Rightarrow> string" where
  "pad n s = s @ replicate (n - length s) CHR 0x00"

text \<open>The POSIX calls.\<close>

definition lseek :: "int \<Rightarrow> file_fd \<Rightarrow> file_fd" where
  "lseek off f = (if off < 0 then f else f\<lparr>pos := nat off\<rparr>)"

definition read_fd :: "nat \<Rightarrow> file_fd \<Rightarrow> string \<times> file_fd" where
  "read_fd n f = (let d = take n (drop (pos f) (contents f)) in (d, f\<lparr>pos := pos f + length d\<rparr>))"

definition write_fd :: "string \<Rightarrow> file_fd \<Rightarrow> file_fd" where
  "write_fd d f = (if d = [] then f else
     f\<lparr>contents := take (pos f) (pad (pos f) (contents f)) @ d @ drop (pos f + length d) (contents f),
       pos := pos f + length d\<rparr>)"

definition ftruncate :: "int \<Rightarrow> file_fd \<Rightarrow> file_fd" where
  "ftruncate n f = (if n < 0 then f else f\<lparr>contents := take (nat n) (pad (nat n) (contents f))\<rparr>)"

text \<open>\<open>file_exists\<close>: whether \<open>fopen\<close> finds a file, given what the path names.\<close>

definition file_exists :: "'f option \<Rightarrow> bool" where [simp]:
  "file_exists path \<longleftrightarrow> path \<noteq> None"

text \<open>The constructor: \<open>path\<close> names no file (\<open>None\<close>) or a file; \<open>can_open\<close> is whether \<open>open\<close>
  succeeds.\<close>

definition data_ctor :: "bool \<Rightarrow> file_fd option \<Rightarrow> file_fd res" where
  "data_ctor can_open path =
     (if \<not> file_exists path then
        (if can_open then Inr \<lparr>contents = [], pos = 0, wr_fails = False\<rparr> else Inl File_create_failed)
      else if can_open then Inr ((the path)\<lparr>pos := 0\<rparr>) else Inl File_open_failed)"

definition read_from_offset :: "int \<Rightarrow> int \<Rightarrow> file_fd \<Rightarrow> (string \<times> file_fd) res" where
  "read_from_offset offset len f =
     (let f = lseek offset f in
      if len < 0 then Inl Length_error
      else let (d, f) = read_fd (nat len) f in Inr (pad (nat len) d, f))"

definition write_from_offset :: "int \<Rightarrow> string \<Rightarrow> file_fd \<Rightarrow> file_fd outcome" where
  "write_from_offset offset data f =
     (let f = lseek offset f in
      if wr_fails f then Throw Exit_failure f
      else let f = write_fd data f in Ok (ftruncate (offset + int (length data)) f))"

lemma pad_id [simp]: "n \<le> length s \<Longrightarrow> pad n s = s"
  by (simp add: pad_def)

lemma length_pad [simp]: "length (pad n s) = max n (length s)"
  by (simp add: pad_def)

text \<open>Writing at an offset inside the file keeps what is before the offset and makes the data the
  end of the file.\<close>

lemma write_from_offset_inside:
  assumes "0 \<le> off" and "nat off \<le> length (contents f)" and "\<not> wr_fails f"
  shows "write_from_offset off d f =
    Ok (f\<lparr>contents := take (nat off) (contents f) @ d, pos := nat off + length d\<rparr>)"
proof -
  have n: "nat (off + int (length d)) = nat off + length d" using assms(1) by simp
  show ?thesis
  proof (cases "d = []")
    case True
    with assms show ?thesis
      by (simp add: write_from_offset_def lseek_def write_fd_def ftruncate_def)
  next
    case False
    with assms n show ?thesis
      by (simp add: write_from_offset_def lseek_def write_fd_def ftruncate_def)
  qed
qed

text \<open>Reading a range that lies inside the file yields exactly those bytes.\<close>

lemma read_from_offset_inside:
  assumes "0 \<le> off" and "0 \<le> len" and "nat off + nat len \<le> length (contents f)"
  shows "read_from_offset off len f =
    Inr (take (nat len) (drop (nat off) (contents f)), f\<lparr>pos := nat off + nat len\<rparr>)"
  using assms by (simp add: read_from_offset_def lseek_def read_fd_def)

lemma write_from_offset_wr_fails: "okp (\<lambda>g. \<not> wr_fails g) (write_from_offset off d f)"
  by (simp add: write_from_offset_def lseek_def write_fd_def ftruncate_def Let_def)

lemma write_from_offset_ok: "\<not> wr_fails f \<Longrightarrow> surely (\<lambda>g. \<not> wr_fails g) (write_from_offset off d f)"
  by (simp add: write_from_offset_def lseek_def write_fd_def ftruncate_def Let_def)

end
