(* ===== verification/Raft_Messages.thy ===== *)
theory Raft_Messages
  imports Raft_Prelude
begin

text \<open>
  The messages of \<^verbatim>\<open>src/rpc.proto\<close> and \<^verbatim>\<open>src/state_machine/easy_state_machine.proto\<close> as
  records, the enumeration \<open>RPC_TYPE\<close> of \<^verbatim>\<open>src/rpc/rpc_type.h\<close>, the printing functions of
  \<^verbatim>\<open>src/rpc/rpc_to_string.cpp\<close>, and the protobuf and archive codecs as a parameter (the record
  \<open>pb\<close>: one \<open>SerializeToString\<close>/\<open>ParseFromString\<close> pair per message) with their documented
  round-trip behaviour as the hypothesis \<open>pb_law\<close>. The fields are unbounded integers and arbitrary byte
  strings here; proto3 documents the round trip for 32-bit integers and UTF-8 strings.
\<close>

section \<open>Message types\<close>

record rpc_Entry =
  en_term :: int
  en_index :: int
  en_msg :: string

record AppendEntryRpc =
  ae_term :: int
  ae_prelog_term :: int
  ae_commit_index :: int
  ae_lsn :: int
  ae_ip :: string
  ae_port :: int
  ae_entry :: "rpc_Entry list"
  ae_prelog_index :: int

record Resp_AppendEntryRpc =
  rae_ok :: bool
  rae_term :: int
  rae_lsn :: int
  rae_ip :: string
  rae_port :: int
  rae_is_empty_ae :: bool

record RequestVoteRpc =
  rv_term :: int
  rv_latest_index :: int
  rv_latest_term :: int
  rv_lsn :: int
  rv_ip :: string
  rv_port :: int

record Resp_RequestVoteRpc =
  rrv_ok :: bool
  rrv_term :: int
  rrv_lsn :: int
  rrv_ip :: string
  rrv_port :: int

record apply_call =
  ac_key :: string
  ac_v :: int

record query_call =
  qc_key :: string

record resp_apply =
  ra_ok :: bool

record resp_query =
  rq_ok :: bool
  rq_v :: int

datatype RPC_TYPE =
  REQUEST_VOTE | APPEND_ENTRY | RESP_VOTE | RESP_APPEND | CLIENT_APPLY | CLIENT_QUERY
| RESP_CLIENT_APPLY | RESP_CLIENT_QUERY | ERROR

text \<open>The enumerator's value, and \<open>static_cast<RPC_TYPE>\<close> back (\<open>None\<close>: a value with no
  enumerator, which every \<open>switch\<close> and comparison sends to its last branch).\<close>

primrec rpc_type_num :: "RPC_TYPE \<Rightarrow> int" where
  "rpc_type_num REQUEST_VOTE = 0"
| "rpc_type_num APPEND_ENTRY = 1"
| "rpc_type_num RESP_VOTE = 2"
| "rpc_type_num RESP_APPEND = 3"
| "rpc_type_num CLIENT_APPLY = 4"
| "rpc_type_num CLIENT_QUERY = 5"
| "rpc_type_num RESP_CLIENT_APPLY = 6"
| "rpc_type_num RESP_CLIENT_QUERY = 7"
| "rpc_type_num ERROR = 8"

definition rpc_type_cast :: "int \<Rightarrow> RPC_TYPE option" where
  "rpc_type_cast n =
     (if n = 0 then Some REQUEST_VOTE else if n = 1 then Some APPEND_ENTRY
      else if n = 2 then Some RESP_VOTE else if n = 3 then Some RESP_APPEND
      else if n = 4 then Some CLIENT_APPLY else if n = 5 then Some CLIENT_QUERY
      else if n = 6 then Some RESP_CLIENT_APPLY else if n = 7 then Some RESP_CLIENT_QUERY
      else if n = 8 then Some ERROR else None)"

lemma rpc_type_cast_num [simp]: "rpc_type_cast (rpc_type_num t) = Some t"
  by (cases t) (simp_all add: rpc_type_cast_def)

lemma rpc_type_num_range: "0 \<le> rpc_type_num t \<and> rpc_type_num t \<le> 8"
  by (cases t) simp_all

section \<open>Codecs of the libraries\<close>

text \<open>
  \<open>ParseFromString\<close> is total: on a malformed string it returns false and leaves some message, and
  no caller looks at the result. \<open>oar\<close> and \<open>iar\<close> are Boost's binary archive of a
  \<open>vector<unsigned int>\<close>.
\<close>

record pb =
  ser_entry :: "rpc_Entry \<Rightarrow> string"
  parse_entry :: "string \<Rightarrow> rpc_Entry"
  ser_ae :: "AppendEntryRpc \<Rightarrow> string"
  parse_ae :: "string \<Rightarrow> AppendEntryRpc"
  ser_resp_ae :: "Resp_AppendEntryRpc \<Rightarrow> string"
  parse_resp_ae :: "string \<Rightarrow> Resp_AppendEntryRpc"
  ser_rv :: "RequestVoteRpc \<Rightarrow> string"
  parse_rv :: "string \<Rightarrow> RequestVoteRpc"
  ser_resp_rv :: "Resp_RequestVoteRpc \<Rightarrow> string"
  parse_resp_rv :: "string \<Rightarrow> Resp_RequestVoteRpc"
  ser_apply_call :: "apply_call \<Rightarrow> string"
  parse_apply_call :: "string \<Rightarrow> apply_call"
  ser_query_call :: "query_call \<Rightarrow> string"
  parse_query_call :: "string \<Rightarrow> query_call"
  ser_resp_apply :: "resp_apply \<Rightarrow> string"
  parse_resp_apply :: "string \<Rightarrow> resp_apply"
  ser_resp_query :: "resp_query \<Rightarrow> string"
  parse_resp_query :: "string \<Rightarrow> resp_query"
  oar :: "32 word list \<Rightarrow> string"
  iar :: "string \<Rightarrow> 32 word list"

definition pb_law :: "pb \<Rightarrow> bool" where
  "pb_law P \<longleftrightarrow>
     (\<forall>m. parse_entry P (ser_entry P m) = m) \<and>
     (\<forall>m. parse_ae P (ser_ae P m) = m) \<and>
     (\<forall>m. parse_resp_ae P (ser_resp_ae P m) = m) \<and>
     (\<forall>m. parse_rv P (ser_rv P m) = m) \<and>
     (\<forall>m. parse_resp_rv P (ser_resp_rv P m) = m) \<and>
     (\<forall>m. parse_apply_call P (ser_apply_call P m) = m) \<and>
     (\<forall>m. parse_query_call P (ser_query_call P m) = m) \<and>
     (\<forall>m. parse_resp_apply P (ser_resp_apply P m) = m) \<and>
     (\<forall>m. parse_resp_query P (ser_resp_query P m) = m) \<and>
     (\<forall>v. iar P (oar P v) = v)"

lemma pb_lawD [simp]:
  assumes "pb_law P"
  shows "parse_entry P (ser_entry P m1) = m1" "parse_ae P (ser_ae P m2) = m2"
    "parse_resp_ae P (ser_resp_ae P m3) = m3" "parse_rv P (ser_rv P m4) = m4"
    "parse_resp_rv P (ser_resp_rv P m5) = m5" "parse_apply_call P (ser_apply_call P m6) = m6"
    "parse_query_call P (ser_query_call P m7) = m7" "parse_resp_apply P (ser_resp_apply P m8) = m8"
    "parse_resp_query P (ser_resp_query P m9) = m9" "iar P (oar P v) = v"
  using assms by (simp_all add: pb_law_def)

section \<open>Printing (\<open>rpc_to_string.cpp\<close>)\<close>

abbreviation nl :: string where "nl \<equiv> [CHR 0x0A]"
abbreviation tab :: string where "tab \<equiv> [CHR 0x09]"

definition rpc_ae2str :: "AppendEntryRpc \<Rightarrow> string" where
  "rpc_ae2str ae =
     ''RPC_AE:'' @ (if ae_entry ae \<noteq> [] then ''(with msg)'' else '''') @
     nl @ ''term: '' @ to_string (ae_term ae) @
     nl @ ''prelog_index: '' @ to_string (ae_prelog_index ae) @
     nl @ ''prelog_term: '' @ to_string (ae_prelog_term ae) @
     nl @ ''commit_index: '' @ to_string (ae_commit_index ae) @
     nl @ ''lsn: '' @ to_string (ae_lsn ae) @
     nl @ ''ip: '' @ ae_ip ae @
     nl @ ''port: '' @ to_string (ae_port ae) @
     nl @ ''ae.rpc_entry:'' @
     (case ae_entry ae of
        e # _ \<Rightarrow> nl @ tab @ ''term: '' @ to_string (en_term e) @
                 nl @ tab @ ''index: '' @ to_string (en_index e) @
                 nl @ tab @ ''msg: '' @ en_msg e
      | [] \<Rightarrow> ''empty'')"

definition rpc_rv2str :: "RequestVoteRpc \<Rightarrow> string" where
  "rpc_rv2str rv =
     ''RPC_RV:'' @ nl @ ''term: '' @ to_string (rv_term rv) @
     nl @ ''latest_index: '' @ to_string (rv_latest_index rv) @
     nl @ ''latest_term: '' @ to_string (rv_latest_term rv) @
     nl @ ''lsn: '' @ to_string (rv_lsn rv) @
     nl @ ''ip: '' @ rv_ip rv @
     nl @ ''port: '' @ to_string (rv_port rv)"

definition resp_ae2str :: "Resp_AppendEntryRpc \<Rightarrow> string" where
  "resp_ae2str resp =
     ''resp_ae:'' @ nl @ ''ok: '' @ show_bool (rae_ok resp) @
     nl @ ''term: '' @ to_string (rae_term resp) @
     nl @ ''lsn: '' @ to_string (rae_lsn resp) @
     nl @ ''ip: '' @ rae_ip resp @
     nl @ ''port: '' @ to_string (rae_port resp) @
     nl @ ''is_empty_ae: '' @ show_bool (rae_is_empty_ae resp)"

definition resp_rv2str :: "Resp_RequestVoteRpc \<Rightarrow> string" where
  "resp_rv2str resp =
     ''resp_rv:'' @ nl @ ''ok: '' @ show_bool (rrv_ok resp) @
     nl @ ''term: '' @ to_string (rrv_term resp) @
     nl @ ''lsn: '' @ to_string (rrv_lsn resp) @
     nl @ ''ip: '' @ rrv_ip resp @
     nl @ ''port: '' @ to_string (rrv_port resp)"

definition apply_call2str :: "apply_call \<Rightarrow> string" where
  "apply_call2str c = ''apply_call:'' @ nl @ ''key: '' @ ac_key c @ nl @ ''v: '' @ to_string (ac_v c)"

definition resp_apply2str :: "resp_apply \<Rightarrow> string" where
  "resp_apply2str r = ''resp_apply:'' @ nl @ ''ok: '' @ show_bool (ra_ok r)"

definition query_call2str :: "query_call \<Rightarrow> string" where
  "query_call2str c = ''query_call:'' @ nl @ ''key: '' @ qc_key c"

definition resp_query2str :: "resp_query \<Rightarrow> string" where
  "resp_query2str r = ''resp_query:'' @ nl @ ''ok: '' @ show_bool (rq_ok r) @ nl @ ''v: '' @ to_string (rq_v r)"

definition entry2str :: "rpc_Entry \<Rightarrow> string" where
  "entry2str e = ''entry:'' @ nl @ ''term: '' @ to_string (en_term e) @
     nl @ ''index: '' @ to_string (en_index e) @ nl @ ''msg: '' @ en_msg e"

text \<open>\<open>rpc_to_str\<close> parses the body by its type and prints it; the default branch throws.\<close>

definition rpc_to_str :: "pb \<Rightarrow> RPC_TYPE option \<Rightarrow> string \<Rightarrow> string res" where
  "rpc_to_str P type rpc_str =
     (case type of
        Some REQUEST_VOTE \<Rightarrow> Inr (rpc_rv2str (parse_rv P rpc_str))
      | Some APPEND_ENTRY \<Rightarrow> Inr (rpc_ae2str (parse_ae P rpc_str))
      | Some RESP_VOTE \<Rightarrow> Inr (resp_rv2str (parse_resp_rv P rpc_str))
      | Some RESP_APPEND \<Rightarrow> Inr (resp_ae2str (parse_resp_ae P rpc_str))
      | Some CLIENT_APPLY \<Rightarrow> Inr (apply_call2str (parse_apply_call P rpc_str))
      | Some CLIENT_QUERY \<Rightarrow> Inr (query_call2str (parse_query_call P rpc_str))
      | Some RESP_CLIENT_APPLY \<Rightarrow> Inr (resp_apply2str (parse_resp_apply P rpc_str))
      | Some RESP_CLIENT_QUERY \<Rightarrow> Inr (resp_query2str (parse_resp_query P rpc_str))
      | _ \<Rightarrow> Inl Unknown_rpc_type)"

lemma rpc_to_str_throws_iff:
  "(\<exists>e. rpc_to_str P t m = Inl e) \<longleftrightarrow> t = None \<or> t = Some ERROR"
  by (cases t; cases "the t") (simp_all add: rpc_to_str_def)

lemma rpc_to_str_ok: "t \<noteq> ERROR \<Longrightarrow> \<exists>r. rpc_to_str P (Some t) m = Inr r"
  by (cases t) (simp_all add: rpc_to_str_def)

text \<open>What is printed for an entry determines the entry (so a log line identifies it).\<close>

lemma to_string_nl_split:
  assumes "to_string i @ nl @ x = to_string j @ nl @ y"
  shows "i = j \<and> x = y"
proof -
  have st: "nl @ z = [] \<or> \<not> is_digit (hd (nl @ z))" for z
    by (simp add: is_digit_def)
  have "i = atoi (to_string i @ nl @ x)" by (rule atoi_to_string [OF st, symmetric])
  also have "\<dots> = atoi (to_string j @ nl @ y)" using assms by simp
  also have "\<dots> = j" by (rule atoi_to_string [OF st])
  finally have "i = j" .
  with assms show ?thesis by simp
qed

lemma entry2str_inject: "entry2str e = entry2str e' \<Longrightarrow> e = e'"
proof -
  assume a: "entry2str e = entry2str e'"
  let ?r = "\<lambda>e. ''index: '' @ to_string (en_index e) @ nl @ ''msg: '' @ en_msg e"
  have "to_string (en_term e) @ nl @ ?r e = to_string (en_term e') @ nl @ ?r e'"
    using a by (simp add: entry2str_def)
  from to_string_nl_split [OF this] have t: "en_term e = en_term e'" and r: "?r e = ?r e'"
    by blast+
  from r have "to_string (en_index e) @ nl @ (''msg: '' @ en_msg e) = to_string (en_index e') @ nl @ (''msg: '' @ en_msg e')"
    by simp
  from to_string_nl_split [OF this] have "en_index e = en_index e'" and "en_msg e = en_msg e'"
    by simp_all
  with t show ?thesis by simp
qed

end
