(* ===== verification/Raft_Entries.thy ===== *)
theory Raft_Entries
  imports Raft_Data Raft_Messages
begin

text \<open>
  \<^verbatim>\<open>src/entry/entry.cpp\<close>: the class \<open>Entries\<close>, the replicated log. Entries live in a vector in
  memory (\<open>vec_m\<close> for \<open>entries_\<close>, of which only the first \<open>size_m\<close> count) and, serialised one after
  the other, in the data file; the vector of \<open>unsigned int\<close> offsets that delimits them is written
  to a second file after every insert. Offsets and the index of \<open>insert\<close> are 32-bit words, as in
  the code; \<open>int\<close>s converted from them go through \<open>sint\<close>.

  Abstractly an \<open>Entries\<close> object is a list of entries (\<open>log_of\<close>): the locale \<open>log_store\<close> states
  that contract and the interpretation \<open>entries\<close> proves it for the code.
\<close>

section \<open>Model\<close>

record Entries =
  data_m :: file_fd
  vec_m :: "rpc_Entry list"
  offset_m :: "32 word list"
  size_m :: int
  offset_file_m :: "string option"

definition Entries_size :: "Entries \<Rightarrow> int" where
  "Entries_size es = size_m es"

definition Entries_get :: "Entries \<Rightarrow> int \<Rightarrow> rpc_Entry res" where
  "Entries_get es index =
     (if index \<ge> size_m es then Inl Entries_get_range
      else if index < 0 \<or> nat index \<ge> length (vec_m es) then Inl Undefined_behaviour
      else Inr (vec_m es ! nat index))"

text \<open>The comparison \<open>index >= offset_.size()\<close> converts the \<open>int\<close> to \<open>size_t\<close>.\<close>

definition size_t :: "int \<Rightarrow> 64 word" where
  "size_t i = word_of_int i"

definition get_offset :: "int \<Rightarrow> Entries \<Rightarrow> 32 word res" where
  "get_offset index es =
     (if size_t index \<ge> of_nat (length (offset_m es)) then Inl Offset_range
      else if nat index < length (offset_m es) then Inr (offset_m es ! nat index)
      else Inl Undefined_behaviour)"

definition modify_offset_vector_after_insert :: "int \<Rightarrow> string \<Rightarrow> Entries \<Rightarrow> Entries outcome" where
  "modify_offset_vector_after_insert index entry_str es =
     (let off = offset_m es; i = nat index; last_pos = of_nat (length off) - 1 in
      if off = [] then Throw Undefined_behaviour es
      else if size_t index = last_pos then
        Ok (es\<lparr>offset_m := off @ [off ! i + of_nat (length entry_str)]\<rparr>)
      else if size_t index < last_pos then
        Ok (es\<lparr>offset_m := take (i + 2) (off[i + 1 := off ! i + of_nat (length entry_str)])\<rparr>)
      else Throw Offset_range es)"

definition write_offset_to_file :: "pb \<Rightarrow> Entries \<Rightarrow> Entries" where
  "write_offset_to_file P es = es\<lparr>offset_file_m := Some (oar P (offset_m es))\<rparr>"

text \<open>The last part of \<open>insert\<close>: the in-memory vector, then \<open>size_ = index + 1\<close>.\<close>

definition insert_in_memory :: "32 word \<Rightarrow> rpc_Entry \<Rightarrow> Entries \<Rightarrow> Entries outcome" where
  "insert_in_memory index entry es =
     (let vec = vec_m es; i = unat index;
          finish = (\<lambda>v. Ok (es\<lparr>vec_m := v, size_m := sint (index + 1)\<rparr>)) in
      if index = word_of_int (size_m es) then
        (if length vec = i then finish (vec @ [entry])
         else if i < length vec then finish (vec[i := entry])
         else Throw Undefined_behaviour es)
      else if index < word_of_int (size_m es) then
        (if i < length vec then finish (vec[i := entry]) else Throw Undefined_behaviour es)
      else Throw Entries_insert_range es)"

definition Entries_insert :: "pb \<Rightarrow> 32 word \<Rightarrow> rpc_Entry \<Rightarrow> Entries \<Rightarrow> Entries outcome" where
  "Entries_insert P index entry es =
     (if index > word_of_int (size_m es) then Throw Entries_insert_range es
      else with_res (get_offset (sint index) es) es (\<lambda>offset_insert.
        let entry_string = ser_entry P entry in
        seq (map_outcome (\<lambda>d. es\<lparr>data_m := d\<rparr>)
               (write_from_offset (sint offset_insert) entry_string (data_m es)))
            (\<lambda>es. seq (modify_offset_vector_after_insert (sint index) entry_string es)
            (\<lambda>es. insert_in_memory index entry (write_offset_to_file P es)))))"

text \<open>The constructor: reads the offset file if there is one, then every entry from the data file.\<close>

fun reload_entries :: "pb \<Rightarrow> 32 word list \<Rightarrow> file_fd \<Rightarrow> (rpc_Entry list \<times> file_fd) res" where
  "reload_entries P (entry_head # entry_tail # offs) f =
     (case read_from_offset (sint entry_head) (sint entry_tail - sint entry_head) f of
        Inl e \<Rightarrow> Inl e
      | Inr (d, f) \<Rightarrow>
          (case reload_entries P (entry_tail # offs) f of
             Inl e \<Rightarrow> Inl e
           | Inr (es, f) \<Rightarrow> Inr (parse_entry P d # es, f)))"
| "reload_entries P _ f = Inr ([], f)"

definition Entries_ctor :: "pb \<Rightarrow> bool \<Rightarrow> file_fd option \<Rightarrow> string option \<Rightarrow> Entries res" where
  "Entries_ctor P can_open data_file offset_file =
     (case data_ctor can_open data_file of
        Inl e \<Rightarrow> Inl e
      | Inr f \<Rightarrow>
          (let off = (if \<not> file_exists offset_file then [0] else iar P (the offset_file));
               sz = int (length off) - 1 in
           if sz < 0 then Inl Length_error
           else (case reload_entries P off f of
               Inl e \<Rightarrow> Inl e
             | Inr (es, f) \<Rightarrow> Inr \<lparr>data_m = f, vec_m = es, offset_m = off, size_m = sz,
                                     offset_file_m = offset_file\<rparr>)))"

section \<open>The log contract\<close>

text \<open>
  What a client of the log relies on. \<open>insert i e\<close> cuts the log at \<open>i\<close> and puts \<open>e\<close> there;
  \<open>room\<close> is the capacity an insert needs.
\<close>

locale log_store =
  fixes log_size :: "'l \<Rightarrow> int"
    and log_get :: "'l \<Rightarrow> int \<Rightarrow> rpc_Entry res"
    and log_insert :: "int \<Rightarrow> rpc_Entry \<Rightarrow> 'l \<Rightarrow> 'l outcome"
    and log :: "'l \<Rightarrow> rpc_Entry list"
    and inv :: "'l \<Rightarrow> bool"
    and room :: "'l \<Rightarrow> bool"
  assumes size_log: "inv l \<Longrightarrow> log_size l = int (length (log l))"
    and get_log: "inv l \<Longrightarrow> 0 \<le> i \<Longrightarrow> i < log_size l \<Longrightarrow> log_get l i = Inr (log l ! nat i)"
    and get_range: "inv l \<Longrightarrow> log_size l \<le> i \<Longrightarrow> log_get l i = Inl Entries_get_range"
    and insert_log: "inv l \<Longrightarrow> room l \<Longrightarrow> 0 \<le> i \<Longrightarrow> i \<le> log_size l \<Longrightarrow>
      okp (\<lambda>l'. inv l' \<and> log l' = take (nat i) (log l) @ [e]) (log_insert i e l)"
    and insert_range: "inv l \<Longrightarrow> log_size l < i \<Longrightarrow> i < 2 ^ 32 \<Longrightarrow>
      log_insert i e l = Throw Entries_insert_range l"
begin

text \<open>Entries carry their own position.\<close>

definition indexed :: "'l \<Rightarrow> bool" where
  "indexed l \<longleftrightarrow> (\<forall>k < length (log l). en_index (log l ! k) = int k)"

lemma log_size_nonneg: "inv l \<Longrightarrow> 0 \<le> log_size l"
  by (simp add: size_log)

lemma insert_size:
  assumes "inv l" "room l" "0 \<le> i" "i \<le> log_size l"
  shows "okp (\<lambda>l'. log_size l' = i + 1) (log_insert i e l)"
  by (rule okp_mono [OF insert_log [OF assms]]) (use assms in \<open>simp add: size_log\<close>)

lemma get_inserted:
  assumes "inv l" "room l" "0 \<le> i" "i \<le> log_size l"
  shows "okp (\<lambda>l'. log_get l' i = Inr e) (log_insert i e l)"
proof (rule okp_mono [OF insert_log [OF assms, of e]])
  fix l' assume a: "inv l' \<and> log l' = take (nat i) (log l) @ [e]"
  have n: "nat i \<le> length (log l)" using assms by (simp add: size_log)
  then have "i < log_size l'" using a assms by (simp add: size_log)
  then have "log_get l' i = Inr (log l' ! nat i)" using a assms by (simp add: get_log)
  with a n show "log_get l' i = Inr e" by (simp add: nth_append)
qed

lemma get_below_insert:
  assumes "inv l" "room l" "0 \<le> i" "i \<le> log_size l" "0 \<le> k" "k < i"
  shows "okp (\<lambda>l'. log_get l' k = log_get l k) (log_insert i e l)"
proof (rule okp_mono [OF insert_log [OF assms(1-4), of e]])
  fix l' assume a: "inv l' \<and> log l' = take (nat i) (log l) @ [e]"
  have n: "nat i \<le> length (log l)" using assms by (simp add: size_log)
  with a assms have "k < log_size l'" "k < log_size l" by (simp_all add: size_log)
  with a assms have "log_get l' k = Inr (log l' ! nat k)" "log_get l k = Inr (log l ! nat k)"
    by (simp_all add: get_log)
  moreover have "log l' ! nat k = log l ! nat k" using a n assms by (simp add: nth_append)
  ultimately show "log_get l' k = log_get l k" by simp
qed

lemma get_beyond_insert:
  assumes "inv l" "room l" "0 \<le> i" "i \<le> log_size l" "i < k"
  shows "okp (\<lambda>l'. log_get l' k = Inl Entries_get_range) (log_insert i e l)"
proof (rule okp_mono [OF insert_log [OF assms(1-4), of e]])
  fix l' assume a: "inv l' \<and> log l' = take (nat i) (log l) @ [e]"
  have "nat i \<le> length (log l)" using assms by (simp add: size_log)
  with a assms have "log_size l' \<le> k" by (simp add: size_log)
  with a show "log_get l' k = Inl Entries_get_range" by (simp add: get_range)
qed

lemma insert_indexed:
  assumes "inv l" "room l" "0 \<le> i" "i \<le> log_size l" "indexed l" "en_index e = i"
  shows "okp indexed (log_insert i e l)"
proof (rule okp_mono [OF insert_log [OF assms(1-4), of e]])
  fix l' assume a: "inv l' \<and> log l' = take (nat i) (log l) @ [e]"
  have n: "nat i \<le> length (log l)" using assms by (simp add: size_log)
  show "indexed l'" unfolding indexed_def
  proof (intro allI impI)
    fix k assume "k < length (log l')"
    then show "en_index (log l' ! k) = int k"
      using a n assms by (cases "k < nat i") (auto simp: nth_append indexed_def)
  qed
qed

lemma get_indexed:
  assumes "inv l" "indexed l" "0 \<le> i" "log_get l i = Inr e"
  shows "en_index e = i"
proof -
  have lt: "i < log_size l" using assms get_range [of l i] by (cases "i < log_size l") auto
  then have "e = log l ! nat i" using assms get_log by simp
  moreover have "nat i < length (log l)" using lt assms by (simp add: size_log)
  ultimately show ?thesis using assms by (auto simp: indexed_def)
qed

end

section \<open>The code fulfils the contract\<close>

definition log_of :: "Entries \<Rightarrow> rpc_Entry list" where
  "log_of es = take (nat (size_m es)) (vec_m es)"

definition entries_inv :: "Entries \<Rightarrow> bool" where
  "entries_inv es \<longleftrightarrow>
     0 \<le> size_m es \<and> size_m es < 2 ^ 31 \<and>
     length (offset_m es) = Suc (nat (size_m es)) \<and> size_m es \<le> int (length (vec_m es))"

text \<open>An insert needs one more position below the largest \<open>int\<close>.\<close>

definition entries_room :: "Entries \<Rightarrow> bool" where
  "entries_room es \<longleftrightarrow> size_m es < 2 ^ 31 - 1"

lemma sint_of_small: "0 \<le> i \<Longrightarrow> i < 2 ^ 31 \<Longrightarrow> sint (word_of_int i :: 32 word) = i"
  by (subst sint_sbintrunc') (simp add: signed_take_bit_int_eq_self_iff)

lemma uint_of_small: "0 \<le> i \<Longrightarrow> i < 2 ^ 32 \<Longrightarrow> uint (word_of_int i :: 32 word) = i"
  by (simp add: uint_word_of_int)

lemma word_less_small:
  "0 \<le> i \<Longrightarrow> i < 2 ^ 32 \<Longrightarrow> 0 \<le> j \<Longrightarrow> j < 2 ^ 32 \<Longrightarrow>
   ((word_of_int i :: 32 word) < word_of_int j) = (i < j)"
  by (simp add: word_less_def uint_of_small)

lemma word_eq_small:
  "0 \<le> i \<Longrightarrow> i < 2 ^ 32 \<Longrightarrow> 0 \<le> j \<Longrightarrow> j < 2 ^ 32 \<Longrightarrow>
   ((word_of_int i :: 32 word) = word_of_int j) = (i = j)"
  by (metis uint_of_small)

lemma size_t_less:
  assumes "0 \<le> i" "i < 2 ^ 63" "0 \<le> j" "j < 2 ^ 63"
  shows "(size_t i < size_t j) = (i < j)" "(size_t i = size_t j) = (i = j)"
proof -
  have "uint (word_of_int k :: 64 word) = k" if "0 \<le> k" "k < 2 ^ 63" for k
    using that by (simp add: uint_word_of_int)
  then show "(size_t i < size_t j) = (i < j)" "(size_t i = size_t j) = (i = j)"
    using assms unfolding size_t_def word_less_def by (simp, metis)
qed

lemma of_nat_size_t: "(of_nat n :: 64 word) = size_t (int n)"
  by (simp add: size_t_def)

lemma of_nat_pred_size_t: "n \<noteq> 0 \<Longrightarrow> (of_nat n - 1 :: 64 word) = size_t (int n - 1)"
  by (simp add: size_t_def)

lemma entries_inv_offsets: "entries_inv es \<Longrightarrow> offset_m es \<noteq> [] \<and> length (offset_m es) = Suc (nat (size_m es))"
  by (auto simp: entries_inv_def)

lemma get_offset_ok:
  assumes "entries_inv es" "0 \<le> i" "i \<le> size_m es"
  shows "get_offset i es = Inr (offset_m es ! nat i)"
proof -
  have "int (length (offset_m es)) = size_m es + 1" "size_m es < 2 ^ 31"
    using assms by (auto simp: entries_inv_def)
  then have "\<not> size_t (int (length (offset_m es))) \<le> size_t i" "nat i < length (offset_m es)"
    using assms by (auto simp: size_t_less not_le)
  then show ?thesis
    by (simp add: get_offset_def of_nat_size_t del: of_nat_Suc)
qed

lemma modify_offset_ok:
  assumes "entries_inv es" "0 \<le> i" "i \<le> size_m es"
  shows "modify_offset_vector_after_insert i s es =
    Ok (es\<lparr>offset_m := take (Suc (nat i)) (offset_m es) @ [offset_m es ! nat i + of_nat (length s)]\<rparr>)"
proof -
  have n: "length (offset_m es) = Suc (nat (size_m es))" "offset_m es \<noteq> []" "size_m es < 2 ^ 31"
    using assms entries_inv_offsets by (auto simp: entries_inv_def)
  have l: "(of_nat (nat (size_m es)) :: 64 word) = size_t (size_m es)"
    using assms by (simp add: size_t_def entries_inv_def)
  show ?thesis
  proof (cases "i = size_m es")
    case True
    then show ?thesis using n
      by (simp add: modify_offset_vector_after_insert_def Let_def l)
  next
    case False
    then have lt: "i < size_m es" using assms by simp
    then have "Suc (nat i) < length (offset_m es)" using n assms by simp
    then have t: "take (nat i + 2) ((offset_m es)[nat i + 1 := v]) = take (Suc (nat i)) (offset_m es) @ [v]" for v
      using take_Suc_conv_app_nth [of "Suc (nat i)" "(offset_m es)[nat i + 1 := v]"] by simp
    have "size_t i \<noteq> size_t (size_m es)" "size_t i < size_t (size_m es)"
      using lt n assms by (simp_all add: size_t_less)
    with n t show ?thesis
      by (simp add: modify_offset_vector_after_insert_def Let_def l)
  qed
qed

lemma insert_in_memory_ok:
  assumes "0 \<le> i" "i \<le> size_m es" "size_m es < 2 ^ 31 - 1" "size_m es \<le> int (length (vec_m es))"
  shows "insert_in_memory (word_of_int i) e es =
    Ok (es\<lparr>vec_m := (if nat i < length (vec_m es) then (vec_m es)[nat i := e] else vec_m es @ [e]),
          size_m := i + 1\<rparr>)"
proof -
  have u: "unat (word_of_int i :: 32 word) = nat i" using assms by (simp add: unat_eq_nat_uint uint_of_small)
  have s: "sint (word_of_int i + 1 :: 32 word) = i + 1"
    using sint_of_small [of "i + 1"] assms by simp
  have "nat i \<le> length (vec_m es)" using assms by simp
  moreover have "(word_of_int i = (word_of_int (size_m es) :: 32 word)) = (i = size_m es)"
    "((word_of_int i :: 32 word) < word_of_int (size_m es)) = (i < size_m es)"
    using assms by (simp_all add: word_eq_small word_less_small)
  ultimately show ?thesis using assms u s
    by (cases "i = size_m es") (auto simp: insert_in_memory_def Let_def)
qed

text \<open>The effect of an insert on the whole object.\<close>

definition inserted :: "pb \<Rightarrow> int \<Rightarrow> rpc_Entry \<Rightarrow> file_fd \<Rightarrow> Entries \<Rightarrow> Entries" where
  "inserted P i e d es =
     (let off = take (Suc (nat i)) (offset_m es) @ [offset_m es ! nat i + of_nat (length (ser_entry P e))] in
      \<lparr>data_m = d,
       vec_m = (if nat i < length (vec_m es) then (vec_m es)[nat i := e] else vec_m es @ [e]),
       offset_m = off, size_m = i + 1, offset_file_m = Some (oar P off)\<rparr>)"

lemma Entries_insert_eq:
  assumes "entries_inv es" "entries_room es" "0 \<le> i" "i \<le> size_m es"
  shows "Entries_insert P (word_of_int i) e es =
    seq (map_outcome (\<lambda>d. es\<lparr>data_m := d\<rparr>)
           (write_from_offset (sint (offset_m es ! nat i)) (ser_entry P e) (data_m es)))
        (\<lambda>es'. Ok (inserted P i e (data_m es') es))"
proof -
  have b: "size_m es < 2 ^ 31 - 1" "size_m es \<le> int (length (vec_m es))" "0 \<le> size_m es"
    using assms by (simp_all add: entries_inv_def entries_room_def)
  then have g: "\<not> (word_of_int (size_m es) :: 32 word) < word_of_int i"
    using assms(3,4) by (simp add: word_less_small)
  have si: "sint (word_of_int i :: 32 word) = i"
    using assms(3,4) b by (simp add: sint_of_small)
  let ?w = "write_from_offset (sint (offset_m es ! nat i)) (ser_entry P e) (data_m es)"
  have rest: "seq (modify_offset_vector_after_insert i (ser_entry P e) (es\<lparr>data_m := d\<rparr>))
      (\<lambda>es. insert_in_memory (word_of_int i) e (write_offset_to_file P es)) = Ok (inserted P i e d es)" for d
  proof -
    have "entries_inv (es\<lparr>data_m := d\<rparr>)" using assms by (simp add: entries_inv_def)
    from modify_offset_ok [OF this, of i] show ?thesis
      using assms b by (simp add: write_offset_to_file_def insert_in_memory_ok inserted_def Let_def)
  qed
  show ?thesis
    unfolding Entries_insert_def
    using g si get_offset_ok [OF assms(1,3,4)] rest by (cases ?w) (simp_all add: Let_def)
qed

lemma log_of_inserted:
  assumes "entries_inv es" "0 \<le> i" "i \<le> size_m es"
  shows "log_of (inserted P i e d es) = take (nat i) (log_of es) @ [e]"
proof -
  have n: "nat i \<le> length (vec_m es)" "min (nat i) (nat (size_m es)) = nat i" "nat (i + 1) = Suc (nat i)"
    using assms by (auto simp: entries_inv_def)
  then show ?thesis
    by (cases "nat i < length (vec_m es)")
      (simp_all add: log_of_def inserted_def Let_def take_Suc_conv_app_nth)
qed

lemma entries_inv_inserted:
  assumes "entries_inv es" "entries_room es" "0 \<le> i" "i \<le> size_m es"
  shows "entries_inv (inserted P i e d es)"
  using assms entries_inv_offsets [OF assms(1)]
  by (auto simp: entries_inv_def entries_room_def inserted_def Let_def)

lemma length_log_of: "entries_inv es \<Longrightarrow> int (length (log_of es)) = size_m es"
  by (auto simp: log_of_def entries_inv_def min_def)

lemma Entries_insert_range:
  assumes "entries_inv es" "size_m es < i" "i < 2 ^ 32"
  shows "Entries_insert P (word_of_int i) e es = Throw Entries_insert_range es"
  using assms by (simp add: Entries_insert_def entries_inv_def word_less_small)

lemma Entries_insert_log:
  assumes "entries_inv es" "entries_room es" "0 \<le> i" "i \<le> size_m es"
  shows "okp (\<lambda>es'. entries_inv es' \<and> log_of es' = take (nat i) (log_of es) @ [e])
           (Entries_insert P (word_of_int i) e es)"
  unfolding Entries_insert_eq [OF assms]
  using assms by (simp add: wp entries_inv_inserted log_of_inserted)

interpretation entries: log_store Entries_size Entries_get
  "\<lambda>i. Entries_insert P (word_of_int i)" log_of entries_inv entries_room for P
proof unfold_locales
  fix l :: Entries and i :: int and e :: rpc_Entry
  assume inv: "entries_inv l"
  show "Entries_size l = int (length (log_of l))"
    using inv by (simp add: Entries_size_def length_log_of)
  show "Entries_get l i = Inl Entries_get_range" if "Entries_size l \<le> i"
    using that by (simp add: Entries_get_def Entries_size_def)
  show "Entries_get l i = Inr (log_of l ! nat i)" if "0 \<le> i" "i < Entries_size l"
    using that inv by (auto simp: Entries_get_def Entries_size_def entries_inv_def log_of_def)
  show "okp (\<lambda>l'. entries_inv l' \<and> log_of l' = take (nat i) (log_of l) @ [e])
          (Entries_insert P (word_of_int i) e l)"
    if "entries_room l" "0 \<le> i" "i \<le> Entries_size l"
    using that inv by (intro Entries_insert_log) (simp_all add: Entries_size_def)
  show "Entries_insert P (word_of_int i) e l = Throw Entries_insert_range l"
    if "Entries_size l < i" "i < 2 ^ 32"
    using that inv by (intro Entries_insert_range) (simp_all add: Entries_size_def)
qed

section \<open>Durability\<close>

text \<open>
  The files describe the log: the data file is the serialised entries one after the other, and
  the offsets are the positions where they start and end. As long as the data fits below
  \<open>2 ^ 31\<close> bytes (the offsets pass through \<open>int\<close>), \<open>insert\<close> keeps that, and the constructor run on
  these files rebuilds the same log.
\<close>

fun positions :: "nat \<Rightarrow> string list \<Rightarrow> nat list" where
  "positions n [] = [n]"
| "positions n (s # ss) = n # positions (n + length s) ss"

definition blobs :: "pb \<Rightarrow> Entries \<Rightarrow> string list" where
  "blobs P es = map (ser_entry P) (log_of es)"

definition disk_inv :: "pb \<Rightarrow> Entries \<Rightarrow> bool" where
  "disk_inv P es \<longleftrightarrow>
     entries_inv es \<and>
     offset_m es = map of_nat (positions 0 (blobs P es)) \<and>
     contents (data_m es) = concat (blobs P es) \<and>
     length (concat (blobs P es)) < 2 ^ 31 \<and>
     offset_file_m es = Some (oar P (offset_m es))"

lemma length_positions [simp]: "length (positions n ss) = Suc (length ss)"
  by (induction n ss rule: positions.induct) simp_all

lemma positions_nth: "k \<le> length ss \<Longrightarrow> positions n ss ! k = n + length (concat (take k ss))"
proof (induction n ss arbitrary: k rule: positions.induct)
  case (2 n s ss)
  then show ?case by (cases k) simp_all
qed simp

lemma positions_snoc:
  "k \<le> length ss \<Longrightarrow>
   positions n (take k ss @ [s]) = take (Suc k) (positions n ss) @ [positions n ss ! k + length s]"
proof (induction n ss arbitrary: k rule: positions.induct)
  case (2 n t ss)
  then show ?case by (cases k) simp_all
qed simp

lemma sint_of_nat_small: "n < 2 ^ 31 \<Longrightarrow> sint (of_nat n :: 32 word) = int n"
  using sint_of_small [of "int n"] by (simp add: of_nat_less_iff [symmetric] del: of_nat_less_iff)

lemma take_concat_take: "take (length (concat (take k ss))) (concat ss) = concat (take k ss)"
  by (metis append_eq_conv_conj append_take_drop_id concat_append)

lemma length_concat_take: "length (concat (take k ss)) \<le> length (concat ss)"
  by (metis append_take_drop_id concat_append le_add1 length_append)

lemma blobs_length: "entries_inv es \<Longrightarrow> int (length (blobs P es)) = size_m es"
  by (simp add: blobs_def length_log_of)

text \<open>Insert keeps the files in step with the log. It also returns normally, unless the device
  refuses the write.\<close>

lemma insert_disk:
  assumes "disk_inv P es" "entries_room es" "0 \<le> i" "i \<le> size_m es"
    and dev: "\<not> wr_fails (data_m es)"
    and fits: "length (concat (take (nat i) (blobs P es))) + length (ser_entry P e) < 2 ^ 31"
  shows "surely (\<lambda>es'. disk_inv P es' \<and> log_of es' = take (nat i) (log_of es) @ [e])
           (Entries_insert P (word_of_int i) e es)"
proof -
  have inv: "entries_inv es" and off: "offset_m es = map of_nat (positions 0 (blobs P es))"
    and con: "contents (data_m es) = concat (blobs P es)" and len: "length (concat (blobs P es)) < 2 ^ 31"
    using assms by (simp_all add: disk_inv_def)
  let ?k = "nat i" and ?s = "ser_entry P e"
  let ?b = "take ?k (blobs P es)"
  have k: "?k \<le> length (blobs P es)" using blobs_length [OF inv, of P] assms by simp
  then have o: "offset_m es ! ?k = of_nat (length (concat ?b))"
    by (simp add: off positions_nth)
  then have so: "sint (offset_m es ! ?k) = int (length (concat ?b))"
    using fits by (simp add: sint_of_nat_small)
  have "write_from_offset (sint (offset_m es ! ?k)) ?s (data_m es) =
      Ok ((data_m es)\<lparr>contents := concat ?b @ ?s, pos := length (concat ?b) + length ?s\<rparr>)"
    unfolding so using dev con length_concat_take [of ?k "blobs P es"]
    by (subst write_from_offset_inside) (simp_all add: take_concat_take)
  moreover have "disk_inv P (inserted P i e d es) \<and> log_of (inserted P i e d es) = take ?k (log_of es) @ [e]"
    if d: "contents d = concat ?b @ ?s" for d
  proof -
    have l: "log_of (inserted P i e d es) = take ?k (log_of es) @ [e]"
      using inv assms by (simp add: log_of_inserted)
    then have b: "blobs P (inserted P i e d es) = ?b @ [?s]"
      by (simp add: blobs_def take_map)
    have "offset_m (inserted P i e d es) = map of_nat (positions 0 (?b @ [?s]))"
      using k o off by (simp add: inserted_def Let_def positions_snoc positions_nth take_map)
    then show ?thesis
      using l b d fits inv assms
      by (simp add: disk_inv_def entries_inv_inserted) (simp add: inserted_def Let_def)
  qed
  ultimately show ?thesis
    by (simp add: Entries_insert_eq [OF inv assms(2-4)])
qed

lemma reload_positions:
  assumes law: "pb_law P"
    and con: "drop n (contents f) = concat (map (ser_entry P) xs)" and n: "n \<le> length (contents f)"
    and len: "length (contents f) < 2 ^ 31"
  shows "\<exists>g. reload_entries P (map of_nat (positions n (map (ser_entry P) xs))) f = Inr (xs, g)
    \<and> contents g = contents f \<and> wr_fails g = wr_fails f"
  using con n len
proof (induction xs arbitrary: n f)
  case Nil
  then show ?case by simp
next
  case (Cons x xs)
  let ?s = "ser_entry P x" and ?rest = "concat (map (ser_entry P) xs)"
  let ?m = "n + length ?s"
  have dm: "drop ?m (contents f) = ?rest"
    using arg_cong [OF Cons.prems(1), of "drop (length ?s)"] by (simp add: add.commute)
  have "length (contents f) - n = length ?s + length ?rest"
    using arg_cong [OF Cons.prems(1), of length] by simp
  then have ml: "?m \<le> length (contents f)" using Cons.prems(2) by simp
  let ?f = "f\<lparr>pos := n + length ?s\<rparr>"
  obtain g where g: "reload_entries P (map of_nat (positions ?m (map (ser_entry P) xs))) ?f = Inr (xs, g)"
    "contents g = contents f" "wr_fails g = wr_fails f"
    using Cons.IH [of ?m ?f] dm ml Cons.prems(3) by auto
  obtain ps where ps: "positions ?m (map (ser_entry P) xs) = ?m # ps"
    by (cases xs) auto
  have sn: "sint (of_nat n :: 32 word) = int n" "sint (of_nat ?m :: 32 word) = int ?m"
    using ml Cons.prems(3) by (simp_all add: sint_of_nat_small del: of_nat_add)
  have "read_from_offset (int n) (int ?m - int n) f = Inr (?s, ?f)"
    using ml Cons.prems(1) by (subst read_from_offset_inside) simp_all
  then show ?case
    using g ps sn law by (simp del: of_nat_add)
qed

text \<open>Restarting on the files of a log in step with them gives the log back.\<close>

lemma reload_log:
  assumes "pb_law P" "disk_inv P es"
  shows "\<exists>es'. Entries_ctor P True (Some (data_m es)) (offset_file_m es) = Inr es' \<and>
    log_of es' = log_of es \<and> disk_inv P es'"
proof -
  have inv: "entries_inv es" and off: "offset_m es = map of_nat (positions 0 (blobs P es))"
    and con: "contents (data_m es) = concat (blobs P es)" and len: "length (concat (blobs P es)) < 2 ^ 31"
    and fil: "offset_file_m es = Some (oar P (offset_m es))"
    using assms by (simp_all add: disk_inv_def)
  let ?f = "(data_m es)\<lparr>pos := 0\<rparr>"
  obtain g where g: "reload_entries P (offset_m es) ?f = Inr (log_of es, g)" "contents g = contents (data_m es)"
    using reload_positions [OF assms(1), of 0 ?f "log_of es"] con len off by (auto simp: blobs_def)
  let ?es = "\<lparr>data_m = g, vec_m = log_of es, offset_m = offset_m es, size_m = size_m es,
    offset_file_m = offset_file_m es\<rparr>"
  have sz: "int (length (offset_m es)) - 1 = size_m es" "0 \<le> size_m es"
    using inv by (auto simp: entries_inv_def)
  have "Entries_ctor P True (Some (data_m es)) (offset_file_m es) = Inr ?es"
    using g sz entries_inv_offsets [OF inv] assms(1) by (simp add: Entries_ctor_def data_ctor_def fil Let_def)
  moreover have "log_of ?es = log_of es"
    by (simp add: log_of_def)
  moreover have "entries_inv ?es"
    using inv length_log_of [OF inv] by (simp add: entries_inv_def)
  ultimately show ?thesis
    using g off con len fil by (simp add: disk_inv_def blobs_def)
qed

end
