(* ===== verification/Raft_RPC.thy ===== *)
theory Raft_RPC
  imports Raft_Messages
begin

text \<open>
  \<^verbatim>\<open>src/rpc/rpc.cpp\<close> and \<^verbatim>\<open>src/rpc/connection.cpp\<close>: the message layer. A \<open>connection\<close> object is
  an index into \<open>conns_m\<close> (the \<open>shared_ptr\<close>s to it are copies of that index); the asynchronous
  operations it starts on its socket are appended to \<open>io_m\<close> in the order they are started, and
  their completion handlers are the definitions named \<open>..._handler\<close> and \<open>read_body\<close>,
  \<open>body_callback\<close>.

  On the wire a message is a four-character decimal length, one character for the \<open>RPC_TYPE\<close> and
  the serialised body. \<open>recv_stream\<close> composes the receiving callbacks over the bytes that arrive on
  one connection, each \<open>async_read\<close> completing before the next one starts. The contract of a framed
  stream is the locale \<open>framing\<close>, interpreted on the code's encoder and reader.
\<close>

section \<open>Model\<close>

record connection =
  remote_addr_m :: string
  remote_port_m :: int
  remote_peer_m :: endpoint
  local_addr_m :: string
  local_port_m :: int

text \<open>Its accessors; the two strings are what the log lines name a connection by.\<close>

definition local_addr_str :: "connection \<Rightarrow> string" where
  "local_addr_str c = local_addr_m c @ '':'' @ to_string (local_port_m c)"

definition remote_addr_str :: "connection \<Rightarrow> string" where
  "remote_addr_str c = remote_addr_m c @ '':'' @ to_string (remote_port_m c)"

definition remote_addr :: "connection \<Rightarrow> endpoint" where
  "remote_addr c = remote_peer_m c"

datatype net_op =
    Async_accept
  | Async_connect nat endpoint string   \<comment> \<open>connection, endpoint, message to deliver once connected\<close>
  | Async_write nat string
  | Async_read_header nat
  | Async_read_body nat nat             \<comment> \<open>connection, number of bytes\<close>

record RPC =
  connection_map_m :: "(endpoint, nat) smap"
  conns_m :: "connection list"
  io_m :: "net_op list"

definition start_op :: "net_op \<Rightarrow> RPC \<Rightarrow> RPC" where
  "start_op x r = r\<lparr>io_m := io_m r @ [x]\<rparr>"

text \<open>\<open>char header[4 + 1]\<close> holds at most four digits and the NUL; a longer number is written
  past its end.\<close>

definition msg_encode :: "string \<Rightarrow> string res" where
  "msg_encode msg =
     (let msg_len = int (length msg); header = sprintf_4d msg_len in
      if length header > 4 then Inl Undefined_behaviour else Inr (take 4 header @ msg))"

definition RPC_get :: "endpoint \<Rightarrow> RPC \<Rightarrow> nat option" where
  "RPC_get remote_peer r = map_of (connection_map_m r) remote_peer"

definition RPC_insert :: "endpoint \<Rightarrow> nat \<Rightarrow> RPC \<Rightarrow> RPC" where
  "RPC_insert remote_peer c r = r\<lparr>connection_map_m := put remote_peer c (connection_map_m r)\<rparr>"

definition RPC_remove :: "endpoint \<Rightarrow> RPC \<Rightarrow> RPC" where
  "RPC_remove remote_peer r = r\<lparr>connection_map_m := AList.delete remote_peer (connection_map_m r)\<rparr>"

text \<open>The two constructors of \<open>connection\<close>; the new object is the last of \<open>conns_m\<close>.\<close>

definition connection_to :: "endpoint \<Rightarrow> connection" where
  "connection_to server = \<lparr>remote_addr_m = ip_of server, remote_port_m = port_of server,
     remote_peer_m = (ip_of server, port_of server), local_addr_m = [], local_port_m = 0\<rparr>"

text \<open>The \<open>try\<close> block of the constructor for an accepted socket: \<open>remote_endpoint\<close> and then \<open>local_endpoint\<close> throw when the
  peer has gone already (\<open>None\<close>), and what has not been set stays as it was: the strings and \<open>remote_peer_\<close> are
  empty, the two ports indeterminate (only log lines read them; 0 here).\<close>

definition connection_from :: "endpoint option \<Rightarrow> endpoint option \<Rightarrow> connection" where
  "connection_from remote_endpoint local_endpoint =
     (let c = \<lparr>remote_addr_m = [], remote_port_m = 0, remote_peer_m = ([], 0), local_addr_m = [], local_port_m = 0\<rparr> in
      case remote_endpoint of
        None \<Rightarrow> c
      | Some remote_peer \<Rightarrow>
          let c = c\<lparr>remote_addr_m := ip_of remote_peer, remote_port_m := port_of remote_peer,
                    remote_peer_m := (ip_of remote_peer, port_of remote_peer)\<rparr> in
          (case local_endpoint of
             None \<Rightarrow> c
           | Some local_peer \<Rightarrow> c\<lparr>local_addr_m := ip_of local_peer, local_port_m := port_of local_peer\<rparr>))"

definition new_connection :: "connection \<Rightarrow> RPC \<Rightarrow> nat \<times> RPC" where
  "new_connection c r = (length (conns_m r), r\<lparr>conns_m := conns_m r @ [c]\<rparr>)"

definition read_header :: "nat \<Rightarrow> RPC \<Rightarrow> RPC" where
  "read_header c r = start_op (Async_read_header c) r"

definition deliver :: "nat \<Rightarrow> string \<Rightarrow> RPC \<Rightarrow> RPC" where
  "deliver c msg r = start_op (Async_write c msg) r"

text \<open>\<open>deliver\<close>'s completion handler.\<close>

definition deliver_handler :: "bool \<Rightarrow> nat \<Rightarrow> RPC \<Rightarrow> RPC" where
  "deliver_handler error c r = (if error then RPC_remove (remote_peer_m (conns_m r ! c)) r else r)"

text \<open>\<open>connect\<close>: \<open>address_ok\<close> is whether asio's \<open>address::from_string\<close> accepts the text.\<close>

definition connect :: "(string \<Rightarrow> bool) \<Rightarrow> nat \<Rightarrow> string \<Rightarrow> RPC \<Rightarrow> RPC outcome" where
  "connect address_ok c msg r =
     (let conn = conns_m r ! c in
      if \<not> address_ok (remote_addr_m conn) then Throw Bad_address r
      else Ok (start_op (Async_connect c (remote_addr_m conn, remote_port_m conn mod 65536) msg) r))"

text \<open>\<open>connect\<close>'s completion handler; \<open>cb\<close> is \<open>RPC::insert(server, sp1)\<close>.\<close>

definition connect_handler :: "bool \<Rightarrow> endpoint \<Rightarrow> nat \<Rightarrow> endpoint \<Rightarrow> string \<Rightarrow> RPC \<Rightarrow> RPC" where
  "connect_handler error local_peer c server msg r =
     (if error then r
      else
        let r = r\<lparr>conns_m := (conns_m r)[c := (conns_m r ! c)\<lparr>local_addr_m := ip_of local_peer,
                                                             local_port_m := port_of local_peer\<rparr>]\<rparr>;
            r = read_header c r;
            r = RPC_insert server c r
        in deliver c msg r)"

definition make_rpc_call ::
    "pb \<Rightarrow> (string \<Rightarrow> bool) \<Rightarrow> RPC_TYPE \<Rightarrow> endpoint \<Rightarrow> string \<Rightarrow> RPC \<Rightarrow> RPC outcome" where
  "make_rpc_call P address_ok rpc_type server msg r =
     with_res (rpc_to_str P (Some rpc_type) msg) r (\<lambda>_.
       let rpc_msg = to_string (rpc_type_num rpc_type) @ msg; sp = RPC_get server r in
       with_res (msg_encode rpc_msg) r (\<lambda>encoded_msg.
         case sp of
           None \<Rightarrow> (let (sp1, r) = new_connection (connection_to server) r in connect address_ok sp1 encoded_msg r)
         | Some c \<Rightarrow> Ok (deliver c encoded_msg r)))"

text \<open>Accepting: \<open>connection::start\<close> registers the peer and starts reading; \<open>startAccept\<close> runs
  again whether or not the accept failed.\<close>

definition connection_start :: "nat \<Rightarrow> RPC \<Rightarrow> RPC" where
  "connection_start c r = read_header c (RPC_insert (remote_peer_m (conns_m r ! c)) c r)"

definition startAccept :: "RPC \<Rightarrow> RPC" where
  "startAccept r = start_op Async_accept r"

definition accept_handler :: "bool \<Rightarrow> endpoint option \<Rightarrow> endpoint option \<Rightarrow> RPC \<Rightarrow> RPC" where
  "accept_handler error remote_endpoint local_endpoint r =
     startAccept
       (if error then r
        else let (c, r) = new_connection (connection_from remote_endpoint local_endpoint) r in connection_start c r)"

text \<open>Receiving. \<open>asio::buffer(data_, msg_len)\<close> on the array \<open>data_\<close> is at most its 5120 bytes; a
  negative length converts to a huge \<open>size_t\<close>.\<close>

definition body_len :: "string \<Rightarrow> nat" where
  "body_len header = (let msg_len = atoi header in if msg_len < 0 then 5120 else min (nat msg_len) 5120)"

definition read_body :: "bool \<Rightarrow> string \<Rightarrow> nat \<Rightarrow> RPC \<Rightarrow> RPC" where
  "read_body error header c r =
     (if error then RPC_remove (remote_peer_m (conns_m r ! c)) r
      else read_header c (start_op (Async_read_body c (body_len header)) r))"

text \<open>
  \<open>process_msg\<close>: \<open>atoi\<close> is called on a one-byte array without a terminating NUL, so it goes on into
  the bytes that follow the array on the stack, \<open>junk\<close> here. The result is the call of the
  callback \<open>cb_\<close>.
\<close>

definition process_msg :: "pb \<Rightarrow> string \<Rightarrow> string \<Rightarrow> endpoint \<Rightarrow> (RPC_TYPE \<times> string \<times> endpoint) res" where
  "process_msg P junk data remote_peer =
     (case data of
        [] \<Rightarrow> Inl Undefined_behaviour
      | c # msg \<Rightarrow>
          (let remote_rpc_type = rpc_type_cast (atoi (c # junk)) in
           case rpc_to_str P remote_rpc_type msg of
             Inl e \<Rightarrow> Inl e
           | Inr _ \<Rightarrow> Inr (the remote_rpc_type, msg, remote_peer)))"

definition body_callback ::
    "pb \<Rightarrow> string \<Rightarrow> bool \<Rightarrow> string \<Rightarrow> connection \<Rightarrow> (RPC_TYPE \<times> string \<times> endpoint) res" where
  "body_callback P junk error data conn =
     (if error then Inl Body_read_failed else process_msg P junk data (remote_peer_m conn))"

text \<open>One message off the bytes received so far: \<open>None\<close> while the header or the body is incomplete.\<close>

definition recv_one ::
    "pb \<Rightarrow> string \<Rightarrow> connection \<Rightarrow> string \<Rightarrow> ((RPC_TYPE \<times> string \<times> endpoint) \<times> string) res option" where
  "recv_one P junk conn bs =
     (if length bs < 4 then None
      else let n = body_len (take 4 bs); rest = drop 4 bs in
        if length rest < n then None
        else Some (case body_callback P junk False (take n rest) conn of
               Inl e \<Rightarrow> Inl e
             | Inr m \<Rightarrow> Inr (m, drop n rest)))"

function recv_stream ::
    "pb \<Rightarrow> string \<Rightarrow> connection \<Rightarrow> string \<Rightarrow> (RPC_TYPE \<times> string \<times> endpoint) list \<times> string res" where
  "recv_stream P junk conn bs =
     (case recv_one P junk conn bs of
        None \<Rightarrow> ([], Inr bs)
      | Some (Inl e) \<Rightarrow> ([], Inl e)
      | Some (Inr (m, rest)) \<Rightarrow> (let (ms, st) = recv_stream P junk conn rest in (m # ms, st)))"
  by pat_completeness auto
termination
  by (relation "measure (\<lambda>(P, junk, conn, bs). length bs)")
    (auto simp: recv_one_def Let_def split: if_splits sum.splits)

declare recv_stream.simps [simp del]

section \<open>Framed streams\<close>

text \<open>
  A framed stream: \<open>dec1\<close> takes one message off the front, \<open>stream\<close> takes all of them. If \<open>dec1\<close>
  undoes \<open>enc\<close> on the messages that fit, the stream of any such messages is delivered whole, in
  order, without merging or splitting, and an incomplete tail waits for more bytes.
\<close>

locale framing =
  fixes enc :: "'m \<Rightarrow> string"
    and out :: "'m \<Rightarrow> 'o"
    and fits :: "'m \<Rightarrow> bool"
    and dec1 :: "string \<Rightarrow> ('o \<times> string) res option"
    and stream :: "string \<Rightarrow> 'o list \<times> string res"
  assumes dec_enc: "fits m \<Longrightarrow> dec1 (enc m @ rest) = Some (Inr (out m, rest))"
    and stream_rec: "stream bs = (case dec1 bs of
          None \<Rightarrow> ([], Inr bs)
        | Some (Inl e) \<Rightarrow> ([], Inl e)
        | Some (Inr (m, rest)) \<Rightarrow> (let (ms, st) = stream rest in (m # ms, st)))"
begin

lemma stream_prefix:
  "\<forall>m \<in> set ms. fits m \<Longrightarrow>
   stream (concat (map enc ms) @ tail) = (let (os, st) = stream tail in (map out ms @ os, st))"
proof (induction ms)
  case Nil
  then show ?case by (simp add: split_def)
next
  case (Cons m ms)
  then have "stream (enc m @ concat (map enc ms) @ tail) =
      (let (os, st) = stream (concat (map enc ms) @ tail) in (out m # os, st))"
    by (subst stream_rec) (simp add: dec_enc)
  with Cons show ?case by (simp add: split_def Let_def)
qed

lemma stream_all:
  assumes "\<forall>m \<in> set ms. fits m" and "dec1 tail = None"
  shows "stream (concat (map enc ms) @ tail) = (map out ms, Inr tail)"
proof -
  have "stream tail = ([], Inr tail)" using assms(2) by (subst stream_rec) simp
  then show ?thesis using stream_prefix [OF assms(1), of tail] by simp
qed

end

section \<open>The wire format\<close>

lemma length_sprintf_4d: "0 \<le> i \<Longrightarrow> i < 10000 \<Longrightarrow> length (sprintf_4d i) = 4"
  using length_show_nat_le [of "nat i" 4] by (simp add: sprintf_4d_def Let_def to_string_def)

lemma atoi_sprintf_4d: "0 \<le> i \<Longrightarrow> atoi (sprintf_4d i) = i"
  using atoi_show_nat [of "[]" _ "nat i"] by (simp add: sprintf_4d_def Let_def to_string_def)

lemma length_sprintf_4d_gt: "10000 \<le> i \<Longrightarrow> 4 < length (sprintf_4d i)"
  using length_show_nat_gt [of 4 "nat i"] by (simp add: sprintf_4d_def Let_def to_string_def nat_le_iff le_nat_iff)

lemma msg_encode_ok: "length msg < 10000 \<Longrightarrow> msg_encode msg = Inr (sprintf_4d (int (length msg)) @ msg)"
  by (simp add: msg_encode_def Let_def length_sprintf_4d)

lemma msg_encode_overflow: "10000 \<le> length msg \<Longrightarrow> msg_encode msg = Inl Undefined_behaviour"
  using length_sprintf_4d_gt [of "int (length msg)"] by (simp add: msg_encode_def Let_def)

lemma to_string_type: "to_string (rpc_type_num t) = [digit_char (nat (rpc_type_num t))]"
  by (cases t) (simp_all add: to_string_def show_nat.simps)

text \<open>What \<open>make_rpc_call\<close> puts on the wire for a message.\<close>

definition wire :: "RPC_TYPE \<times> string \<Rightarrow> string" where
  "wire m = sprintf_4d (int (Suc (length (snd m)))) @ to_string (rpc_type_num (fst m)) @ snd m"

definition wire_fits :: "RPC_TYPE \<times> string \<Rightarrow> bool" where
  "wire_fits m \<longleftrightarrow> fst m \<noteq> ERROR \<and> length (snd m) < 5120"

lemma atoi_type: "junk = [] \<or> \<not> is_digit (hd junk) \<Longrightarrow>
   atoi (digit_char (nat (rpc_type_num t)) # junk) = rpc_type_num t"
  using atoi_to_string [of junk "rpc_type_num t"] by (simp add: to_string_type)

lemma recv_one_wire:
  assumes "wire_fits m" and junk: "junk = [] \<or> \<not> is_digit (hd junk)"
  shows "recv_one P junk conn (wire m @ rest) = Some (Inr ((fst m, snd m, remote_peer_m conn), rest))"
proof -
  let ?n = "Suc (length (snd m))"
  have n: "?n \<le> 5120" using assms by (simp add: wire_fits_def)
  have h: "take 4 (wire m @ rest) = sprintf_4d (int ?n)" "drop 4 (wire m @ rest) = to_string (rpc_type_num (fst m)) @ snd m @ rest"
    using length_sprintf_4d [of "int ?n"] n by (simp_all add: wire_def)
  have bl: "body_len (sprintf_4d (int ?n)) = ?n"
    using atoi_sprintf_4d [of "int ?n"] n by (simp add: body_len_def Let_def)
  obtain s where s: "rpc_to_str P (Some (fst m)) (snd m) = Inr s"
    using rpc_to_str_ok assms(1) unfolding wire_fits_def by blast
  have "body_callback P junk False (to_string (rpc_type_num (fst m)) @ snd m) conn
      = Inr (fst m, snd m, remote_peer_m conn)"
    using atoi_type [OF junk] by (simp add: body_callback_def process_msg_def to_string_type s)
  moreover have "length (wire m @ rest) \<ge> 4"
    using length_sprintf_4d [of "int ?n"] n by (simp add: wire_def)
  ultimately show ?thesis
    unfolding recv_one_def Let_def h bl by (simp add: to_string_type)
qed


definition clean :: "string \<Rightarrow> bool" where
  "clean junk \<longleftrightarrow> junk = [] \<or> \<not> is_digit (hd junk)"

interpretation tcp: framing wire "\<lambda>m. (fst m, snd m, remote_peer_m conn)"
  "\<lambda>m. wire_fits m \<and> clean junk" "recv_one P junk conn" "recv_stream P junk conn" for P junk conn
  by unfold_locales (simp add: recv_one_wire clean_def, rule recv_stream.simps)

text \<open>The length the header can carry is larger than the receive buffer: such a message is cut.\<close>

lemma recv_one_oversize:
  assumes "5120 \<le> length (snd m)" "length (snd m) < 9999"
  shows "recv_one P junk conn (wire m @ rest) =
    Some (case process_msg P junk (take 5120 (to_string (rpc_type_num (fst m)) @ snd m)) (remote_peer_m conn) of
            Inl e \<Rightarrow> Inl e | Inr x \<Rightarrow> Inr (x, drop 5119 (snd m) @ rest))"
proof -
  let ?n = "Suc (length (snd m))"
  have l4: "length (sprintf_4d (int ?n)) = 4" using assms by (intro length_sprintf_4d) simp_all
  have h: "take 4 (wire m @ rest) = sprintf_4d (int ?n)" "drop 4 (wire m @ rest) = to_string (rpc_type_num (fst m)) @ snd m @ rest"
    using l4 by (simp_all add: wire_def)
  have bl: "body_len (sprintf_4d (int ?n)) = 5120"
    using atoi_sprintf_4d [of "int ?n"] assms by (simp add: body_len_def Let_def)
  have "\<not> length (wire m @ rest) < 4" using l4 by (simp add: wire_def)
  moreover have "drop 5120 (x # snd m @ rest) = drop 5119 (snd m) @ rest" for x
    using assms by (simp add: drop_Cons')
  ultimately show ?thesis
    unfolding recv_one_def Let_def h bl body_callback_def using assms
    by (simp add: to_string_type take_Cons' split: sum.splits)
qed

section \<open>Calls\<close>

text \<open>The connection map only holds connections to the peers they are registered under.\<close>

definition rpc_inv :: "RPC \<Rightarrow> bool" where
  "rpc_inv r \<longleftrightarrow> (\<forall>ep c. map_of (connection_map_m r) ep = Some c \<longrightarrow>
     c < length (conns_m r) \<and> remote_peer_m (conns_m r ! c) = ep)"

text \<open>Where an operation that carries a message sends it, and what.\<close>

fun op_call :: "RPC \<Rightarrow> net_op \<Rightarrow> (endpoint \<times> string) option" where
  "op_call r (Async_connect c ep msg) = Some (remote_peer_m (conns_m r ! c), msg)"
| "op_call r (Async_write c msg) = Some (remote_peer_m (conns_m r ! c), msg)"
| "op_call r _ = None"

text \<open>\<open>calls r r'\<close>: the messages handed to the network between two states.\<close>

definition calls :: "RPC \<Rightarrow> RPC \<Rightarrow> (endpoint \<times> string) list" where
  "calls r r' = List.map_filter (op_call r') (drop (length (io_m r)) (io_m r'))"

definition call_extends :: "RPC \<Rightarrow> RPC \<Rightarrow> bool" where
  "call_extends r r' \<longleftrightarrow>
     (\<exists>xs. io_m r' = io_m r @ xs \<and> (\<forall>x \<in> set xs. \<forall>cs. op_call (r'\<lparr>conns_m := conns_m r' @ cs\<rparr>) x = op_call r' x)) \<and>
     (\<exists>cs. conns_m r' = conns_m r @ cs)"

lemma make_rpc_call_cases:
  "make_rpc_call P ok t server msg r =
     (if t = ERROR then Throw Unknown_rpc_type r
      else if 9999 \<le> length msg then Throw Undefined_behaviour r
      else case RPC_get server r of
          Some c \<Rightarrow> Ok (deliver c (wire (t, msg)) r)
        | None \<Rightarrow>
            (let r' = r\<lparr>conns_m := conns_m r @ [connection_to server]\<rparr> in
             if ok (ip_of server) then
               Ok (start_op (Async_connect (length (conns_m r)) (ip_of server, port_of server mod 65536) (wire (t, msg))) r')
             else Throw Bad_address r'))"
proof (cases "t = ERROR")
  case True
  then show ?thesis by (simp add: make_rpc_call_def rpc_to_str_def)
next
  case False
  then obtain s where s: "rpc_to_str P (Some t) msg = Inr s" using rpc_to_str_ok by blast
  have len: "length (to_string (rpc_type_num t) @ msg) = Suc (length msg)" by (simp add: to_string_type)
  show ?thesis
  proof (cases "9999 \<le> length msg")
    case True
    with False s len show ?thesis by (simp add: make_rpc_call_def msg_encode_overflow)
  next
    case small: False
    then have "msg_encode (to_string (rpc_type_num t) @ msg) = Inr (wire (t, msg))"
      using len by (subst msg_encode_ok) (simp_all add: wire_def)
    with False small s show ?thesis
      by (simp add: make_rpc_call_def new_connection_def connect_def connection_to_def Let_def split: option.splits)
  qed
qed

lemma make_rpc_call_ok:
  assumes "rpc_inv r"
  shows "okp (\<lambda>r'. rpc_inv r' \<and> calls r r' = [(server, wire (t, msg))] \<and> call_extends r r' \<and>
           connection_map_m r' = connection_map_m r)
         (make_rpc_call P ok t server msg r)"
proof -
  have "remote_peer_m (conns_m r ! c) = server \<and> c < length (conns_m r)" if "RPC_get server r = Some c" for c
    using assms that unfolding rpc_inv_def RPC_get_def by blast
  then show ?thesis
    using assms
    by (auto simp: make_rpc_call_cases wp deliver_def start_op_def rpc_inv_def calls_def call_extends_def
        List.map_filter_def connection_to_def nth_append Let_def intro: less_SucI split: option.splits)
qed

lemma make_rpc_call_total:
  assumes "t \<noteq> ERROR" "length msg < 9999" "ok (ip_of server) \<or> RPC_get server r \<noteq> None"
  shows "surely (\<lambda>r'. True) (make_rpc_call P ok t server msg r)"
  using assms by (auto simp: make_rpc_call_cases Let_def split: option.splits)

lemma calls_trans:
  assumes "call_extends r r'" "call_extends r' r''"
  shows "calls r r'' = calls r r' @ calls r' r'' \<and> call_extends r r''"
proof -
  obtain xs cs where x: "io_m r' = io_m r @ xs" "\<forall>x \<in> set xs. \<forall>cs. op_call (r'\<lparr>conns_m := conns_m r' @ cs\<rparr>) x = op_call r' x"
    and c: "conns_m r' = conns_m r @ cs" using assms(1) by (auto simp: call_extends_def)
  obtain ys ds where y: "io_m r'' = io_m r' @ ys" "\<forall>x \<in> set ys. \<forall>cs. op_call (r''\<lparr>conns_m := conns_m r'' @ cs\<rparr>) x = op_call r'' x"
    and d: "conns_m r'' = conns_m r' @ ds" using assms(2) by (auto simp: call_extends_def)
  have same: "op_call r1 x = op_call r2 x" if "conns_m r1 = conns_m r2" for r1 r2 x
    using that by (cases x) simp_all
  have eq: "op_call r'' x = op_call r' x" if "x \<in> set xs" for x
    using that x(2) d same [of r'' "r'\<lparr>conns_m := conns_m r' @ ds\<rparr>" x] by simp
  have ext: "op_call (r''\<lparr>conns_m := conns_m r'' @ cs\<rparr>) x = op_call r'' x" if "x \<in> set xs" for x cs
    using that x(2) d eq same [of "r''\<lparr>conns_m := conns_m r'' @ cs\<rparr>" "r'\<lparr>conns_m := conns_m r' @ (ds @ cs)\<rparr>" x]
    by simp
  have "List.map_filter (op_call r'') xs = List.map_filter (op_call r') xs"
    using eq by (simp add: List.map_filter_def cong: filter_cong)
  moreover have "call_extends r r''"
    using x y c d ext by (auto simp: call_extends_def)
  ultimately show ?thesis
    using x y by (simp add: calls_def List.map_filter_def)
qed

text \<open>The connection handlers keep the map consistent.\<close>

lemma rpc_inv_handlers:
  assumes "rpc_inv r"
  shows "rpc_inv (RPC_remove ep r)"
    and "rpc_inv (accept_handler err rem loc r)"
    and "c < length (conns_m r) \<Longrightarrow> remote_peer_m (conns_m r ! c) = server \<Longrightarrow>
         rpc_inv (connect_handler err local_peer c server msg r)"
proof -
  show "rpc_inv (RPC_remove ep r)"
    using assms by (auto simp: rpc_inv_def RPC_remove_def AList.delete_conv' split: if_splits)
  show "rpc_inv (accept_handler err rem loc r)"
    using assms
    by (auto simp: rpc_inv_def accept_handler_def startAccept_def start_op_def new_connection_def
        connection_start_def read_header_def RPC_insert_def nth_append Let_def less_Suc_eq)
  show "rpc_inv (connect_handler err local_peer c server msg r)"
    if "c < length (conns_m r)" "remote_peer_m (conns_m r ! c) = server"
    using assms that
    by (auto simp: rpc_inv_def connect_handler_def read_header_def start_op_def deliver_def RPC_insert_def
        nth_list_update Let_def)
qed

text \<open>The completion handlers as steps of the network object.\<close>

inductive net_step :: "RPC \<Rightarrow> RPC \<Rightarrow> bool" where
  net_accept: "Async_accept \<in> set (io_m r) \<Longrightarrow> net_step r (accept_handler err remote_peer local_peer r)"
| net_connect: "Async_connect c ep msg \<in> set (io_m r) \<Longrightarrow> c < length (conns_m r) \<Longrightarrow>
    net_step r (connect_handler err local_peer c (remote_peer_m (conns_m r ! c)) msg r)"
| net_deliver: "Async_write c msg \<in> set (io_m r) \<Longrightarrow> net_step r (deliver_handler err c r)"
| net_header: "Async_read_header c \<in> set (io_m r) \<Longrightarrow> net_step r (read_body err header c r)"

lemma rpc_inv_start [simp]: "rpc_inv (start_op x r) = rpc_inv r"
  by (simp add: rpc_inv_def start_op_def)

lemma net_step_inv:
  assumes "net_step r r'" "rpc_inv r"
  shows "rpc_inv r'"
  using assms(1)
proof cases
  case (net_accept err remote_peer local_peer)
  then show ?thesis using rpc_inv_handlers(2) [OF assms(2)] by simp
next
  case (net_connect c ep msg err local_peer)
  then show ?thesis using rpc_inv_handlers(3) [OF assms(2)] by simp
next
  case (net_deliver c msg err)
  then show ?thesis using assms(2) rpc_inv_handlers(1) [OF assms(2)] by (simp add: deliver_handler_def)
next
  case (net_header c err header)
  then show ?thesis using assms(2) rpc_inv_handlers(1) [OF assms(2)]
    by (simp add: read_body_def read_header_def)
qed

end
