(* ===== verification/Raft_ThreadPool.thy ===== *)
theory Raft_ThreadPool
  imports Raft_Prelude
begin

text \<open>
  \<^verbatim>\<open>src/state_machine/ThreadPool.h\<close>: a task queue served by worker threads. A task is a value of the
  type parameter (what its closure captured); a worker is waiting at the condition variable,
  running a task, or has returned. \<open>pool_step\<close> is the interleaving of the worker threads with the
  thread that enqueues: every step is one critical section of \<open>queue_mutex\<close> or the end of one
  task.
\<close>

datatype 'a worker = Waiting | Running 'a | Exited

record 'a ThreadPool =
  workers_m :: "'a worker list"
  tasks_m :: "'a list"
  stop_m :: bool

definition ThreadPool_ctor :: "nat \<Rightarrow> 'a ThreadPool" where
  "ThreadPool_ctor threads = \<lparr>workers_m = replicate threads Waiting, tasks_m = [], stop_m = False\<rparr>"

definition enqueue :: "'a \<Rightarrow> 'a ThreadPool \<Rightarrow> 'a ThreadPool outcome" where
  "enqueue f p = (if stop_m p then Throw Pool_stopped p else Ok (p\<lparr>tasks_m := tasks_m p @ [f]\<rparr>))"

text \<open>The part of the worker's loop under the lock: blocked unless \<open>stop\<close> is set or there is a task.\<close>

definition worker_take :: "nat \<Rightarrow> 'a ThreadPool \<Rightarrow> 'a ThreadPool option" where
  "worker_take k p =
     (if k < length (workers_m p) \<and> workers_m p ! k = Waiting \<and> (stop_m p \<or> tasks_m p \<noteq> []) then
        Some (case tasks_m p of
            [] \<Rightarrow> p\<lparr>workers_m := (workers_m p)[k := Exited]\<rparr>
          | t # ts \<Rightarrow> p\<lparr>workers_m := (workers_m p)[k := Running t], tasks_m := ts\<rparr>)
      else None)"

text \<open>\<open>task()\<close> returns and the worker goes round the loop.\<close>

definition worker_finish :: "nat \<Rightarrow> 'a ThreadPool \<Rightarrow> ('a \<times> 'a ThreadPool) option" where
  "worker_finish k p =
     (if k < length (workers_m p) then
        (case workers_m p ! k of
           Running t \<Rightarrow> Some (t, p\<lparr>workers_m := (workers_m p)[k := Waiting]\<rparr>)
         | _ \<Rightarrow> None)
      else None)"

text \<open>The destructor sets \<open>stop\<close> and joins: it returns once every worker has.\<close>

definition ThreadPool_stop :: "'a ThreadPool \<Rightarrow> 'a ThreadPool" where
  "ThreadPool_stop p = p\<lparr>stop_m := True\<rparr>"

definition joined :: "'a ThreadPool \<Rightarrow> bool" where
  "joined p = list_all (\<lambda>w. case w of Exited \<Rightarrow> True | _ \<Rightarrow> False) (workers_m p)"

datatype 'a pool_event = Enqueue 'a | Take nat | Finish nat 'a | Stop

inductive pool_step :: "'a ThreadPool \<Rightarrow> 'a pool_event \<Rightarrow> 'a ThreadPool \<Rightarrow> bool" where
  step_enqueue: "enqueue f p = Ok p' \<Longrightarrow> pool_step p (Enqueue f) p'"
| step_take: "worker_take k p = Some p' \<Longrightarrow> pool_step p (Take k) p'"
| step_finish: "worker_finish k p = Some (t, p') \<Longrightarrow> pool_step p (Finish k t) p'"
| step_stop: "pool_step p Stop (ThreadPool_stop p)"

inductive_cases pool_step_EnqueueE: "pool_step p (Enqueue f) p'"
inductive_cases pool_step_TakeE: "pool_step p (Take k) p'"
inductive_cases pool_step_FinishE: "pool_step p (Finish k t) p'"
inductive_cases pool_step_StopE: "pool_step p Stop p'"

lemmas pool_step_elims = pool_step_EnqueueE pool_step_TakeE pool_step_FinishE pool_step_StopE

inductive pool_run :: "'a ThreadPool \<Rightarrow> 'a pool_event list \<Rightarrow> 'a ThreadPool \<Rightarrow> bool" where
  run_nil: "pool_run p [] p"
| run_snoc: "pool_run p es q \<Longrightarrow> pool_step q e r \<Longrightarrow> pool_run p (es @ [e]) r"

fun enqueued :: "'a pool_event list \<Rightarrow> 'a list" where
  "enqueued [] = []"
| "enqueued (Enqueue f # es) = f # enqueued es"
| "enqueued (_ # es) = enqueued es"

fun finished :: "'a pool_event list \<Rightarrow> 'a list" where
  "finished [] = []"
| "finished (Finish k t # es) = t # finished es"
| "finished (_ # es) = finished es"

definition running :: "'a ThreadPool \<Rightarrow> 'a list" where
  "running p = concat (map (\<lambda>w. case w of Running t \<Rightarrow> [t] | _ \<Rightarrow> []) (workers_m p))"

lemma running_tasks [simp]: "running (p\<lparr>tasks_m := ts\<rparr>) = running p"
  by (simp add: running_def)

lemma enqueued_append [simp]: "enqueued (es @ fs) = enqueued es @ enqueued fs"
  by (induction es rule: enqueued.induct) simp_all

lemma finished_append [simp]: "finished (es @ fs) = finished es @ finished fs"
  by (induction es rule: finished.induct) simp_all

text \<open>With one worker, tasks finish in the order they were enqueued: what has finished, what runs
  and what waits, put together, is what was enqueued.\<close>

lemma one_worker_fifo:
  assumes "pool_run p es q" and "p = ThreadPool_ctor 1"
  shows "length (workers_m q) = 1 \<and> enqueued es = finished es @ running q @ tasks_m q"
  using assms
proof (induction rule: pool_run.induct)
  case (run_nil p)
  then show ?case by (simp add: ThreadPool_ctor_def running_def)
next
  case (run_snoc p es q e r)
  then have IH: "length (workers_m q) = 1" "enqueued es = finished es @ running q @ tasks_m q" by auto
  then obtain w where w: "workers_m q = [w]" by (metis One_nat_def length_0_conv length_Suc_conv)
  from run_snoc.hyps(2) show ?case
  proof cases
    case (step_enqueue f)
    then show ?thesis using IH by (auto simp: enqueue_def running_def split: if_splits)
  next
    case (step_take k)
    then show ?thesis using IH w
      by (auto simp: worker_take_def running_def split: if_splits list.splits)
  next
    case (step_finish k t)
    then show ?thesis using IH w
      by (auto simp: worker_finish_def running_def split: if_splits worker.splits)
  next
    case step_stop
    then show ?thesis using IH by (simp add: ThreadPool_stop_def running_def)
  qed
qed

text \<open>No worker returns while a task is queued, so when the destructor's joins return every task
  that was enqueued has finished (any number of workers).\<close>

lemma pool_conserves:
  assumes "pool_run p es q" and "p = ThreadPool_ctor n"
  shows "mset (enqueued es) = mset (finished es) + mset (running q) + mset (tasks_m q)
    \<and> length (workers_m q) = n"
  using assms
proof (induction rule: pool_run.induct)
  case (run_nil p)
  have "running (ThreadPool_ctor n) = []"
    by (simp add: running_def ThreadPool_ctor_def)
  with run_nil show ?case by (simp add: ThreadPool_ctor_def)
next
  case (run_snoc p es q e r)
  then have IH: "mset (enqueued es) = mset (finished es) + mset (running q) + mset (tasks_m q)"
    "length (workers_m q) = n" by auto
  let ?g = "\<lambda>w. case w of Running t \<Rightarrow> [t] | _ \<Rightarrow> []"
  from run_snoc.hyps(2) show ?case
  proof cases
    case (step_enqueue f)
    then show ?thesis using IH by (auto simp: enqueue_def running_def split: if_splits)
  next
    case (step_take k)
    then have k: "k < length (workers_m q)" "workers_m q ! k = Waiting"
      by (auto simp: worker_take_def split: if_splits)
    show ?thesis
    proof (cases "tasks_m q")
      case Nil
      then show ?thesis
        using step_take IH k mset_concat_update [OF k(1), of ?g Exited]
        by (auto simp: worker_take_def running_def split: if_splits)
    next
      case (Cons t ts)
      then show ?thesis
        using step_take IH k mset_concat_update [OF k(1), of ?g "Running t"]
        by (auto simp: worker_take_def running_def)
    qed
  next
    case (step_finish k t)
    then have k: "k < length (workers_m q)" "workers_m q ! k = Running t"
      and r: "r = q\<lparr>workers_m := (workers_m q)[k := Waiting]\<rparr>"
      by (auto simp: worker_finish_def split: if_splits worker.splits)
    show ?thesis
      using IH k step_finish(1) mset_concat_update [OF k(1), of ?g Waiting] by (simp add: r running_def)
  next
    case step_stop
    then show ?thesis using IH by (simp add: ThreadPool_stop_def running_def)
  qed
qed

text \<open>Once a worker has exited, nothing is queued and \<open>stop\<close> is set, for good.\<close>

lemma exited_means_drained:
  assumes "pool_run p es q" and "p = ThreadPool_ctor n"
  shows "Exited \<in> set (workers_m q) \<longrightarrow> stop_m q \<and> tasks_m q = []"
  using assms
proof (induction rule: pool_run.induct)
  case (run_nil p)
  then show ?case by (simp add: ThreadPool_ctor_def)
next
  case (run_snoc p es q e r)
  then have IH: "Exited \<in> set (workers_m q) \<longrightarrow> stop_m q \<and> tasks_m q = []" by simp
  from run_snoc.hyps(2) show ?case
  proof cases
    case (step_enqueue f)
    then show ?thesis using IH by (auto simp: enqueue_def split: if_splits)
  next
    case (step_take k)
    then show ?thesis using IH
      by (auto simp: worker_take_def split: if_splits list.splits dest!: subsetD [OF set_update_subset_insert])
  next
    case (step_finish k t)
    then show ?thesis using IH
      by (auto simp: worker_finish_def split: if_splits worker.splits dest!: subsetD [OF set_update_subset_insert])
  next
    case step_stop
    then show ?thesis using IH by (simp add: ThreadPool_stop_def)
  qed
qed

lemma joined_all_finished:
  assumes "pool_run (ThreadPool_ctor n) es q" "0 < n" "joined q"
  shows "mset (enqueued es) = mset (finished es)"
proof -
  have c: "mset (enqueued es) = mset (finished es) + mset (running q) + mset (tasks_m q)" "length (workers_m q) = n"
    using pool_conserves [OF assms(1) refl] by auto
  have "w = Exited" if "w \<in> set (workers_m q)" for w
    using assms(3) that by (cases w) (auto simp: joined_def list_all_iff)
  then have ex: "\<forall>w \<in> set (workers_m q). w = Exited" by blast
  then have "running q = []" by (auto simp: running_def)
  moreover have "Exited \<in> set (workers_m q)" using ex c(2) assms(2) by (cases "workers_m q") auto
  then have "tasks_m q = []" using exited_means_drained [OF assms(1) refl] by simp
  ultimately show ?thesis using c by simp
qed

section \<open>The joins of the destructor return\<close>

text \<open>The worker steps still to come: one to take and one to finish a task, one for a worker to return.
  Every worker step uses up exactly one of them, so they end; and once \<open>stop\<close> is set some worker can
  step until all have returned.\<close>

definition weight :: "'a worker \<Rightarrow> nat" where
  "weight w = (case w of Waiting \<Rightarrow> 1 | Running t \<Rightarrow> 2 | Exited \<Rightarrow> 0)"

lemma weight_simps [simp]: "weight Waiting = 1" "weight (Running t) = 2" "weight Exited = 0"
  by (simp_all add: weight_def)

definition workload :: "'a ThreadPool \<Rightarrow> nat" where
  "workload p = 2 * length (tasks_m p) + sum_list (map weight (workers_m p))"

fun worker_event :: "'a pool_event \<Rightarrow> bool" where
  "worker_event (Take k) = True"
| "worker_event (Finish k t) = True"
| "worker_event _ = False"

fun enqueue_event :: "'a pool_event \<Rightarrow> bool" where
  "enqueue_event (Enqueue f) = True"
| "enqueue_event _ = False"

lemma weight_update:
  assumes "k < length ws" "ws ! k = w"
  shows "sum_list (map weight (ws[k := v])) + weight w = sum_list (map weight ws) + weight v"
proof -
  have "weight w \<le> sum_list (map weight ws)"
    using assms by (intro member_le_sum_list) (auto intro: nth_mem)
  moreover have "sum_list (map weight (ws[k := v])) = sum_list (map weight ws) + weight v - weight w"
    using assms by (simp add: map_update sum_list_update)
  ultimately show ?thesis by simp
qed

lemma worker_step_workload:
  assumes "pool_step p e q" "worker_event e"
  shows "workload p = Suc (workload q) \<and> stop_m q = stop_m p"
  using assms(1)
proof cases
  case (step_take k)
  then have k: "k < length (workers_m p)" "workers_m p ! k = Waiting"
    by (auto simp: worker_take_def split: if_splits)
  show ?thesis
    using step_take weight_update [OF k, of Exited] weight_update [OF k, of "Running (hd (tasks_m p))"]
    by (auto simp: worker_take_def workload_def split: if_splits list.splits)
next
  case (step_finish k t)
  then have k: "k < length (workers_m p)" "workers_m p ! k = Running t"
    and q: "q = p\<lparr>workers_m := (workers_m p)[k := Waiting]\<rparr>"
    by (auto simp: worker_finish_def split: if_splits worker.splits)
  show ?thesis using weight_update [OF k, of Waiting] by (simp add: q workload_def)
qed (use assms(2) in simp_all)

lemma run_workload:
  assumes "pool_run p es q" "\<forall>e \<in> set es. \<not> enqueue_event e"
  shows "workload p = length (filter worker_event es) + workload q \<and> (stop_m p \<longrightarrow> stop_m q)"
  using assms
proof (induction rule: pool_run.induct)
  case (run_snoc p es q e r)
  then have IH: "workload p = length (filter worker_event es) + workload q" "stop_m p \<longrightarrow> stop_m q" by auto
  show ?case
  proof (cases "worker_event e")
    case True
    from worker_step_workload [OF run_snoc.hyps(2) this] IH True show ?thesis by simp
  next
    case False
    then have "e = Stop" using run_snoc.prems by (cases e) simp_all
    with run_snoc.hyps(2) have "r = ThreadPool_stop q" by (auto elim: pool_step_elims)
    then show ?thesis using IH False by (simp add: workload_def ThreadPool_stop_def)
  qed
qed simp

lemma stopped_progress:
  assumes "stop_m p" "\<not> joined p"
  shows "\<exists>e q. worker_event e \<and> pool_step p e q"
proof -
  obtain k where k: "k < length (workers_m p)" "workers_m p ! k \<noteq> Exited"
    using assms(2) by (auto simp: joined_def list_all_iff in_set_conv_nth split: worker.splits)
  show ?thesis
  proof (cases "workers_m p ! k")
    case Waiting
    then obtain q where "worker_take k p = Some q" using k assms(1) by (simp add: worker_take_def)
    then have "pool_step p (Take k) q" by (rule step_take)
    then show ?thesis by (intro exI [of _ "Take k"]) auto
  next
    case (Running t)
    then obtain q where "worker_finish k p = Some (t, q)" using k by (simp add: worker_finish_def)
    then have "pool_step p (Finish k t) q" by (rule step_finish)
    then show ?thesis by (intro exI [of _ "Finish k t"]) auto
  qed (use k in simp)
qed

end
