(* ===== verification/Raft_StateMachine.thy ===== *)
theory Raft_StateMachine
  imports Raft_Messages
begin

text \<open>
  \<^verbatim>\<open>src/state_machine/StateMachine.h\<close> and \<^verbatim>\<open>src/state_machine/EasyStateMachine.cpp\<close>: the state
  machine interface (the locale \<open>state_machine\<close>) and the map from strings to integers that
  implements it.
\<close>

section \<open>\<open>EasyStateMachine\<close>\<close>

type_synonym mock_state_machine = "(string, int) smap"

text \<open>\<open>operator[]\<close> inserts a missing key with value 0, and does not throw; the \<open>catch\<close> branches of
  both functions are only reachable when memory runs out.\<close>

definition EasyStateMachine_get :: "pb \<Rightarrow> string \<Rightarrow> mock_state_machine \<Rightarrow> string \<times> mock_state_machine" where
  "EasyStateMachine_get P encoded_get_str m =
     (let key = qc_key (parse_query_call P encoded_get_str);
          v = at0 m key;
          resp = \<lparr>rq_ok = True, rq_v = v\<rparr>
      in (ser_resp_query P resp, touch key m))"

definition EasyStateMachine_apply :: "pb \<Rightarrow> string \<Rightarrow> mock_state_machine \<Rightarrow> string \<times> mock_state_machine" where
  "EasyStateMachine_apply P encoded_apply_str m =
     (let call = parse_apply_call P encoded_apply_str;
          key = ac_key call; v = ac_v call;
          resp = \<lparr>ra_ok = True\<rparr>
      in (ser_resp_apply P resp, put key v m))"

definition build_apply_str :: "pb \<Rightarrow> string \<Rightarrow> int \<Rightarrow> string" where
  "build_apply_str P key v = ser_apply_call P \<lparr>ac_key = key, ac_v = v\<rparr>"

definition build_query_str :: "pb \<Rightarrow> string \<Rightarrow> string" where
  "build_query_str P key = ser_query_call P \<lparr>qc_key = key\<rparr>"

text \<open>The client's reactions print what \<open>rpc_to_str\<close> makes of the response.\<close>

definition esm_react_to_resp_query :: "pb \<Rightarrow> string \<Rightarrow> string res" where
  "esm_react_to_resp_query P resp =
     map_sum id (\<lambda>s. ''client received resp_query: '' @ s @ nl) (rpc_to_str P (Some RESP_CLIENT_QUERY) resp)"

definition esm_react_to_resp_apply :: "pb \<Rightarrow> string \<Rightarrow> string res" where
  "esm_react_to_resp_apply P resp =
     map_sum id (\<lambda>s. ''client received resp_apply: '' @ s @ nl) (rpc_to_str P (Some RESP_CLIENT_APPLY) resp)"

section \<open>The state machine interface\<close>

text \<open>
  What the replication of a state machine relies on: results and the next state depend only on
  the observable state (\<open>view\<close>), and queries do not change it.
\<close>

locale state_machine =
  fixes sm_apply :: "string \<Rightarrow> 'm \<Rightarrow> string \<times> 'm"
    and sm_get :: "string \<Rightarrow> 'm \<Rightarrow> string \<times> 'm"
    and view :: "'m \<Rightarrow> 'v"
  assumes get_keeps: "view (snd (sm_get q m)) = view m"
    and get_det: "view m = view m' \<Longrightarrow> fst (sm_get q m) = fst (sm_get q m')"
    and apply_det: "view m = view m' \<Longrightarrow> fst (sm_apply c m) = fst (sm_apply c m')"
    and apply_view: "view m = view m' \<Longrightarrow> view (snd (sm_apply c m)) = view (snd (sm_apply c m'))"
begin

text \<open>An execution is a sequence of commands (\<open>Inl\<close>) and queries (\<open>Inr\<close>).\<close>

fun exec :: "(string + string) list \<Rightarrow> 'm \<Rightarrow> 'm" where
  "exec [] m = m"
| "exec (Inl c # xs) m = exec xs (snd (sm_apply c m))"
| "exec (Inr q # xs) m = exec xs (snd (sm_get q m))"

fun commands :: "(string + string) list \<Rightarrow> string list" where
  "commands [] = []"
| "commands (Inl c # xs) = c # commands xs"
| "commands (Inr q # xs) = commands xs"

lemma exec_view: "view m = view m' \<Longrightarrow> view (exec xs m) = view (fold (\<lambda>c m. snd (sm_apply c m)) (commands xs) m')"
proof (induction xs arbitrary: m m' rule: commands.induct)
  case (2 c xs)
  from apply_view [OF "2.prems", of c] show ?case using "2.IH" by simp
next
  case (3 q xs)
  then show ?case by (simp add: get_keeps)
qed simp

text \<open>Replicas that apply the same commands in the same order agree, whatever queries they serve
  in between.\<close>

lemma replicas_agree:
  assumes "commands xs = commands ys"
  shows "view (exec xs m) = view (exec ys m)"
  using exec_view [of m m xs] exec_view [of m m ys] assms by simp

end

interpretation esm: state_machine "EasyStateMachine_apply P" "EasyStateMachine_get P" at0 for P
  by unfold_locales
    (auto simp: EasyStateMachine_apply_def EasyStateMachine_get_def Let_def fun_eq_iff)

lemma get_after_apply:
  assumes "pb_law P"
  shows "parse_resp_query P (fst (EasyStateMachine_get P (build_query_str P k)
           (snd (EasyStateMachine_apply P (build_apply_str P k' v) m)))) =
         \<lparr>rq_ok = True, rq_v = (if k = k' then v else at0 m k)\<rparr>"
  using assms
  by (simp add: EasyStateMachine_apply_def EasyStateMachine_get_def build_apply_str_def build_query_str_def Let_def)

end
