(* ===== verification/Raft_SMC.thy ===== *)
theory Raft_SMC
  imports Raft_Entries Raft_ThreadPool Raft_StateMachine
begin

text \<open>
  \<^verbatim>\<open>src/state_machine/StateMachineControler.cpp\<close>: committed entries are handed, in log order and
  each once, to a single-threaded write pool; queries go to a read pool. A closure enqueued by
  the code is a \<open>task\<close>; the calls it posts back to the io thread are collected in \<open>posted_m\<close>.
\<close>

section \<open>Model\<close>

datatype task = Apply_task string int | Query_task string endpoint

datatype post = Write_resp_apply int string | Write_resp_query endpoint string

record SMC =
  applied_index_m :: int
  smc_commit_index_m :: int
  write_pool_m :: "task ThreadPool"
  read_pool_m :: "task ThreadPool"
  state_machine_m :: mock_state_machine
  posted_m :: "post list"

definition SMC_ctor :: "mock_state_machine \<Rightarrow> nat \<Rightarrow> nat \<Rightarrow> SMC res" where
  "SMC_ctor sm read_thread_num write_thread_num =
     (if write_thread_num \<noteq> 1 then Inl Write_threads_not_1
      else Inr \<lparr>applied_index_m = -1, smc_commit_index_m = -1,
                write_pool_m = ThreadPool_ctor write_thread_num,
                read_pool_m = ThreadPool_ctor read_thread_num,
                state_machine_m = sm, posted_m = []\<rparr>)"

definition smc_apply_to_state_machine :: "int \<Rightarrow> Entries \<Rightarrow> SMC \<Rightarrow> SMC outcome" where
  "smc_apply_to_state_machine index_to_apply es c =
     with_res (Entries_get es index_to_apply) c (\<lambda>entry.
       seq (map_outcome (\<lambda>p. c\<lparr>write_pool_m := p\<rparr>)
              (enqueue (Apply_task (en_msg entry) index_to_apply) (write_pool_m c)))
           (\<lambda>c. Ok (c\<lparr>applied_index_m := index_to_apply\<rparr>)))"

lemma smc_apply_progress:
  "smc_apply_to_state_machine i es c = Ok c' \<Longrightarrow>
   applied_index_m c' = i \<and> smc_commit_index_m c' = smc_commit_index_m c"
  by (auto simp: smc_apply_to_state_machine_def with_res_eq_Ok seq_eq_Ok map_outcome_eq_Ok)

text \<open>The \<open>while\<close> loop of \<open>update_commit_index_and_apply\<close>; every turn raises \<open>applied_index_\<close> by one
  or throws.\<close>

function apply_loop :: "Entries \<Rightarrow> SMC \<Rightarrow> SMC outcome" where
  "apply_loop es c =
     (if applied_index_m c < smc_commit_index_m c then
        (case smc_apply_to_state_machine (applied_index_m c + 1) es c of
           Ok c' \<Rightarrow> apply_loop es c'
         | Throw e c' \<Rightarrow> Throw e c')
      else Ok c)"
  by pat_completeness auto
termination
  by (relation "measure (\<lambda>(es, c). nat (smc_commit_index_m c - applied_index_m c))")
    (auto dest!: smc_apply_progress)

declare apply_loop.simps [simp del]

definition update_commit_index_and_apply :: "int \<Rightarrow> Entries \<Rightarrow> SMC \<Rightarrow> SMC outcome" where
  "update_commit_index_and_apply new_index es c = apply_loop es (c\<lparr>smc_commit_index_m := new_index\<rparr>)"

definition smc_get_from_state_machine :: "string \<Rightarrow> endpoint \<Rightarrow> SMC \<Rightarrow> SMC outcome" where
  "smc_get_from_state_machine encoded_query_str client_addr c =
     map_outcome (\<lambda>p. c\<lparr>read_pool_m := p\<rparr>) (enqueue (Query_task encoded_query_str client_addr) (read_pool_m c))"

text \<open>What a worker thread does with a task: the two lambdas of the source.\<close>

primrec run_task :: "pb \<Rightarrow> task \<Rightarrow> SMC \<Rightarrow> SMC" where
  "run_task P (Apply_task encoded_apply_str index_to_apply) c =
     (let (res_str, m) = EasyStateMachine_apply P encoded_apply_str (state_machine_m c) in
      c\<lparr>state_machine_m := m, posted_m := posted_m c @ [Write_resp_apply index_to_apply res_str]\<rparr>)"
| "run_task P (Query_task encoded_query_str client_addr) c =
     (let (res_str, m) = EasyStateMachine_get P encoded_query_str (state_machine_m c) in
      c\<lparr>state_machine_m := m, posted_m := posted_m c @ [Write_resp_query client_addr res_str]\<rparr>)"

text \<open>The steps of the controller's threads.\<close>

inductive smc_thread_step :: "pb \<Rightarrow> SMC \<Rightarrow> SMC \<Rightarrow> bool" for P where
  write_take: "worker_take k (write_pool_m c) = Some p \<Longrightarrow> smc_thread_step P c (c\<lparr>write_pool_m := p\<rparr>)"
| write_finish: "worker_finish k (write_pool_m c) = Some (t, p) \<Longrightarrow>
     smc_thread_step P c (run_task P t (c\<lparr>write_pool_m := p\<rparr>))"
| read_take: "worker_take k (read_pool_m c) = Some p \<Longrightarrow> smc_thread_step P c (c\<lparr>read_pool_m := p\<rparr>)"
| read_finish: "worker_finish k (read_pool_m c) = Some (t, p) \<Longrightarrow>
     smc_thread_step P c (run_task P t (c\<lparr>read_pool_m := p\<rparr>))"

section \<open>Applying the committed prefix\<close>

lemma apply_loop_keeps:
  "okp (\<lambda>c'. applied_index_m c \<le> applied_index_m c' \<and> stop_m (write_pool_m c') = stop_m (write_pool_m c))
     (apply_loop es c)"
proof (induction es c rule: apply_loop.induct)
  case (1 es c)
  show ?case
  proof (cases "applied_index_m c < smc_commit_index_m c")
    case True
    show ?thesis
    proof (cases "smc_apply_to_state_machine (applied_index_m c + 1) es c")
      case (Ok c')
      have "stop_m (write_pool_m c') = stop_m (write_pool_m c)" "applied_index_m c' = applied_index_m c + 1"
        using Ok by (auto simp: smc_apply_to_state_machine_def with_res_eq_Ok seq_eq_Ok map_outcome_eq_Ok enqueue_def split: if_splits)
      with "1.IH" [OF True Ok] True Ok show ?thesis
        by (subst apply_loop.simps) (auto elim: okp_mono)
    next
      case (Throw e c')
      with True show ?thesis by (subst apply_loop.simps) simp
    qed
  next
    case False
    then show ?thesis by (subst apply_loop.simps) simp
  qed
qed

text \<open>The tasks for the log positions from \<open>i\<close> up to and including \<open>j\<close>.\<close>

definition apply_tasks :: "rpc_Entry list \<Rightarrow> int \<Rightarrow> int \<Rightarrow> task list" where
  "apply_tasks log i j = map (\<lambda>k. Apply_task (en_msg (log ! nat k)) k) [i..j]"

lemma smc_apply_one:
  assumes "entries_inv es" "0 \<le> i" "i < Entries_size es" "\<not> stop_m (write_pool_m c)"
  shows "smc_apply_to_state_machine i es c =
    Ok (c\<lparr>write_pool_m := (write_pool_m c)\<lparr>tasks_m := tasks_m (write_pool_m c) @ [Apply_task (en_msg (log_of es ! nat i)) i]\<rparr>,
          applied_index_m := i\<rparr>)"
  using assms by (simp add: smc_apply_to_state_machine_def entries.get_log enqueue_def)

lemma apply_loop_eq:
  assumes "entries_inv es" "-1 \<le> applied_index_m c" "smc_commit_index_m c < Entries_size es"
    "\<not> stop_m (write_pool_m c)"
  shows "apply_loop es c =
    Ok (c\<lparr>applied_index_m := max (applied_index_m c) (smc_commit_index_m c),
          write_pool_m := (write_pool_m c)\<lparr>tasks_m := tasks_m (write_pool_m c) @
            apply_tasks (log_of es) (applied_index_m c + 1) (smc_commit_index_m c)\<rparr>\<rparr>)"
  using assms
proof (induction es c rule: apply_loop.induct)
  case (1 es c)
  let ?i = "applied_index_m c + 1"
  show ?case
  proof (cases "applied_index_m c < smc_commit_index_m c")
    case False
    then show ?thesis by (subst apply_loop.simps) (simp add: apply_tasks_def)
  next
    case True
    have one: "smc_apply_to_state_machine ?i es c =
      Ok (c\<lparr>write_pool_m := (write_pool_m c)\<lparr>tasks_m := tasks_m (write_pool_m c) @ [Apply_task (en_msg (log_of es ! nat ?i)) ?i]\<rparr>,
          applied_index_m := ?i\<rparr>)" (is "_ = Ok ?c'")
      using True "1.prems" by (intro smc_apply_one) simp_all
    have "apply_loop es c = apply_loop es ?c'"
      using True by (subst apply_loop.simps) (simp add: one)
    also have "\<dots> = Ok (?c'\<lparr>applied_index_m := max ?i (smc_commit_index_m c),
          write_pool_m := (write_pool_m ?c')\<lparr>tasks_m := tasks_m (write_pool_m ?c') @
            apply_tasks (log_of es) (?i + 1) (smc_commit_index_m c)\<rparr>\<rparr>)"
      using "1.IH" [OF True one] "1.prems" True by simp
    finally show ?thesis
      using True by (simp add: apply_tasks_def upto.simps [of ?i] max_def)
  qed
qed

lemma update_commit_index_and_apply_eq:
  assumes "entries_inv es" "-1 \<le> applied_index_m c" "n < Entries_size es" "\<not> stop_m (write_pool_m c)"
  shows "update_commit_index_and_apply n es c =
    Ok (c\<lparr>smc_commit_index_m := n, applied_index_m := max (applied_index_m c) n,
          write_pool_m := (write_pool_m c)\<lparr>tasks_m := tasks_m (write_pool_m c) @
            apply_tasks (log_of es) (applied_index_m c + 1) n\<rparr>\<rparr>)"
  using assms by (simp add: update_commit_index_and_apply_def apply_loop_eq)

text \<open>A commit index past the end of the log is refused by \<open>Entries::get\<close> at the first missing
  entry, after the entries before it have been handed over.\<close>

lemma apply_loop_past_end:
  assumes "entries_inv es" "-1 \<le> applied_index_m c" "applied_index_m c < Entries_size es"
    "Entries_size es \<le> smc_commit_index_m c" "\<not> stop_m (write_pool_m c)"
  shows "\<exists>c'. apply_loop es c = Throw Entries_get_range c' \<and> applied_index_m c' = Entries_size es - 1"
  using assms
proof (induction es c rule: apply_loop.induct)
  case (1 es c)
  let ?i = "applied_index_m c + 1"
  have lt: "applied_index_m c < smc_commit_index_m c" using "1.prems" by simp
  show ?case
  proof (cases "?i < Entries_size es")
    case False
    then have "Entries_get es ?i = Inl Entries_get_range" using "1.prems" by (simp add: entries.get_range)
    with lt False "1.prems" show ?thesis
      by (subst apply_loop.simps) (simp add: smc_apply_to_state_machine_def)
  next
    case True
    from smc_apply_one [OF "1.prems"(1) _ True "1.prems"(5)] "1.prems"(2)
    obtain c' where one: "smc_apply_to_state_machine ?i es c = Ok c'" and
      c': "applied_index_m c' = ?i" "smc_commit_index_m c' = smc_commit_index_m c" "\<not> stop_m (write_pool_m c')"
      using "1.prems"(5) by simp
    show ?thesis
      using "1.IH" [OF lt one] "1.prems" c' True lt by (subst apply_loop.simps) (simp add: one)
  qed
qed

section \<open>The state machine sees the log in order\<close>

text \<open>
  \<open>smc_inv P fin c\<close>: the write pool has one worker; \<open>fin\<close> are the commands executed so far. They,
  the running command and the queued ones are for the log positions 0, 1, \<dots>, \<open>applied_index_\<close>,
  and the observable state of the state machine is the result of \<open>fin\<close>.
\<close>

definition tasks_of :: "SMC \<Rightarrow> task list" where
  "tasks_of c = running (write_pool_m c) @ tasks_m (write_pool_m c)"

fun task_index :: "task \<Rightarrow> int" where
  "task_index (Apply_task s i) = i"
| "task_index (Query_task s a) = -1"

fun task_str :: "task \<Rightarrow> string" where
  "task_str (Apply_task s i) = s"
| "task_str (Query_task s a) = s"

definition is_query :: "task \<Rightarrow> bool" where
  "is_query t = (case t of Query_task s a \<Rightarrow> True | Apply_task s i \<Rightarrow> False)"

definition smc_inv :: "pb \<Rightarrow> mock_state_machine \<Rightarrow> task list \<Rightarrow> SMC \<Rightarrow> bool" where
  "smc_inv P m0 fin c \<longleftrightarrow>
     -1 \<le> applied_index_m c \<and>
     length (workers_m (write_pool_m c)) = 1 \<and> \<not> stop_m (write_pool_m c) \<and>
     Exited \<notin> set (workers_m (write_pool_m c)) \<and>
     map task_index (fin @ tasks_of c) = [0..applied_index_m c] \<and>
     (\<forall>t \<in> set (fin @ tasks_of c). \<not> is_query t) \<and>
     (\<forall>t \<in> set (running (read_pool_m c) @ tasks_m (read_pool_m c)). is_query t) \<and>
     at0 (state_machine_m c) =
       at0 (fold (\<lambda>s m. snd (EasyStateMachine_apply P s m)) (map task_str fin) m0)"

lemma one_worker: "length ws = 1 \<Longrightarrow> \<exists>w. ws = [w]"
  by (cases ws) simp_all

lemma smc_inv_commit:
  assumes "smc_inv P m0 fin c" "entries_inv es" "n < Entries_size es"
    and "update_commit_index_and_apply n es c = Ok c'"
  shows "smc_inv P m0 fin c'"
proof -
  have a: "-1 \<le> applied_index_m c" "\<not> stop_m (write_pool_m c)"
    using assms(1) by (simp_all add: smc_inv_def)
  let ?new = "apply_tasks (log_of es) (applied_index_m c + 1) n"
  have c': "c' = c\<lparr>smc_commit_index_m := n, applied_index_m := max (applied_index_m c) n,
      write_pool_m := (write_pool_m c)\<lparr>tasks_m := tasks_m (write_pool_m c) @ ?new\<rparr>\<rparr>"
    using update_commit_index_and_apply_eq [OF assms(2) a(1) assms(3) a(2)] assms(4) by simp
  have new: "[0..applied_index_m c] @ map task_index ?new = [0..max (applied_index_m c) n]"
  proof (cases "n \<le> applied_index_m c")
    case True
    then show ?thesis by (simp add: apply_tasks_def max_def)
  next
    case False
    then show ?thesis
      using a(1) upto_split1 [of 0 "applied_index_m c + 1" n] 
      by (simp add: apply_tasks_def comp_def max_def)
  qed
  have "\<forall>t \<in> set ?new. \<not> is_query t"
    by (auto simp: apply_tasks_def is_query_def)
  moreover have tk: "tasks_of c' = tasks_of c @ ?new"
    by (simp add: c' tasks_of_def)
  moreover have "map task_index (fin @ tasks_of c') = [0..max (applied_index_m c) n]"
  proof -
    have "map task_index (fin @ tasks_of c') = map task_index (fin @ tasks_of c) @ map task_index ?new"
      by (simp add: tk)
    also have "map task_index (fin @ tasks_of c) = [0..applied_index_m c]"
      using assms(1) by (simp add: smc_inv_def)
    finally show ?thesis using new by simp
  qed
  ultimately show ?thesis
    using assms(1) unfolding smc_inv_def by (auto simp: c')
qed

lemma smc_inv_write_take:
  assumes "smc_inv P m0 fin c" "worker_take k (write_pool_m c) = Some p"
  shows "smc_inv P m0 fin (c\<lparr>write_pool_m := p\<rparr>)"
proof -
  obtain w where w: "workers_m (write_pool_m c) = [w]"
    using assms(1) one_worker unfolding smc_inv_def by blast
  with assms show ?thesis
    by (auto simp: smc_inv_def tasks_of_def worker_take_def running_def split: if_splits list.splits)
qed

lemma smc_inv_write_finish:
  assumes "smc_inv P m0 fin c" "worker_finish k (write_pool_m c) = Some (t, p)"
  shows "smc_inv P m0 (fin @ [t]) (run_task P t (c\<lparr>write_pool_m := p\<rparr>))"
proof -
  obtain w where w: "workers_m (write_pool_m c) = [w]"
    using assms(1) one_worker unfolding smc_inv_def by blast
  then have wt: "w = Running t" and p: "p = (write_pool_m c)\<lparr>workers_m := [Waiting]\<rparr>"
    using assms(2) by (auto simp: worker_finish_def split: if_splits worker.splits)
  have run: "running (write_pool_m c) = [t]" "running p = []"
    by (simp_all add: running_def w wt p)
  obtain s i where t: "t = Apply_task s i"
    using assms(1) run by (cases t) (auto simp: smc_inv_def tasks_of_def is_query_def)
  have v: "at0 (state_machine_m c) =
      at0 (fold (\<lambda>s m. snd (EasyStateMachine_apply P s m)) (map task_str fin) m0)"
    using assms(1) by (simp add: smc_inv_def)
  from esm.apply_view [OF v, of P s] show ?thesis
    using assms(1) run w wt
    by (simp add: smc_inv_def tasks_of_def t p split_def Let_def)
qed

lemma smc_inv_read_take:
  assumes "smc_inv P m0 fin c" "worker_take k (read_pool_m c) = Some p"
  shows "smc_inv P m0 fin (c\<lparr>read_pool_m := p\<rparr>)"
proof -
  have "set (running p @ tasks_m p) \<subseteq> set (running (read_pool_m c) @ tasks_m (read_pool_m c))"
    using assms(2)
    by (auto simp: worker_take_def running_def split: if_splits list.splits worker.splits
        dest!: subsetD [OF set_update_subset_insert])
  with assms(1) show ?thesis by (auto simp: smc_inv_def tasks_of_def)
qed

lemma smc_inv_read_finish:
  assumes "smc_inv P m0 fin c" "worker_finish k (read_pool_m c) = Some (t, p)"
  shows "smc_inv P m0 fin (run_task P t (c\<lparr>read_pool_m := p\<rparr>))"
proof -
  have k: "k < length (workers_m (read_pool_m c))" "workers_m (read_pool_m c) ! k = Running t"
    and p: "p = (read_pool_m c)\<lparr>workers_m := (workers_m (read_pool_m c))[k := Waiting]\<rparr>"
    using assms(2) by (auto simp: worker_finish_def split: if_splits worker.splits)
  have mem: "Running t \<in> set (workers_m (read_pool_m c))" using k nth_mem by metis
  then have "t \<in> set (running (read_pool_m c))"
    by (force simp: running_def)
  then have "is_query t" using assms(1) by (simp add: smc_inv_def)
  then obtain s a where t: "t = Query_task s a" by (cases t) (simp_all add: is_query_def)
  have "set (running p @ tasks_m p) \<subseteq> set (running (read_pool_m c) @ tasks_m (read_pool_m c))"
    using p by (auto simp: running_def split: worker.splits dest!: subsetD [OF set_update_subset_insert])
  with assms(1) show ?thesis
    using esm.get_keeps [of P s "state_machine_m c"]
    by (auto simp: smc_inv_def tasks_of_def t split_def Let_def)
qed

text \<open>The io thread's other two accesses: a query handed to the read pool, a posted call taken.\<close>

lemma smc_inv_query:
  assumes "smc_inv P m0 fin c" "smc_get_from_state_machine q a c = Ok c'"
  shows "smc_inv P m0 fin c'"
  using assms
  by (auto simp: smc_get_from_state_machine_def map_outcome_eq_Ok enqueue_def smc_inv_def tasks_of_def
      is_query_def running_def split: if_splits)

lemma smc_inv_posted: "smc_inv P m0 fin (c\<lparr>posted_m := ps\<rparr>) = smc_inv P m0 fin c"
  by (simp add: smc_inv_def tasks_of_def)

lemma smc_inv_thread:
  assumes "smc_inv P m0 fin c" "smc_thread_step P c c'"
  shows "\<exists>fin'. smc_inv P m0 fin' c'"
  using assms(2)
proof cases
  case (write_take k p)
  then show ?thesis using smc_inv_write_take [OF assms(1)] by blast
next
  case (write_finish k t p)
  then show ?thesis using smc_inv_write_finish [OF assms(1)] by blast
next
  case (read_take k p)
  then show ?thesis using smc_inv_read_take [OF assms(1)] by blast
next
  case (read_finish k t p)
  then show ?thesis using smc_inv_read_finish [OF assms(1)] by blast
qed

lemma smc_inv_ctor:
  "SMC_ctor m0 r w = Inr c \<Longrightarrow> smc_inv P m0 [] c"
  by (auto simp: SMC_ctor_def smc_inv_def tasks_of_def ThreadPool_ctor_def running_def split: if_splits)

end
