(* ===== verification/Raft_Timer.thy ===== *)
theory Raft_Timer
  imports Raft_Prelude
begin

text \<open>
  \<^verbatim>\<open>src/Timer.cpp\<close> wraps a \<open>boost::asio::deadline_timer\<close>; \<open>get_core\<close> returns it, so a \<open>Timer\<close> is
  the timer itself. Asio is a library outside the repository: its timers are the type parameter
  \<open>'t\<close> and the operations the sources call on them are the record \<open>asio\<close>, an argument of the
  definitions that use them. \<open>asio_law\<close> states the documented behaviour the code relies on, in terms
  of the number of waits pending on a timer; the comments in \<open>cancel_all_timers\<close> and the programs
  \<^verbatim>\<open>src/tests/boost_timer_bug.cpp\<close> and \<^verbatim>\<open>src/tests/boost_timer_hook.cpp\<close> record the same facts.
\<close>

text \<open>The completion handlers the server attaches to its timers.\<close>

datatype handler =
    Run_handler | Trans2F_handler | Trans2C_handler
  | AE_handler endpoint | RV_handler endpoint

text \<open>The \<open>error_code\<close> a handler is called with.\<close>

datatype error_code = No_error | Operation_aborted | Other_error

record 't asio =
  new_timer :: 't
  expires_at_min :: "'t \<Rightarrow> nat \<times> 't"          \<comment> \<open>\<open>expires_at(min_date_time)\<close>\<close>
  expires_from_now :: "int \<Rightarrow> 't \<Rightarrow> nat \<times> 't"
  async_wait :: "handler \<Rightarrow> 't \<Rightarrow> 't"
  cancel :: "'t \<Rightarrow> nat \<times> 't"
  is_min_date_time :: "'t \<Rightarrow> bool"              \<comment> \<open>\<open>expires_at() == min_date_time\<close>\<close>
  address_ok :: "string \<Rightarrow> bool"               \<comment> \<open>\<open>address::from_string\<close> does not throw\<close>

text \<open>
  Setting the expiry or cancelling cancels the pending waits and returns how many there were;
  \<open>async_wait\<close> adds one; the expiry reads back.
\<close>

definition asio_law :: "'t asio \<Rightarrow> ('t \<Rightarrow> nat) \<Rightarrow> bool" where
  "asio_law A pending \<longleftrightarrow>
     pending (new_timer A) = 0 \<and>
     (\<forall>t. fst (expires_at_min A t) = pending t \<and> pending (snd (expires_at_min A t)) = 0) \<and>
     (\<forall>t. is_min_date_time A (snd (expires_at_min A t))) \<and>
     (\<forall>d t. fst (expires_from_now A d t) = pending t \<and> pending (snd (expires_from_now A d t)) = 0) \<and>
     (\<forall>d t. \<not> is_min_date_time A (snd (expires_from_now A d t))) \<and>
     (\<forall>t. fst (cancel A t) = pending t \<and> pending (snd (cancel A t)) = 0) \<and>
     (\<forall>t. is_min_date_time A (snd (cancel A t)) = is_min_date_time A t) \<and>
     (\<forall>h t. pending (async_wait A h t) = Suc (pending t)) \<and>
     (\<forall>h t. is_min_date_time A (async_wait A h t) = is_min_date_time A t)"

lemma asio_lawD:
  assumes "asio_law A pending"
  shows "pending (new_timer A) = 0"
    "fst (expires_at_min A t) = pending t" "pending (snd (expires_at_min A t)) = 0"
    "is_min_date_time A (snd (expires_at_min A t))"
    "fst (expires_from_now A d t) = pending t" "pending (snd (expires_from_now A d t)) = 0"
    "\<not> is_min_date_time A (snd (expires_from_now A d t))"
    "fst (cancel A t) = pending t" "pending (snd (cancel A t)) = 0"
    "is_min_date_time A (snd (cancel A t)) = is_min_date_time A t"
    "pending (async_wait A h t) = Suc (pending t)"
    "is_min_date_time A (async_wait A h t) = is_min_date_time A t"
  using assms by (simp_all add: asio_law_def)

text \<open>The class \<open>Timer\<close>: its constructor makes the \<open>deadline_timer\<close>, \<open>get_core\<close> returns a reference to it,
  so what the caller does to it is done to the \<open>Timer\<close>.\<close>

definition Timer_ctor :: "'t asio \<Rightarrow> 't" where [simp]:
  "Timer_ctor A = new_timer A"

definition get_core :: "'t \<Rightarrow> 't" where [simp]:
  "get_core timer = timer"

text \<open>A timer with this behaviour, for witnesses and concrete runs: the pending handlers and
  whether the expiry is \<open>min_date_time\<close>.\<close>

definition counting_asio :: "(handler list \<times> bool) asio" where
  "counting_asio = \<lparr>
     new_timer = ([], False),
     expires_at_min = (\<lambda>(hs, m). (length hs, ([], True))),
     expires_from_now = (\<lambda>d (hs, m). (length hs, ([], False))),
     async_wait = (\<lambda>h (hs, m). (h # hs, m)),
     cancel = (\<lambda>(hs, m). (length hs, ([], m))),
     is_min_date_time = snd,
     address_ok = (\<lambda>a. a \<noteq> [])\<rparr>"

lemma counting_asio_law: "asio_law counting_asio (\<lambda>(hs, m). length hs)"
  by (auto simp: asio_law_def counting_asio_def)

end
