(* ===== verification/Raft_Server.thy ===== *)
theory Raft_Server
  imports Raft_Util Raft_Entries Raft_RPC Raft_SMC Raft_Timer
begin

text \<open>
  \<^verbatim>\<open>src/RaftServer.cpp\<close>: the server. The record holds the data members of the class; every member
  function is a definition with the same branches in the same order. Logging has no effect and is
  left out, except where evaluating a logged expression can fail; so are the \<open>context_log\<close> strings
  of \<open>make_resp_ae\<close> and \<open>make_resp_rv\<close>, which those functions ignore. \<open>known_primary_\<close> is never
  used. \<open>rand_m\<close> is the sequence of values \<open>rand()\<close> will return. The C++ \<open>int\<close>s of the protocol
  are unbounded integers here (an overflow of terms or sequence numbers is undefined behaviour in
  the source); the log's own word sizes are those of \<open>Raft_Entries\<close>.

  \<open>P\<close> (codecs) and \<open>A\<close> (asio) stand for the libraries.
\<close>

section \<open>State\<close>

datatype State = follower | candidate | primary

record 't RaftServer =
  winned_votes_m :: int
  already_voted_m :: bool
  term_m :: int
  state_m :: State
  configuration_m :: "endpoint list"
  majority_m :: int
  N_m :: int
  ip_m :: string
  port_m :: int
  server_m :: endpoint
  network_m :: RPC
  current_rpc_lsn_m :: "(endpoint, int) smap"
  follower_rpc_lsn_m :: "(endpoint, int) smap"
  candidate_timer_m :: 't
  retry_timers_m :: "(endpoint, 't) smap"
  commit_index_m :: int
  entries_m :: Entries
  nextIndex_m :: "(endpoint, int) smap"
  Follower_saved_index_m :: "(endpoint, int) smap"
  smc_m :: SMC
  entryIndex_to_socketAddr_map_m :: "(int, endpoint) smap"
  rand_m :: "nat \<Rightarrow> int"

definition call_rand :: "'t RaftServer \<Rightarrow> int \<times> 't RaftServer" where
  "call_rand s = (rand_m s 0, s\<lparr>rand_m := (\<lambda>n. rand_m s (Suc n))\<rparr>)"

section \<open>Configuration and construction\<close>

text \<open>\<open>istream::getline(str, 255)\<close>: the line, what is left, and whether the stream has failed (a line
  of more than 254 characters, or nothing left to read).\<close>

definition getline255 :: "string \<Rightarrow> string \<times> string \<times> bool" where
  "getline255 s =
     (let line = takeWhile (\<lambda>c. c \<noteq> CHR 0x0A) s in
      if length line \<le> 254 then (line, drop (Suc (length line)) s, s = [])
      else (take 254 line, drop 254 s, True))"

function load_config_loop :: "splitter \<Rightarrow> string \<Rightarrow> endpoint list \<Rightarrow> endpoint list res" where
  "load_config_loop split_fn content config =
     (let (line, rest, failed) = getline255 content; str = c_str line in
      if str = [] then Inr config
      else let vec = split_str_boost split_fn str CHR '':'' in
        if length vec \<noteq> 2 then Inl Bad_config_line
        else let config = config @ [(vec ! 0, atoi (c_str (vec ! 1)))] in
          if failed then Inr config else load_config_loop split_fn rest config)"
  by pat_completeness auto
termination
proof (relation "measure (\<lambda>(sp, content, config). length content)", goal_cases)
  case (2 split_fn content config x line y rest failed str vec config')
  then have "content \<noteq> []"
    by (auto simp: getline255_def c_str_def Let_def)
  moreover have "length rest \<le> length content - 1"
    using 2 by (auto simp: getline255_def Let_def split: if_splits)
  ultimately show ?case by (cases content) auto
qed simp

declare load_config_loop.simps [simp del]

definition load_config_from_file :: "splitter \<Rightarrow> string option \<Rightarrow> (endpoint list \<times> int \<times> int) res" where
  "load_config_from_file split_fn config_file =
     (case config_file of
        None \<Rightarrow> Inl Read_config_failed
      | Some content \<Rightarrow>
          (case load_config_loop split_fn content [] of
             Inl e \<Rightarrow> Inl e
           | Inr config \<Rightarrow> (let N = int (length config) in Inr (config, N, N div 2 + 1))))"

definition put_all :: "'k list \<Rightarrow> 'v \<Rightarrow> ('k, 'v) smap \<Rightarrow> ('k, 'v) smap" where
  "put_all ks v m = fold (\<lambda>k m. put k v m) ks m"

definition RaftServer_ctor ::
    "'t asio \<Rightarrow> splitter \<Rightarrow> string \<Rightarrow> int \<Rightarrow> string option \<Rightarrow> Entries \<Rightarrow> SMC \<Rightarrow> (nat \<Rightarrow> int) \<Rightarrow> 't RaftServer res" where
  "RaftServer_ctor A split_fn ip port config_file es smc rnd =
     (case load_config_from_file split_fn config_file of
        Inl e \<Rightarrow> Inl e
      | Inr (config, N, majority) \<Rightarrow>
          Inr \<lparr>winned_votes_m = 0, already_voted_m = False, term_m = 0, state_m = follower,
               configuration_m = config, majority_m = majority, N_m = N,
               ip_m = ip, port_m = port, server_m = (ip, port),
               network_m = \<lparr>connection_map_m = [], conns_m = [], io_m = []\<rparr>,
               current_rpc_lsn_m = put_all config 0 [],
               follower_rpc_lsn_m = put_all config (-1) [],
               candidate_timer_m = new_timer A,
               retry_timers_m = put_all config (Timer_ctor A) [],
               commit_index_m = -1, entries_m = es,
               nextIndex_m = put_all config 0 [],
               Follower_saved_index_m = put_all config (-1) [],
               smc_m = smc, entryIndex_to_socketAddr_map_m = [], rand_m = rnd\<rparr>)"

section \<open>Timers and terms\<close>

text \<open>Setting the election timer and attaching a handler to it: in \<open>run\<close>, \<open>trans2F\<close> and \<open>trans2C\<close>.\<close>

definition arm_candidate_timer :: "'t asio \<Rightarrow> exn \<Rightarrow> handler \<Rightarrow> 't RaftServer \<Rightarrow> 't RaftServer outcome" where
  "arm_candidate_timer A e h s =
     (let (r, s) = call_rand s;
          (waiting_count, t) = expires_from_now A (random_candidate_expire r) (candidate_timer_m s);
          s = s\<lparr>candidate_timer_m := t\<rparr>
      in if waiting_count \<noteq> 0 then Throw e s
         else Ok (s\<lparr>candidate_timer_m := async_wait A h t\<rparr>))"

definition run :: "'t asio \<Rightarrow> 't RaftServer \<Rightarrow> 't RaftServer outcome" where
  "run A s = arm_candidate_timer A Run_waiting Run_handler (s\<lparr>network_m := startAccept (network_m s)\<rparr>)"

definition cancel_all_timers :: "'t asio \<Rightarrow> 't RaftServer \<Rightarrow> 't RaftServer" where
  "cancel_all_timers A s =
     s\<lparr>candidate_timer_m := snd (expires_at_min A (candidate_timer_m s)),
       retry_timers_m := map (\<lambda>(k, t). (k, snd (expires_at_min A (get_core t)))) (retry_timers_m s)\<rparr>"

definition reset_both_rpc_lsn :: "'t RaftServer \<Rightarrow> 't RaftServer" where
  "reset_both_rpc_lsn s =
     s\<lparr>current_rpc_lsn_m := put_all (configuration_m s) 0 (current_rpc_lsn_m s),
       follower_rpc_lsn_m := put_all (configuration_m s) (-1) (follower_rpc_lsn_m s)\<rparr>"

definition update_term :: "int \<Rightarrow> 't RaftServer \<Rightarrow> 't RaftServer outcome" where
  "update_term t s =
     (if t > term_m s then Ok ((reset_both_rpc_lsn s)\<lparr>term_m := t\<rparr>)
      else if term_m s = t then Ok s
      else Throw Term_decreases s)"

definition trans2F :: "'t asio \<Rightarrow> int \<Rightarrow> 't RaftServer \<Rightarrow> 't RaftServer outcome" where
  "trans2F A t s =
     (let s = cancel_all_timers A s; s = s\<lparr>winned_votes_m := 0\<rparr> in
      seq (update_term t s) (\<lambda>s.
        arm_candidate_timer A Trans2F_waiting Trans2F_handler
          (s\<lparr>already_voted_m := False, state_m := follower\<rparr>)))"

section \<open>Sending\<close>

definition net_call ::
    "pb \<Rightarrow> 't asio \<Rightarrow> RPC_TYPE \<Rightarrow> endpoint \<Rightarrow> string \<Rightarrow> 't RaftServer \<Rightarrow> 't RaftServer outcome" where
  "net_call P A rpc_type server msg s =
     map_outcome (\<lambda>n. s\<lparr>network_m := n\<rparr>) (make_rpc_call P (address_ok A) rpc_type server msg (network_m s))"

definition build_rpc_ae :: "endpoint \<Rightarrow> 't RaftServer \<Rightarrow> AppendEntryRpc res \<times> 't RaftServer" where
  "build_rpc_ae server s =
     (let server_current_rpc_lsn = at0 (current_rpc_lsn_m s) server;
          s = s\<lparr>current_rpc_lsn_m := put server (server_current_rpc_lsn + 1) (current_rpc_lsn_m s)\<rparr>;
          index_to_send = at0 (nextIndex_m s) server;
          s = s\<lparr>nextIndex_m := touch server (nextIndex_m s)\<rparr>;
          prelog_term = (if index_to_send > 0
                         then map_sum id en_term (Entries_get (entries_m s) (index_to_send - 1))
                         else Inr (-1));
          to_send = (if index_to_send = Entries_size (entries_m s) then Inr []
                     else map_sum id (\<lambda>e. [\<lparr>en_term = en_term e, en_index = en_index e, en_msg = en_msg e\<rparr>])
                            (Entries_get (entries_m s) index_to_send))
      in (case prelog_term of
            Inl e \<Rightarrow> Inl e
          | Inr pt \<Rightarrow>
              (case to_send of
                 Inl e \<Rightarrow> Inl e
               | Inr es \<Rightarrow> Inr \<lparr>ae_term = term_m s, ae_prelog_term = pt, ae_commit_index = commit_index_m s,
                                 ae_lsn = server_current_rpc_lsn, ae_ip = ip_m s, ae_port = port_m s,
                                 ae_entry = es, ae_prelog_index = index_to_send - 1\<rparr>), s))"

text \<open>The second half of \<open>AE\<close> and \<open>RV\<close>: set the peer's retry timer and attach the handler. \<open>busy\<close> is
  what the function does when the timer still had a wait pending. (\<open>retry_timers_[server]\<close> for a peer
  that is not in the configuration is a null pointer.)\<close>

definition arm_retry_timer ::
    "'t asio \<Rightarrow> (int \<Rightarrow> int) \<Rightarrow> handler \<Rightarrow> ('t RaftServer \<Rightarrow> 't RaftServer outcome) \<Rightarrow> endpoint \<Rightarrow>
     't RaftServer \<Rightarrow> 't RaftServer outcome" where
  "arm_retry_timer A random_expire h busy server s =
     (case map_of (retry_timers_m s) server of
        None \<Rightarrow> Throw Null_deref s
      | Some timer \<Rightarrow>
          (let (r, s) = call_rand s;
               (waiting_counts, t) = expires_from_now A (random_expire r) (get_core timer);
               s = s\<lparr>retry_timers_m := put server t (retry_timers_m s)\<rparr>
           in if waiting_counts \<noteq> 0 then busy s
              else Ok (s\<lparr>retry_timers_m := put server (async_wait A h t) (retry_timers_m s)\<rparr>)))"

definition AE :: "pb \<Rightarrow> 't asio \<Rightarrow> endpoint \<Rightarrow> 't RaftServer \<Rightarrow> 't RaftServer outcome" where
  "AE P A server s =
     (let (rpc, s) = build_rpc_ae server s in
      with_res rpc s (\<lambda>ae.
        seq (net_call P A APPEND_ENTRY server (ser_ae P ae) s)
            (arm_retry_timer A random_ae_retry_expire (AE_handler server) (Throw AE_waiting) server)))"

text \<open>\<open>latest_term\<close> is not set, so it has protobuf's default 0.\<close>

definition build_rpc_rv :: "endpoint \<Rightarrow> 't RaftServer \<Rightarrow> RequestVoteRpc \<times> 't RaftServer" where
  "build_rpc_rv server s =
     (let server_current_rpc_lsn = at0 (current_rpc_lsn_m s) server;
          s = s\<lparr>current_rpc_lsn_m := put server (server_current_rpc_lsn + 1) (current_rpc_lsn_m s)\<rparr>
      in (\<lparr>rv_term = term_m s, rv_latest_index = Entries_size (entries_m s) - 1, rv_latest_term = 0,
           rv_lsn = server_current_rpc_lsn, rv_ip = ip_m s, rv_port = port_m s\<rparr>, s))"

definition RV :: "pb \<Rightarrow> 't asio \<Rightarrow> endpoint \<Rightarrow> 't RaftServer \<Rightarrow> 't RaftServer outcome" where
  "RV P A server s =
     (let (rv, s) = build_rpc_rv server s in
      seq (net_call P A REQUEST_VOTE server (ser_rv P rv) s)
          (arm_retry_timer A random_rv_retry_expire (RV_handler server) Ok server))"

definition make_resp_rv :: "pb \<Rightarrow> 't asio \<Rightarrow> bool \<Rightarrow> endpoint \<Rightarrow> int \<Rightarrow> 't RaftServer \<Rightarrow> 't RaftServer outcome" where
  "make_resp_rv P A vote server lsn s =
     net_call P A RESP_VOTE server
       (ser_resp_rv P \<lparr>rrv_ok = vote, rrv_term = term_m s, rrv_lsn = lsn, rrv_ip = ip_m s, rrv_port = port_m s\<rparr>) s"

definition make_resp_ae ::
    "pb \<Rightarrow> 't asio \<Rightarrow> bool \<Rightarrow> endpoint \<Rightarrow> int \<Rightarrow> bool \<Rightarrow> 't RaftServer \<Rightarrow> 't RaftServer outcome" where
  "make_resp_ae P A ok server lsn is_empty_ae s =
     net_call P A RESP_APPEND server
       (ser_resp_ae P \<lparr>rae_ok = ok, rae_term = term_m s, rae_lsn = lsn, rae_ip = ip_m s, rae_port = port_m s,
                       rae_is_empty_ae = is_empty_ae\<rparr>) s"

text \<open>The loops over the other members of the cluster (compared by port).\<close>

definition for_others :: "(endpoint \<Rightarrow> 't RaftServer \<Rightarrow> 't RaftServer outcome) \<Rightarrow> 't RaftServer \<Rightarrow> 't RaftServer outcome" where
  "for_others f s = for_each (configuration_m s) (\<lambda>server s. if port_of server \<noteq> port_m s then f server s else Ok s) s"

definition trans2P :: "pb \<Rightarrow> 't asio \<Rightarrow> 't RaftServer \<Rightarrow> 't RaftServer outcome" where
  "trans2P P A s =
     (let s = cancel_all_timers A s;
          s = s\<lparr>state_m := primary\<rparr>;
          entry_size = Entries_size (entries_m s);
          s = s\<lparr>nextIndex_m := put_all (configuration_m s) entry_size (nextIndex_m s),
                Follower_saved_index_m := put_all (configuration_m s) (-1) (Follower_saved_index_m s)\<rparr>;
          s = s\<lparr>Follower_saved_index_m := put (server_m s) (entry_size - 1) (Follower_saved_index_m s)\<rparr>
      in for_others (AE P A) s)"

definition trans2C :: "pb \<Rightarrow> 't asio \<Rightarrow> 't RaftServer \<Rightarrow> 't RaftServer outcome" where
  "trans2C P A s =
     (let s = cancel_all_timers A s in
      seq (update_term (term_m s + 1) s) (\<lambda>s.
        seq (arm_candidate_timer A Trans2C_waiting Trans2C_handler
               (s\<lparr>state_m := candidate, winned_votes_m := 1\<rparr>))
            (for_others (RV P A))))"

section \<open>Commit index and state machine\<close>

definition apply_to_state_machine :: "int \<Rightarrow> 't RaftServer \<Rightarrow> 't RaftServer outcome" where
  "apply_to_state_machine new_commit_index s =
     map_outcome (\<lambda>c. s\<lparr>smc_m := c\<rparr>) (update_commit_index_and_apply new_commit_index (entries_m s) (smc_m s))"

text \<open>\<open>temp_sort\<close>: as many slots as the configuration has servers, filled from the map and sorted
  downwards. A map with more keys than servers is written past the end; the log line reads the
  first three slots.\<close>

definition temp_sort :: "'t RaftServer \<Rightarrow> int list" where
  "temp_sort s =
     (let vals = map snd (Follower_saved_index_m s) in
      rev (sort (vals @ replicate (length (configuration_m s) - length vals) 0)))"

definition primary_update_commit_index :: "endpoint \<Rightarrow> int \<Rightarrow> 't RaftServer \<Rightarrow> 't RaftServer outcome" where
  "primary_update_commit_index server index s =
     (let s = s\<lparr>Follower_saved_index_m := put server index (Follower_saved_index_m s)\<rparr> in
      if length (Follower_saved_index_m s) > length (configuration_m s) \<or> length (configuration_m s) < 3
         \<or> \<not> (1 \<le> majority_m s \<and> majority_m s \<le> int (length (configuration_m s)))
      then Throw Undefined_behaviour s
      else
        let commit_index = temp_sort s ! nat (majority_m s - 1) in
        apply_to_state_machine commit_index (s\<lparr>commit_index_m := commit_index\<rparr>))"

definition follower_update_commit_index :: "int \<Rightarrow> 't RaftServer \<Rightarrow> 't RaftServer outcome" where
  "follower_update_commit_index remote_commit_index s =
     (let prev_commit_index = commit_index_m s;
          latest_index = Entries_size (entries_m s) - 1;
          s = s\<lparr>commit_index_m := (if latest_index < remote_commit_index then latest_index else remote_commit_index)\<rparr>
      in if commit_index_m s < prev_commit_index then Throw Commit_decreases s
         else if commit_index_m s > prev_commit_index then apply_to_state_machine (commit_index_m s) s
         else Ok s)"

section \<open>Reacting to messages\<close>

definition should_ignore_remote_rpc :: "endpoint \<Rightarrow> int \<Rightarrow> 't RaftServer \<Rightarrow> bool \<times> 't RaftServer" where
  "should_ignore_remote_rpc remote new_lsn s =
     (let prev = at0 (follower_rpc_lsn_m s) remote;
          s = s\<lparr>follower_rpc_lsn_m := touch remote (follower_rpc_lsn_m s)\<rparr>
      in if prev \<ge> new_lsn then (True, s)
         else (False, s\<lparr>follower_rpc_lsn_m := put remote new_lsn (follower_rpc_lsn_m s)\<rparr>))"

definition insert_entry :: "pb \<Rightarrow> int \<Rightarrow> rpc_Entry \<Rightarrow> 't RaftServer \<Rightarrow> 't RaftServer outcome" where
  "insert_entry P index entry s =
     map_outcome (\<lambda>es. s\<lparr>entries_m := es\<rparr>) (Entries_insert P (word_of_int index) entry (entries_m s))"

text \<open>The end of \<open>react2ae\<close>, once the log check has passed.\<close>

definition accept_ae :: "pb \<Rightarrow> 't asio \<Rightarrow> AppendEntryRpc \<Rightarrow> 't RaftServer \<Rightarrow> 't RaftServer outcome" where
  "accept_ae P A rpc_ae s =
     (let server = (ae_ip rpc_ae, ae_port rpc_ae) in
      case ae_entry rpc_ae of
        [] \<Rightarrow>
          if Entries_size (entries_m s) < ae_commit_index rpc_ae then Throw Commit_beyond_log s
          else seq (follower_update_commit_index (ae_commit_index rpc_ae) s)
                   (make_resp_ae P A True server (ae_lsn rpc_ae) True)
      | entry # _ \<Rightarrow>
          if en_index entry \<noteq> ae_prelog_index rpc_ae + 1 then Throw Bad_entry_index s
          else seq (insert_entry P (ae_prelog_index rpc_ae + 1) entry s) (\<lambda>s.
               seq (follower_update_commit_index (ae_commit_index rpc_ae) s)
                   (make_resp_ae P A True server (ae_lsn rpc_ae) False)))"

definition react2ae :: "pb \<Rightarrow> 't asio \<Rightarrow> AppendEntryRpc \<Rightarrow> 't RaftServer \<Rightarrow> 't RaftServer outcome" where
  "react2ae P A rpc_ae s =
     (let remote_term = ae_term rpc_ae; prelog_term = ae_prelog_term rpc_ae;
          prelog_index = ae_prelog_index rpc_ae; rpc_lsn = ae_lsn rpc_ae;
          is_empty_ae = (ae_entry rpc_ae = []);
          server = (ae_ip rpc_ae, ae_port rpc_ae)
      in if length (ae_entry rpc_ae) > 1 then Throw Entry_size_gt_1 s
         else if term_m s > remote_term then make_resp_ae P A False server rpc_lsn is_empty_ae s
         else if state_m s = primary \<and> term_m s = remote_term then Throw Two_primaries s
         else seq (trans2F A remote_term s) (\<lambda>s.
           let (ignore, s) = should_ignore_remote_rpc server rpc_lsn s in
           if ignore then Ok s
           else if prelog_index = -1 then
             (if prelog_term \<noteq> -1 then Throw Bad_prelog_term s else accept_ae P A rpc_ae s)
           else if prelog_index \<ge> Entries_size (entries_m s) then
             make_resp_ae P A False server rpc_lsn is_empty_ae s
           else with_res (Entries_get (entries_m s) prelog_index) s (\<lambda>prev_entry.
             if prelog_term \<noteq> en_term prev_entry
             then make_resp_ae P A False server rpc_lsn is_empty_ae s
             else accept_ae P A rpc_ae s)))"

definition react2rv :: "pb \<Rightarrow> 't asio \<Rightarrow> RequestVoteRpc \<Rightarrow> 't RaftServer \<Rightarrow> 't RaftServer outcome" where
  "react2rv P A rpc_rv s =
     (let remote_term = rv_term rpc_rv; rpc_lsn = rv_lsn rpc_rv;
          remote_latest_index = rv_latest_index rpc_rv;
          server = (rv_ip rpc_rv, rv_port rpc_rv)
      in if term_m s > remote_term then make_resp_rv P A False server rpc_lsn s
         else seq (if term_m s < remote_term then trans2F A remote_term s else Ok s) (\<lambda>s.
           let (ignore, s) = should_ignore_remote_rpc server rpc_lsn s in
           if ignore then Ok s
           else if state_m s = candidate \<or> state_m s = primary then make_resp_rv P A False server rpc_lsn s
           else if \<not> already_voted_m s then
             with_res (if Entries_size (entries_m s) = 0 then Inr True
                       else map_sum id (\<lambda>lastEntry.
                              if en_term lastEntry > remote_term then False
                              else if en_term lastEntry < remote_term then True
                              else if en_index lastEntry > remote_latest_index then False else True)
                              (Entries_get (entries_m s) (Entries_size (entries_m s) - 1))) s
               (\<lambda>should_vote.
                  if should_vote then
                    seq (make_resp_rv P A True server rpc_lsn s) (\<lambda>s. Ok (s\<lparr>already_voted_m := True\<rparr>))
                  else make_resp_rv P A False server rpc_lsn s)
           else make_resp_rv P A False server rpc_lsn s))"

definition primary_deal_resp_ae_with_same_term ::
    "pb \<Rightarrow> 't asio \<Rightarrow> endpoint \<Rightarrow> Resp_AppendEntryRpc \<Rightarrow> 't RaftServer \<Rightarrow> 't RaftServer outcome" where
  "primary_deal_resp_ae_with_same_term P A server resp_ae s =
     (let resp_lsn = rae_lsn resp_ae;
          current_rpc_lsn = at0 (current_rpc_lsn_m s) server;
          s = s\<lparr>current_rpc_lsn_m := touch server (current_rpc_lsn_m s)\<rparr>
      in if current_rpc_lsn \<noteq> resp_lsn + 1 then Ok s
         else
           let last_send_index = at0 (nextIndex_m s) server;
               s = s\<lparr>nextIndex_m := touch server (nextIndex_m s)\<rparr>
           in if rae_ok resp_ae then
                (if last_send_index > Entries_size (entries_m s) then Throw Last_send_gt_size s
                 else if last_send_index = Entries_size (entries_m s) then
                   primary_update_commit_index server (last_send_index - 1) s
                 else
                   seq (if rae_is_empty_ae resp_ae then
                          primary_update_commit_index server (last_send_index - 1) s
                        else
                          primary_update_commit_index server last_send_index
                            (s\<lparr>nextIndex_m := put server (last_send_index + 1) (nextIndex_m s)\<rparr>))
                       (\<lambda>s. case map_of (retry_timers_m s) server of
                              None \<Rightarrow> Throw Null_deref s
                            | Some t \<Rightarrow> AE P A server
                                (s\<lparr>retry_timers_m := put server (snd (expires_at_min A (get_core t))) (retry_timers_m s)\<rparr>)))
              else
                (if last_send_index = 0 then Throw Refused_at_zero s
                 else
                   let s = s\<lparr>nextIndex_m := put server (last_send_index - 1) (nextIndex_m s)\<rparr> in
                   case map_of (retry_timers_m s) server of
                     None \<Rightarrow> Throw Null_deref s
                   | Some t \<Rightarrow> AE P A server
                       (s\<lparr>retry_timers_m := put server (snd (cancel A (get_core t))) (retry_timers_m s)\<rparr>)))"

definition candidate_deal_resp_rv_with_same_term ::
    "pb \<Rightarrow> 't asio \<Rightarrow> endpoint \<Rightarrow> Resp_RequestVoteRpc \<Rightarrow> 't RaftServer \<Rightarrow> 't RaftServer outcome" where
  "candidate_deal_resp_rv_with_same_term P A server resp_rv s =
     (let resp_lsn = rrv_lsn resp_rv;
          current_rpc_lsn = at0 (current_rpc_lsn_m s) server;
          s = s\<lparr>current_rpc_lsn_m := touch server (current_rpc_lsn_m s)\<rparr>
      in if current_rpc_lsn \<noteq> resp_lsn + 1 then Ok s
         else if rrv_ok resp_rv then
           let s = s\<lparr>winned_votes_m := winned_votes_m s + 1\<rparr> in
           if winned_votes_m s \<ge> majority_m s then trans2P P A s
           else (case map_of (retry_timers_m s) server of
                   None \<Rightarrow> Throw Null_deref s
                 | Some t \<Rightarrow> Ok (s\<lparr>retry_timers_m := put server (snd (expires_at_min A (get_core t))) (retry_timers_m s)\<rparr>))
         else Ok s)"

definition react2resp_ae :: "pb \<Rightarrow> 't asio \<Rightarrow> Resp_AppendEntryRpc \<Rightarrow> 't RaftServer \<Rightarrow> 't RaftServer outcome" where
  "react2resp_ae P A resp_ae s =
     (let remote_term = rae_term resp_ae; server = (rae_ip resp_ae, rae_port resp_ae) in
      if term_m s < remote_term then trans2F A remote_term s
      else if term_m s > remote_term then Ok s
      else if state_m s = primary then primary_deal_resp_ae_with_same_term P A server resp_ae s
      else Throw Resp_ae_not_primary s)"

definition react2resp_rv :: "pb \<Rightarrow> 't asio \<Rightarrow> Resp_RequestVoteRpc \<Rightarrow> 't RaftServer \<Rightarrow> 't RaftServer outcome" where
  "react2resp_rv P A resp_rv s =
     (let server = (rrv_ip resp_rv, rrv_port resp_rv); remote_term = rrv_term resp_rv in
      if term_m s < remote_term then trans2F A remote_term s
      else if term_m s > remote_term then Ok s
      else if state_m s = candidate then candidate_deal_resp_rv_with_same_term P A server resp_rv s
      else Ok s)"

section \<open>Clients\<close>

definition append_client_apply_to_entries :: "pb \<Rightarrow> endpoint \<Rightarrow> string \<Rightarrow> 't RaftServer \<Rightarrow> 't RaftServer outcome" where
  "append_client_apply_to_entries P client_addr apply_str s =
     (let index = Entries_size (entries_m s);
          s = s\<lparr>entryIndex_to_socketAddr_map_m := put index client_addr (entryIndex_to_socketAddr_map_m s)\<rparr>;
          entry = \<lparr>en_term = term_m s, en_index = index, en_msg = apply_str\<rparr>
      in seq (insert_entry P index entry s) (\<lambda>s.
           Ok (s\<lparr>Follower_saved_index_m := put (server_m s) index (Follower_saved_index_m s)\<rparr>)))"

definition get_from_state_machine :: "endpoint \<Rightarrow> string \<Rightarrow> 't RaftServer \<Rightarrow> 't RaftServer outcome" where
  "get_from_state_machine client_addr client_query_str s =
     map_outcome (\<lambda>c. s\<lparr>smc_m := c\<rparr>) (smc_get_from_state_machine client_query_str client_addr (smc_m s))"

definition write_resp_apply_call :: "pb \<Rightarrow> 't asio \<Rightarrow> int \<Rightarrow> string \<Rightarrow> 't RaftServer \<Rightarrow> 't RaftServer outcome" where
  "write_resp_apply_call P A entry_index res_str s =
     (if state_m s = primary then
        (case map_of (entryIndex_to_socketAddr_map_m s) entry_index of
           Some addr \<Rightarrow> net_call P A RESP_CLIENT_APPLY addr res_str s
         | None \<Rightarrow> Ok s)
      else Ok s)"

definition write_resp_query_call :: "pb \<Rightarrow> 't asio \<Rightarrow> endpoint \<Rightarrow> string \<Rightarrow> 't RaftServer \<Rightarrow> 't RaftServer outcome" where
  "write_resp_query_call P A addr res_str s = net_call P A RESP_CLIENT_QUERY addr res_str s"

section \<open>Events\<close>

definition reactToIncomingMsg ::
    "pb \<Rightarrow> 't asio \<Rightarrow> RPC_TYPE \<Rightarrow> string \<Rightarrow> endpoint \<Rightarrow> 't RaftServer \<Rightarrow> 't RaftServer outcome" where
  "reactToIncomingMsg P A rpc_type msg peer_addr s =
     (if rpc_type = REQUEST_VOTE then react2rv P A (parse_rv P msg) s
      else if rpc_type = APPEND_ENTRY then react2ae P A (parse_ae P msg) s
      else if rpc_type = RESP_VOTE then react2resp_rv P A (parse_resp_rv P msg) s
      else if rpc_type = RESP_APPEND then react2resp_ae P A (parse_resp_ae P msg) s
      else if rpc_type = CLIENT_APPLY then append_client_apply_to_entries P peer_addr msg s
      else if rpc_type = CLIENT_QUERY then get_from_state_machine peer_addr msg s
      else Ok s)"

text \<open>The completion handlers of the timers.\<close>

definition run_handler :: "pb \<Rightarrow> 't asio \<Rightarrow> error_code \<Rightarrow> 't RaftServer \<Rightarrow> 't RaftServer outcome" where
  "run_handler P A error s =
     (case error of
        Operation_aborted \<Rightarrow> Ok s
      | Other_error \<Rightarrow> Throw Timer_error s
      | No_error \<Rightarrow> if is_min_date_time A (candidate_timer_m s) then Ok s else trans2C P A s)"

definition trans2F_handler :: "pb \<Rightarrow> 't asio \<Rightarrow> error_code \<Rightarrow> 't RaftServer \<Rightarrow> 't RaftServer outcome" where
  "trans2F_handler P A error s =
     (case error of
        Operation_aborted \<Rightarrow> Ok s
      | Other_error \<Rightarrow> Throw Timer_error s
      | No_error \<Rightarrow> if is_min_date_time A (candidate_timer_m s) then Throw Handler_min_expiry s
                    else trans2C P A s)"

definition trans2C_handler :: "pb \<Rightarrow> 't asio \<Rightarrow> error_code \<Rightarrow> 't RaftServer \<Rightarrow> 't RaftServer outcome" where
  "trans2C_handler P A error s =
     (case error of
        Operation_aborted \<Rightarrow> Ok s
      | Other_error \<Rightarrow> Throw Timer_error s
      | No_error \<Rightarrow> if is_min_date_time A (candidate_timer_m s) then Throw Handler_min_expiry s
                    else trans2C P A s)"

definition AE_retry_handler :: "pb \<Rightarrow> 't asio \<Rightarrow> endpoint \<Rightarrow> error_code \<Rightarrow> 't RaftServer \<Rightarrow> 't RaftServer outcome" where
  "AE_retry_handler P A server error s =
     (case error of
        Operation_aborted \<Rightarrow> Ok s
      | Other_error \<Rightarrow> Throw Timer_error s
      | No_error \<Rightarrow>
          (case map_of (retry_timers_m s) server of
             None \<Rightarrow> Throw Null_deref s
           | Some t1 \<Rightarrow> if is_min_date_time A (get_core t1) then Ok s else AE P A server s))"

definition RV_retry_handler :: "pb \<Rightarrow> 't asio \<Rightarrow> endpoint \<Rightarrow> error_code \<Rightarrow> 't RaftServer \<Rightarrow> 't RaftServer outcome" where
  "RV_retry_handler P A server error s =
     (case error of
        Operation_aborted \<Rightarrow> Ok s
      | Other_error \<Rightarrow> Throw Timer_error s
      | No_error \<Rightarrow>
          (case map_of (retry_timers_m s) server of
             None \<Rightarrow> Throw Null_deref s
           | Some timer \<Rightarrow> if is_min_date_time A (get_core timer) then Throw Handler_min_expiry s
                           else RV P A server s))"

primrec timer_handler :: "pb \<Rightarrow> 't asio \<Rightarrow> handler \<Rightarrow> error_code \<Rightarrow> 't RaftServer \<Rightarrow> 't RaftServer outcome" where
  "timer_handler P A Run_handler error s = run_handler P A error s"
| "timer_handler P A Trans2F_handler error s = trans2F_handler P A error s"
| "timer_handler P A Trans2C_handler error s = trans2C_handler P A error s"
| "timer_handler P A (AE_handler server) error s = AE_retry_handler P A server error s"
| "timer_handler P A (RV_handler server) error s = RV_retry_handler P A server error s"

text \<open>What the io thread can be handed next: a message off a connection, an expired or cancelled
  timer's handler, or a call posted by a worker thread.\<close>

datatype event =
    Incoming RPC_TYPE string endpoint
  | Timer_event handler error_code
  | Posted post

primrec server_step :: "pb \<Rightarrow> 't asio \<Rightarrow> event \<Rightarrow> 't RaftServer \<Rightarrow> 't RaftServer outcome" where
  "server_step P A (Incoming rpc_type msg peer_addr) s = reactToIncomingMsg P A rpc_type msg peer_addr s"
| "server_step P A (Timer_event h error) s = timer_handler P A h error s"
| "server_step P A (Posted p) s =
     (case p of
        Write_resp_apply entry_index res_str \<Rightarrow> write_resp_apply_call P A entry_index res_str s
      | Write_resp_query addr res_str \<Rightarrow> write_resp_query_call P A addr res_str s)"

end
