(* ===== verification/Raft_Server_Inv.thy ===== *)
theory Raft_Server_Inv
  imports Raft_Server
begin

text \<open>
  The server's invariant and the frame lemmas behind it. Two frames split the state: \<open>log_frame\<close>
  (configuration, log, commit index, replication bookkeeping, state machine) and \<open>vote_frame\<close> (term,
  role, votes). Sending and timers keep both; the transitions between roles keep the first. The
  invariant \<open>raft_inv\<close> then needs a proof only where a handler really changes the log or the
  bookkeeping. The last lemmas show that every event the
  io thread handles keeps it.
\<close>

section \<open>Frames\<close>

named_theorems frames \<open>what an operation leaves alone\<close>

definition log_frame :: "'t RaftServer \<Rightarrow> 't RaftServer \<Rightarrow> bool" where
  "log_frame s t \<longleftrightarrow>
     configuration_m t = configuration_m s \<and> majority_m t = majority_m s \<and> N_m t = N_m s \<and>
     ip_m t = ip_m s \<and> port_m t = port_m s \<and> server_m t = server_m s \<and>
     commit_index_m t = commit_index_m s \<and> entries_m t = entries_m s \<and>
     at0 (nextIndex_m t) = at0 (nextIndex_m s) \<and>
     Follower_saved_index_m t = Follower_saved_index_m s \<and> smc_m t = smc_m s \<and>
     entryIndex_to_socketAddr_map_m t = entryIndex_to_socketAddr_map_m s \<and>
     keys (retry_timers_m t) = keys (retry_timers_m s) \<and>
     (rpc_inv (network_m s) \<longrightarrow> rpc_inv (network_m t))"

definition vote_frame :: "'t RaftServer \<Rightarrow> 't RaftServer \<Rightarrow> bool" where
  "vote_frame s t \<longleftrightarrow>
     term_m t = term_m s \<and> state_m t = state_m s \<and>
     already_voted_m t = already_voted_m s \<and> winned_votes_m t = winned_votes_m s"

abbreviation frame :: "'t RaftServer \<Rightarrow> 't RaftServer \<Rightarrow> bool" where
  "frame s t \<equiv> log_frame s t \<and> vote_frame s t"

lemma log_frame_refl [simp]: "log_frame s s"
  by (simp add: log_frame_def)

lemma vote_frame_refl [simp]: "vote_frame s s"
  by (simp add: vote_frame_def)

lemma log_frame_trans [trans]: "log_frame s t \<Longrightarrow> log_frame t u \<Longrightarrow> log_frame s u"
  by (simp add: log_frame_def)

lemma vote_frame_trans [trans]: "vote_frame s t \<Longrightarrow> vote_frame t u \<Longrightarrow> vote_frame s u"
  by (simp add: vote_frame_def)

lemma at0_touch_fun [simp]: "at0 (touch k m) = at0 m"
  by (simp add: fun_eq_iff)

lemma frame_cancel_all_timers [frames]: "frame s (cancel_all_timers A s)"
  by (simp add: cancel_all_timers_def log_frame_def vote_frame_def)

lemma frame_arm [frames]: "okp (frame s) (arm_candidate_timer A e h s)"
  by (simp add: arm_candidate_timer_def call_rand_def log_frame_def vote_frame_def split_def Let_def)

lemma frame_net_call [frames]: "okp (frame s) (net_call P A t srv m s)"
proof -
  have "okp (\<lambda>n. rpc_inv (network_m s) \<longrightarrow> rpc_inv n) (make_rpc_call P (address_ok A) t srv m (network_m s))"
    by (cases "rpc_inv (network_m s)") (auto intro: okp_mono [OF make_rpc_call_ok])
  then show ?thesis
    by (auto simp: net_call_def wp log_frame_def vote_frame_def elim: okp_mono)
qed

lemma frame_make_resp_rv [frames]: "okp (frame s) (make_resp_rv P A v srv l s)"
  by (simp add: make_resp_rv_def frame_net_call)

lemma frame_make_resp_ae [frames]: "okp (frame s) (make_resp_ae P A v srv l e s)"
  by (simp add: make_resp_ae_def frame_net_call)

lemma frame_build_ae: "frame s (snd (build_rpc_ae srv s))"
  by (simp add: build_rpc_ae_def log_frame_def vote_frame_def Let_def)

lemma frame_build_rv: "frame s (snd (build_rpc_rv srv s))"
  by (simp add: build_rpc_rv_def log_frame_def vote_frame_def Let_def)

lemma frame_should_ignore [frames]: "frame s (snd (should_ignore_remote_rpc srv l s))"
  by (simp add: should_ignore_remote_rpc_def log_frame_def vote_frame_def Let_def)

text \<open>Chaining: a frame up to here, then one more operation that keeps it.\<close>

lemma okp_frame_step:
  assumes "frame s t" "okp (frame t) m"
  shows "okp (frame s) m"
  using assms(2) by (rule okp_mono) (use assms(1) log_frame_trans vote_frame_trans in blast)

lemma okp_frame_seq:
  assumes "okp (frame s) m" "\<And>t. okp (frame t) (f t)"
  shows "okp (frame s) (seq m f)"
  unfolding okp_seq by (rule okp_mono [OF assms(1)]) (rule okp_frame_step [OF _ assms(2)])

lemma frame_arm_retry:
  assumes "\<And>t. okp (frame t) (busy t)"
  shows "okp (frame s) (arm_retry_timer A ex h busy srv s)"
proof (cases "map_of (retry_timers_m s) srv")
  case None
  then show ?thesis by (simp add: arm_retry_timer_def)
next
  case (Some t)
  let ?s = "s\<lparr>rand_m := (\<lambda>n. rand_m s (Suc n)),
               retry_timers_m := put srv (snd (expires_from_now A (ex (rand_m s 0)) t)) (retry_timers_m s)\<rparr>"
  have "frame s ?s" using Some by (simp add: log_frame_def vote_frame_def)
  then have "okp (frame s) (busy ?s)" using assms by (rule okp_frame_step)
  with Some show ?thesis
    by (simp add: arm_retry_timer_def call_rand_def split_def Let_def log_frame_def vote_frame_def)
qed

lemma frame_AE [frames]: "okp (frame s) (AE P A srv s)"
proof -
  have "okp (frame t) (seq (net_call P A APPEND_ENTRY srv m t)
      (arm_retry_timer A random_ae_retry_expire (AE_handler srv) (Throw AE_waiting) srv))" for t m
    by (intro okp_frame_seq frame_net_call frame_arm_retry) simp
  then show ?thesis
    using frame_build_ae [of s srv] okp_frame_step unfolding AE_def split_def Let_def okp_with_res by blast
qed

lemma frame_RV [frames]: "okp (frame s) (RV P A srv s)"
proof -
  have "okp (frame t) (seq (net_call P A REQUEST_VOTE srv m t)
      (arm_retry_timer A random_rv_retry_expire (RV_handler srv) Ok srv))" for t m
    by (intro okp_frame_seq frame_net_call frame_arm_retry) simp
  then show ?thesis
    using frame_build_rv [of s srv] okp_frame_step unfolding RV_def split_def Let_def by blast
qed

lemma frame_for_others:
  assumes "\<And>x t. okp (frame t) (f x t)"
  shows "okp (frame s) (for_others f s)"
  unfolding for_others_def
proof (rule okp_for_each)
  fix x t assume "frame s t"
  then show "okp (frame s) (if port_of x \<noteq> port_m t then f x t else Ok t)"
    using okp_frame_step [OF _ assms] by (simp add: wp)
qed simp

section \<open>Role changes keep the log\<close>

lemma okp_log_frame_step:
  assumes "log_frame s t" "okp (log_frame t) m"
  shows "okp (log_frame s) m"
  using assms(2) by (rule okp_mono) (use assms(1) log_frame_trans in blast)

lemma log_frame_update_term [frames]: "okp (log_frame s) (update_term t s)"
  by (simp add: update_term_def wp reset_both_rpc_lsn_def log_frame_def)

lemma log_frameI: "okp (frame s) m \<Longrightarrow> okp (log_frame s) m"
  by (erule okp_mono) simp

lemma trans2F_effect [frames]:
  "okp (\<lambda>u. log_frame s u \<and> term_m u = t \<and> term_m s \<le> t \<and> state_m u = follower \<and>
           \<not> already_voted_m u \<and> winned_votes_m u = 0)
     (trans2F A t s)"
proof -
  let ?c = "(cancel_all_timers A s)\<lparr>winned_votes_m := 0\<rparr>"
  have c: "log_frame s ?c" "term_m ?c = term_m s" "winned_votes_m ?c = 0"
    by (simp_all add: cancel_all_timers_def log_frame_def)
  have "okp (\<lambda>v. log_frame s v \<and> term_m v = t \<and> term_m s \<le> t \<and> winned_votes_m v = 0) (update_term t ?c)"
    using c by (auto simp: update_term_def wp reset_both_rpc_lsn_def log_frame_def)
  then show ?thesis
    unfolding trans2F_def Let_def okp_seq
  proof (rule okp_mono)
    fix v assume v: "log_frame s v \<and> term_m v = t \<and> term_m s \<le> t \<and> winned_votes_m v = 0"
    let ?v = "v\<lparr>already_voted_m := False, state_m := follower\<rparr>"
    have "okp (frame ?v) (arm_candidate_timer A Trans2F_waiting Trans2F_handler ?v)" by (rule frame_arm)
    then show "okp (\<lambda>u. log_frame s u \<and> term_m u = t \<and> term_m s \<le> t \<and> state_m u = follower \<and>
           \<not> already_voted_m u \<and> winned_votes_m u = 0)
        (arm_candidate_timer A Trans2F_waiting Trans2F_handler ?v)"
      by (rule okp_mono) (use v in \<open>auto simp: log_frame_def vote_frame_def\<close>)
  qed
qed

lemma trans2C_effect [frames]:
  "okp (\<lambda>u. log_frame s u \<and> term_m u = term_m s + 1 \<and> state_m u = candidate \<and> winned_votes_m u = 1 \<and>
           already_voted_m u = already_voted_m s)
     (trans2C P A s)"
proof -
  let ?c = "cancel_all_timers A s"
  have "okp (\<lambda>v. log_frame s v \<and> term_m v = term_m s + 1 \<and> already_voted_m v = already_voted_m s)
      (update_term (term_m ?c + 1) ?c)"
    by (simp add: update_term_def wp reset_both_rpc_lsn_def log_frame_def cancel_all_timers_def)
  then show ?thesis
    unfolding trans2C_def Let_def okp_seq
  proof (rule okp_mono)
    fix v assume v: "log_frame s v \<and> term_m v = term_m s + 1 \<and> already_voted_m v = already_voted_m s"
    let ?v = "v\<lparr>state_m := candidate, winned_votes_m := 1\<rparr>"
    have "okp (frame ?v) (seq (arm_candidate_timer A Trans2C_waiting Trans2C_handler ?v) (for_others (RV P A)))"
      by (intro okp_frame_seq frame_arm frame_for_others frame_RV)
    then show "okp (\<lambda>w. okp (\<lambda>u. log_frame s u \<and> term_m u = term_m s + 1 \<and> state_m u = candidate \<and>
          winned_votes_m u = 1 \<and> already_voted_m u = already_voted_m s) (for_others (RV P A) w))
        (arm_candidate_timer A Trans2C_waiting Trans2C_handler ?v)"
      unfolding okp_seq [symmetric]
      by (rule okp_mono) (use v in \<open>auto simp: log_frame_def vote_frame_def\<close>)
  qed
qed

section \<open>The invariant\<close>

text \<open>
  \<open>conf_inv\<close>: the members are distinct, this server is one of them, and the index map has one key
  per member. \<open>book_inv\<close>: what a primary records about a member never runs past its own log.
\<close>

definition conf_inv :: "'t RaftServer \<Rightarrow> bool" where
  "conf_inv s \<longleftrightarrow>
     distinct (configuration_m s) \<and> server_m s = (ip_m s, port_m s) \<and> (ip_m s, port_m s) \<in> set (configuration_m s) \<and>
     N_m s = int (length (configuration_m s)) \<and> majority_m s = N_m s div 2 + 1 \<and>
     distinct (map fst (Follower_saved_index_m s)) \<and>
     keys (Follower_saved_index_m s) = set (configuration_m s) \<and>
     keys (retry_timers_m s) = set (configuration_m s) \<and> rpc_inv (network_m s)"

definition log_inv :: "pb \<Rightarrow> mock_state_machine \<Rightarrow> 't RaftServer \<Rightarrow> bool" where
  "log_inv P m0 s \<longleftrightarrow>
     entries_inv (entries_m s) \<and>
     (\<forall>k < length (log_of (entries_m s)). en_index (log_of (entries_m s) ! k) = int k) \<and>
     -1 \<le> commit_index_m s \<and> commit_index_m s < Entries_size (entries_m s) \<and>
     (\<exists>fin. smc_inv P m0 fin (smc_m s))"

definition book_inv :: "'t RaftServer \<Rightarrow> bool" where
  "book_inv s \<longleftrightarrow>
     (\<forall>v. 0 \<le> at0 (nextIndex_m s) v) \<and>
     (state_m s = primary \<longrightarrow> (\<forall>v \<in> set (configuration_m s).
        at0 (nextIndex_m s) v \<le> Entries_size (entries_m s) \<and>
        -1 \<le> at0 (Follower_saved_index_m s) v \<and>
        at0 (Follower_saved_index_m s) v < Entries_size (entries_m s)))"

definition raft_inv :: "pb \<Rightarrow> mock_state_machine \<Rightarrow> 't RaftServer \<Rightarrow> bool" where
  "raft_inv P m0 s \<longleftrightarrow> conf_inv s \<and> log_inv P m0 s \<and> book_inv s"

abbreviation has_room :: "'t RaftServer \<Rightarrow> bool" where
  "has_room s \<equiv> entries_room (entries_m s)"

text \<open>The invariant only looks at the log frame and the role.\<close>

lemma raft_inv_frame:
  assumes "raft_inv P m0 s" "log_frame s t" "state_m t = primary \<longrightarrow> state_m s = primary"
  shows "raft_inv P m0 t"
  using assms by (auto simp: raft_inv_def conf_inv_def log_inv_def book_inv_def log_frame_def)

lemma okp_inv_frame:
  assumes "raft_inv P m0 s" "okp (frame s) m"
  shows "okp (raft_inv P m0) m"
  using assms(2) by (rule okp_mono) (rule raft_inv_frame [OF assms(1)], auto simp: vote_frame_def)

lemma trans2F_inv: "raft_inv P m0 s \<Longrightarrow> okp (raft_inv P m0) (trans2F A t s)"
  by (rule okp_mono [OF trans2F_effect]) (auto intro: raft_inv_frame)

lemma trans2C_inv: "raft_inv P m0 s \<Longrightarrow> okp (raft_inv P m0) (trans2C P A s)"
  by (rule okp_mono [OF trans2C_effect]) (auto intro: raft_inv_frame)

subsection \<open>Maps over the configuration\<close>

lemma at0_put_all: "at0 (put_all ks v m) k = (if k \<in> set ks then v else at0 m k)"
  by (induction ks arbitrary: m) (auto simp: put_all_def)

lemma keys_put_all: "keys (put_all ks v m) = set ks \<union> keys m"
  by (induction ks arbitrary: m) (auto simp: put_all_def)

lemma distinct_put_all: "distinct (map fst m) \<Longrightarrow> distinct (map fst (put_all ks v m))"
  by (induction ks arbitrary: m) (auto simp: put_all_def)

lemma trans2P_inv:
  assumes "raft_inv P m0 s"
  shows "okp (raft_inv P m0) (trans2P P A s)"
proof -
  have c: "frame s (cancel_all_timers A s)" by (rule frame_cancel_all_timers)
  let ?sz = "Entries_size (entries_m s)" and ?cf = "configuration_m s"
  let ?s1 = "(cancel_all_timers A s)\<lparr>state_m := primary,
      nextIndex_m := put_all ?cf ?sz (nextIndex_m (cancel_all_timers A s)),
      Follower_saved_index_m := put (server_m s) (?sz - 1)
        (put_all ?cf (-1) (Follower_saved_index_m (cancel_all_timers A s)))\<rparr>"
  have "0 \<le> ?sz" using assms entries.log_size_nonneg by (simp add: raft_inv_def log_inv_def)
  then have "raft_inv P m0 ?s1"
    using assms c
    by (auto simp: raft_inv_def conf_inv_def log_inv_def book_inv_def log_frame_def at0_put_all
        keys_put_all distinct_put_all)
  moreover have "trans2P P A s = for_others (AE P A) ?s1"
    using c by (simp add: trans2P_def Let_def log_frame_def)
  ultimately show ?thesis
    using okp_inv_frame [OF _ frame_for_others [OF frame_AE]] by simp
qed

subsection \<open>Commit index\<close>

lemma apply_frame: "okp (\<lambda>t. \<exists>c. t = s\<lparr>smc_m := c\<rparr>) (apply_to_state_machine n s)"
  by (auto simp: apply_to_state_machine_def okp_map_outcome intro!: okpI)

lemma apply_inv:
  assumes "raft_inv P m0 s" "n < Entries_size (entries_m s)"
  shows "okp (raft_inv P m0) (apply_to_state_machine n s)"
proof (rule okpI)
  fix t assume "apply_to_state_machine n s = Ok t"
  then obtain c where c: "update_commit_index_and_apply n (entries_m s) (smc_m s) = Ok c" "t = s\<lparr>smc_m := c\<rparr>"
    by (auto simp: apply_to_state_machine_def map_outcome_eq_Ok)
  obtain fin where "smc_inv P m0 fin (smc_m s)" using assms(1) by (auto simp: raft_inv_def log_inv_def)
  then have "smc_inv P m0 fin c"
    using assms c(1) smc_inv_commit unfolding raft_inv_def log_inv_def by blast
  with assms(1) show "raft_inv P m0 t"
    by (auto simp: c(2) raft_inv_def conf_inv_def log_inv_def book_inv_def)
qed

text \<open>What the follower's update does, on both its returning paths.\<close>

lemma follower_update_inv:
  assumes "conf_inv s" "book_inv s" "entries_inv (entries_m s)"
    "\<forall>k < length (log_of (entries_m s)). en_index (log_of (entries_m s) ! k) = int k"
    "-1 \<le> commit_index_m s" "\<exists>fin. smc_inv P m0 fin (smc_m s)"
  shows "okp (raft_inv P m0) (follower_update_commit_index n s)"
proof -
  let ?c = "if Entries_size (entries_m s) - 1 < n then Entries_size (entries_m s) - 1 else n"
  have "raft_inv P m0 (s\<lparr>commit_index_m := ?c\<rparr>)" if "commit_index_m s \<le> ?c"
    using assms that by (auto simp: raft_inv_def conf_inv_def log_inv_def book_inv_def)
  then show ?thesis
    by (auto simp: follower_update_commit_index_def Let_def wp intro!: apply_inv)
qed

lemma follower_update_inv': "raft_inv P m0 s \<Longrightarrow> okp (raft_inv P m0) (follower_update_commit_index n s)"
  by (rule follower_update_inv) (simp_all add: raft_inv_def log_inv_def)

text \<open>The primary's update: with one saved index per member, the new commit index is the
  \<open>majority_\<close>-th largest of them.\<close>

lemma temp_sort_members:
  assumes "conf_inv s"
  shows "temp_sort s = rev (sort (map (at0 (Follower_saved_index_m s)) (map fst (Follower_saved_index_m s))))"
    and "mset (map fst (Follower_saved_index_m s)) = mset (configuration_m s)"
    and "length (Follower_saved_index_m s) = length (configuration_m s)"
proof -
  have d: "distinct (map fst (Follower_saved_index_m s))" "distinct (configuration_m s)"
    "set (map fst (Follower_saved_index_m s)) = set (configuration_m s)"
    using assms by (simp_all add: conf_inv_def keys_def)
  then show m: "mset (map fst (Follower_saved_index_m s)) = mset (configuration_m s)"
    using set_eq_iff_mset_eq_distinct by blast
  have "length (map fst (Follower_saved_index_m s)) = length (configuration_m s)"
    using m by (metis size_mset)
  then show l: "length (Follower_saved_index_m s) = length (configuration_m s)" by simp
  show "temp_sort s = rev (sort (map (at0 (Follower_saved_index_m s)) (map fst (Follower_saved_index_m s))))"
    unfolding temp_sort_def Let_def map_snd_eq_at0 [OF d(1)] using l by simp
qed

lemma conf_inv_put_saved:
  assumes "conf_inv s" "length (put v i (Follower_saved_index_m s)) \<le> length (configuration_m s)"
  shows "v \<in> set (configuration_m s)" and "conf_inv (s\<lparr>Follower_saved_index_m := put v i (Follower_saved_index_m s)\<rparr>)"
proof -
  let ?m = "Follower_saved_index_m s"
  have d: "distinct (map fst (put v i ?m))" using assms(1) by (simp add: conf_inv_def)
  have k: "insert v (set (configuration_m s)) = set (map fst (put v i ?m))"
    using assms(1) keys_put [of v i ?m] by (simp add: conf_inv_def keys_def)
  have "card (insert v (set (configuration_m s))) \<le> length (configuration_m s)"
    unfolding k using distinct_card [OF d] assms(2) by simp
  moreover have "card (set (configuration_m s)) = length (configuration_m s)"
    using assms(1) by (simp add: conf_inv_def distinct_card)
  ultimately show v: "v \<in> set (configuration_m s)"
    by (cases "v \<in> set (configuration_m s)") simp_all
  with assms d show "conf_inv (s\<lparr>Follower_saved_index_m := put v i ?m\<rparr>)"
    by (auto simp: conf_inv_def)
qed

lemma commit_from_saved:
  assumes "conf_inv s" "1 \<le> majority_m s" "majority_m s \<le> int (length (configuration_m s))"
  shows "\<exists>v \<in> set (configuration_m s). temp_sort s ! nat (majority_m s - 1) = at0 (Follower_saved_index_m s) v"
proof -
  let ?xs = "map (at0 (Follower_saved_index_m s)) (map fst (Follower_saved_index_m s))"
  have "rev (sort ?xs) ! (nat (majority_m s) - 1) \<in> set ?xs"
    using assms temp_sort_members(3) [OF assms(1)] by (intro kth_largest(3)) simp_all
  moreover have "nat (majority_m s - 1) = nat (majority_m s) - 1" using assms by simp
  moreover have "set (map fst (Follower_saved_index_m s)) = set (configuration_m s)"
    using assms(1) by (simp add: conf_inv_def keys_def)
  ultimately show ?thesis
    unfolding temp_sort_members(1) [OF assms(1)] by auto
qed

lemma primary_update_inv:
  assumes "raft_inv P m0 s" "state_m s = primary" "-1 \<le> i" "i < Entries_size (entries_m s)"
  shows "okp (raft_inv P m0) (primary_update_commit_index v i s)"
proof -
  let ?s = "s\<lparr>Follower_saved_index_m := put v i (Follower_saved_index_m s)\<rparr>"
  have "okp (raft_inv P m0) (apply_to_state_machine c (?s\<lparr>commit_index_m := c\<rparr>))"
    if c: "c = temp_sort ?s ! nat (majority_m s - 1)"
      and l: "length (put v i (Follower_saved_index_m s)) \<le> length (configuration_m s)"
      and m: "1 \<le> majority_m s" "majority_m s \<le> int (length (configuration_m s))" for c
  proof -
    have ci: "conf_inv s" using assms(1) by (simp add: raft_inv_def)
    have v: "v \<in> set (configuration_m s)" and cs: "conf_inv ?s"
      using conf_inv_put_saved [OF ci l] by simp_all
    obtain w where w: "w \<in> set (configuration_m s)" "c = at0 (Follower_saved_index_m ?s) w"
      using commit_from_saved [OF cs] m c by auto
    have "raft_inv P m0 (?s\<lparr>commit_index_m := c\<rparr>)"
      using assms cs w by (auto simp: raft_inv_def conf_inv_def log_inv_def book_inv_def)
    moreover have "c < Entries_size (entries_m s)"
      using assms v w by (auto simp: raft_inv_def book_inv_def)
    ultimately show ?thesis by (intro apply_inv) simp_all
  qed
  then show ?thesis
    by (simp add: primary_update_commit_index_def Let_def wp)
qed

lemma primary_update_log_frame:
  "okp (\<lambda>t. configuration_m t = configuration_m s \<and> state_m t = state_m s \<and> entries_m t = entries_m s)
     (primary_update_commit_index v i s)"
  by (auto simp: primary_update_commit_index_def Let_def wp intro!: okp_mono [OF apply_frame])

subsection \<open>Message handlers\<close>

lemma make_resp_inv:
  "raft_inv P m0 s \<Longrightarrow> okp (raft_inv P m0) (make_resp_ae P A b v l e s)"
  "raft_inv P m0 s \<Longrightarrow> okp (raft_inv P m0) (make_resp_rv P A b v l s)"
  by (erule okp_inv_frame [OF _ frame_make_resp_ae], erule okp_inv_frame [OF _ frame_make_resp_rv])

lemma AE_inv: "raft_inv P m0 s \<Longrightarrow> okp (raft_inv P m0) (AE P A v s)"
  by (erule okp_inv_frame [OF _ frame_AE])

lemma RV_inv: "raft_inv P m0 s \<Longrightarrow> okp (raft_inv P m0) (RV P A v s)"
  by (erule okp_inv_frame [OF _ frame_RV])

lemma raft_inv_timers [simp]:
  "raft_inv P m0 (s\<lparr>candidate_timer_m := y\<rparr>) = raft_inv P m0 s"
  "raft_inv P m0 (s\<lparr>current_rpc_lsn_m := l\<rparr>) = raft_inv P m0 s"
  "raft_inv P m0 (s\<lparr>winned_votes_m := w\<rparr>) = raft_inv P m0 s"
  "raft_inv P m0 (s\<lparr>already_voted_m := b\<rparr>) = raft_inv P m0 s"
  by (simp_all add: raft_inv_def conf_inv_def log_inv_def book_inv_def)

lemma raft_inv_retry [simp]:
  "keys x = keys (retry_timers_m s) \<Longrightarrow> raft_inv P m0 (s\<lparr>retry_timers_m := x\<rparr>) = raft_inv P m0 s"
  by (simp add: raft_inv_def conf_inv_def log_inv_def book_inv_def)

lemma raft_inv_touch [simp]: "raft_inv P m0 (s\<lparr>nextIndex_m := touch v (nextIndex_m s)\<rparr>) = raft_inv P m0 s"
  by (simp add: raft_inv_def conf_inv_def log_inv_def book_inv_def)

lemma raft_inv_next:
  assumes "raft_inv P m0 s" "0 \<le> i" "state_m s = primary \<longrightarrow> v \<in> set (configuration_m s) \<longrightarrow> i \<le> Entries_size (entries_m s)"
  shows "raft_inv P m0 (s\<lparr>nextIndex_m := put v i (nextIndex_m s)\<rparr>)"
  using assms by (auto simp: raft_inv_def conf_inv_def log_inv_def book_inv_def)

text \<open>The log part of an accepted AppendEntries: cut at the position after \<open>prelog_index\<close> and extended
  by the entry.\<close>

lemma insert_entry_effect:
  assumes "entries_inv (entries_m s)" "has_room s" "0 \<le> i" "i \<le> Entries_size (entries_m s)"
  shows "okp (\<lambda>t. \<exists>es. t = s\<lparr>entries_m := es\<rparr> \<and> entries_inv es \<and>
             log_of es = take (nat i) (log_of (entries_m s)) @ [e])
           (insert_entry P i e s)"
  unfolding insert_entry_def okp_map_outcome
  by (rule okp_mono [OF entries.insert_log [OF assms]]) auto

lemma indexed_snoc:
  assumes "\<forall>k < length xs. en_index (xs ! k) = int k" "i \<le> length xs" "en_index e = int i"
  shows "\<forall>k < length (take i xs @ [e]). en_index ((take i xs @ [e]) ! k) = int k"
  using assms by (auto simp: nth_append less_Suc_eq)

lemma accept_ae_inv:
  assumes "raft_inv P m0 s" "has_room s" "state_m s = follower"
    "-1 \<le> ae_prelog_index ae" "ae_prelog_index ae < Entries_size (entries_m s)"
  shows "okp (raft_inv P m0) (accept_ae P A ae s)"
proof (cases "ae_entry ae")
  case Nil
  have "okp (raft_inv P m0) (seq (follower_update_commit_index (ae_commit_index ae) s)
      (make_resp_ae P A True v (ae_lsn ae) True))" for v
    unfolding okp_seq by (rule okp_mono [OF follower_update_inv' [OF assms(1)]]) (rule make_resp_inv)
  with Nil show ?thesis by (simp add: accept_ae_def Let_def wp)
next
  case (Cons e es)
  let ?i = "ae_prelog_index ae + 1"
  have inv: "entries_inv (entries_m s)" and sz: "Entries_size (entries_m s) = int (length (log_of (entries_m s)))"
    using assms(1) by (simp_all add: raft_inv_def log_inv_def entries.size_log)
  have "okp (raft_inv P m0) (seq (insert_entry P ?i e s) (\<lambda>s.
      seq (follower_update_commit_index (ae_commit_index ae) s) (make_resp_ae P A True v (ae_lsn ae) False)))"
    if e: "en_index e = ?i" for v
    unfolding okp_seq
  proof (rule okp_mono [OF insert_entry_effect [OF inv assms(2)]])
    show "0 \<le> ?i" "?i \<le> Entries_size (entries_m s)" using assms by simp_all
    fix t assume "\<exists>es. t = s\<lparr>entries_m := es\<rparr> \<and> entries_inv es \<and> log_of es = take (nat ?i) (log_of (entries_m s)) @ [e]"
    then obtain es where t: "t = s\<lparr>entries_m := es\<rparr>" "entries_inv es"
      "log_of es = take (nat ?i) (log_of (entries_m s)) @ [e]" by blast
    have "\<forall>k < length (log_of es). en_index (log_of es ! k) = int k"
      unfolding t(3) using assms sz e by (intro indexed_snoc) (auto simp: raft_inv_def log_inv_def)
    with t assms have "okp (raft_inv P m0) (follower_update_commit_index (ae_commit_index ae) t)"
      by (intro follower_update_inv) (auto simp: raft_inv_def log_inv_def conf_inv_def book_inv_def)
    then show "okp (\<lambda>s. okp (raft_inv P m0) (make_resp_ae P A True v (ae_lsn ae) False s))
        (follower_update_commit_index (ae_commit_index ae) t)"
      by (rule okp_mono) (rule make_resp_inv)
  qed
  with Cons show ?thesis by (simp add: accept_ae_def Let_def wp)
qed

lemma should_ignore_parts:
  "raft_inv P m0 (snd (should_ignore_remote_rpc v l s)) = raft_inv P m0 s"
  "entries_m (snd (should_ignore_remote_rpc v l s)) = entries_m s"
  "state_m (snd (should_ignore_remote_rpc v l s)) = state_m s"
  by (simp_all add: should_ignore_remote_rpc_def Let_def raft_inv_def conf_inv_def log_inv_def book_inv_def)

lemma Entries_get_nonneg: "Entries_get es i = Inr e \<Longrightarrow> 0 \<le> i \<and> i < Entries_size es"
  by (auto simp: Entries_get_def Entries_size_def split: if_splits)

lemma react2ae_inv:
  assumes "raft_inv P m0 s" "has_room s"
  shows "okp (raft_inv P m0) (react2ae P A ae s)"
proof -
  let ?v = "(ae_ip ae, ae_port ae)"
  let ?body = "\<lambda>s. let (ignore, s) = should_ignore_remote_rpc ?v (ae_lsn ae) s in
           if ignore then Ok s
           else if ae_prelog_index ae = -1 then
             (if ae_prelog_term ae \<noteq> -1 then Throw Bad_prelog_term s else accept_ae P A ae s)
           else if ae_prelog_index ae \<ge> Entries_size (entries_m s) then
             make_resp_ae P A False ?v (ae_lsn ae) (ae_entry ae = []) s
           else with_res (Entries_get (entries_m s) (ae_prelog_index ae)) s (\<lambda>prev_entry.
             if ae_prelog_term ae \<noteq> en_term prev_entry
             then make_resp_ae P A False ?v (ae_lsn ae) (ae_entry ae = []) s
             else accept_ae P A ae s)"
  have body: "okp (raft_inv P m0) (?body t)" if t: "raft_inv P m0 t" "has_room t" "state_m t = follower" for t
  proof -
    let ?u = "snd (should_ignore_remote_rpc ?v (ae_lsn ae) t)"
    have u: "raft_inv P m0 ?u" "has_room ?u" "state_m ?u = follower" "entries_m ?u = entries_m t"
      using t by (simp_all add: should_ignore_parts)
    have "0 \<le> Entries_size (entries_m t)"
      using t entries.log_size_nonneg by (simp add: raft_inv_def log_inv_def)
    then show ?thesis
      using u make_resp_inv(1) [OF u(1)] accept_ae_inv [OF u(1-3)]
      by (auto simp: split_def Let_def wp dest!: Entries_get_nonneg)
  qed
  have "okp (\<lambda>t. okp (raft_inv P m0) (?body t)) (trans2F A (ae_term ae) s)"
    by (rule okp_mono [OF trans2F_effect], rule body)
      (use assms in \<open>auto simp: log_frame_def intro: raft_inv_frame\<close>)
  then show ?thesis
    using make_resp_inv(1) [OF assms(1)] by (simp add: react2ae_def Let_def wp)
qed

lemma react2rv_inv:
  assumes "raft_inv P m0 s"
  shows "okp (raft_inv P m0) (react2rv P A rv s)"
proof -
  let ?v = "(rv_ip rv, rv_port rv)"
  have resp: "okp (raft_inv P m0) (make_resp_rv P A b ?v (rv_lsn rv) t)" if "raft_inv P m0 t" for b t
    using that by (rule make_resp_inv)
  have "okp (raft_inv P m0) (if rv_term rv > term_m s then trans2F A (rv_term rv) s else Ok s)"
    using assms by (simp add: wp trans2F_inv)
  then show ?thesis
    using resp [OF assms] unfolding react2rv_def Let_def okp_if okp_seq
    by (auto simp: split_def Let_def wp should_ignore_parts resp elim!: okp_mono)
qed

lemma primary_deal_inv:
  assumes "raft_inv P m0 s" "state_m s = primary"
  shows "okp (raft_inv P m0) (primary_deal_resp_ae_with_same_term P A v resp s)"
proof -
  let ?i = "at0 (nextIndex_m s) v"
  let ?s = "s\<lparr>current_rpc_lsn_m := touch v (current_rpc_lsn_m s), nextIndex_m := touch v (nextIndex_m s)\<rparr>"
  have nn: "0 \<le> ?i" using assms unfolding raft_inv_def book_inv_def by blast
  have s: "raft_inv P m0 ?s" "state_m ?s = primary" "entries_m ?s = entries_m s"
    using assms raft_inv_touch [where v = v and s = "s\<lparr>current_rpc_lsn_m := touch v (current_rpc_lsn_m s)\<rparr>"] by simp_all
  let ?re = "\<lambda>g t. case map_of (retry_timers_m t) v of None \<Rightarrow> Throw Null_deref t
      | Some x \<Rightarrow> AE P A v (t\<lparr>retry_timers_m := put v (snd (g x)) (retry_timers_m t)\<rparr>)"
  have resend: "okp (raft_inv P m0) (?re g t)" if "raft_inv P m0 t" for t and g :: "'a \<Rightarrow> nat \<times> 'a"
    using that by (simp add: AE_inv split: option.splits)
  have again: "okp (\<lambda>t. okp (raft_inv P m0) (?re g t)) m" if "okp (raft_inv P m0) m" for m and g :: "'a \<Rightarrow> nat \<times> 'a"
    using that by (rule okp_mono) (rule resend)
  have up1: "okp (raft_inv P m0) (primary_update_commit_index v (?i - 1) ?s)" if "?i \<le> Entries_size (entries_m s)"
    using s nn that by (intro primary_update_inv) simp_all
  have up0: "okp (raft_inv P m0) (primary_update_commit_index v (Entries_size (entries_m s) - 1) ?s)"
    if "?i = Entries_size (entries_m s)"
    using up1 that by simp
  have up2: "okp (raft_inv P m0) (primary_update_commit_index v ?i (?s\<lparr>nextIndex_m := put v (?i + 1) (nextIndex_m ?s)\<rparr>))"
    if "?i < Entries_size (entries_m s)"
    using s nn that by (intro primary_update_inv raft_inv_next) simp_all
  have "?i \<le> Entries_size (entries_m s)" if "v \<in> set (configuration_m s)"
    using assms that unfolding raft_inv_def book_inv_def by blast
  then have dn: "raft_inv P m0 (?s\<lparr>nextIndex_m := put v (?i - 1) (nextIndex_m ?s)\<rparr>)" if "?i \<noteq> 0"
    using s nn that by (intro raft_inv_next) auto
  have dnr: "okp (raft_inv P m0) (?re (cancel A) (?s\<lparr>nextIndex_m := put v (?i - 1) (nextIndex_m ?s)\<rparr>))" if "?i \<noteq> 0"
    by (rule resend [OF dn [OF that]])
  show ?thesis
    unfolding primary_deal_resp_ae_with_same_term_def Let_def okp_if okp_seq
    using assms(1) s(1) up0 again [OF up1, of "expires_at_min A"] again [OF up2, of "expires_at_min A"] dnr
    by (simp cong: option.case_cong)
qed

lemma candidate_deal_inv:
  assumes "raft_inv P m0 s"
  shows "okp (raft_inv P m0) (candidate_deal_resp_rv_with_same_term P A v resp s)"
proof -
  have "okp (raft_inv P m0) (trans2P P A (s\<lparr>current_rpc_lsn_m := l, winned_votes_m := w\<rparr>))" for l w
    using assms by (intro trans2P_inv) simp
  with assms show ?thesis
    by (simp add: candidate_deal_resp_rv_with_same_term_def Let_def wp split: option.splits)
qed

lemma react2resp_inv:
  assumes "raft_inv P m0 s"
  shows "okp (raft_inv P m0) (react2resp_ae P A rae s)" "okp (raft_inv P m0) (react2resp_rv P A rrv s)"
  using assms
  by (simp_all add: react2resp_ae_def react2resp_rv_def Let_def wp trans2F_inv primary_deal_inv candidate_deal_inv)

lemma append_client_inv:
  assumes "raft_inv P m0 s" "has_room s"
  shows "okp (raft_inv P m0) (append_client_apply_to_entries P c str s)"
proof -
  let ?n = "Entries_size (entries_m s)"
  let ?e = "\<lparr>en_term = term_m s, en_index = ?n, en_msg = str\<rparr>"
  let ?s = "s\<lparr>entryIndex_to_socketAddr_map_m := put ?n c (entryIndex_to_socketAddr_map_m s)\<rparr>"
  have inv: "entries_inv (entries_m s)" using assms by (simp add: raft_inv_def log_inv_def)
  have n: "?n = int (length (log_of (entries_m s)))" using inv by (rule entries.size_log)
  have "okp (\<lambda>t. raft_inv P m0 (t\<lparr>Follower_saved_index_m := put (server_m t) ?n (Follower_saved_index_m t)\<rparr>))
      (insert_entry P ?n ?e ?s)"
  proof (rule okp_mono [OF insert_entry_effect])
    show "entries_inv (entries_m ?s)" "has_room ?s" "0 \<le> ?n" "?n \<le> Entries_size (entries_m ?s)"
      using inv assms n by simp_all
    fix t assume "\<exists>es. t = ?s\<lparr>entries_m := es\<rparr> \<and> entries_inv es \<and> log_of es = take (nat ?n) (log_of (entries_m ?s)) @ [?e]"
    then obtain es where t: "t = ?s\<lparr>entries_m := es\<rparr>" "entries_inv es" "log_of es = log_of (entries_m s) @ [?e]"
      using n by auto
    have sz: "Entries_size es = ?n + 1" using t(2,3) n entries.size_log by simp
    have "\<forall>k < length (log_of es). en_index (log_of es ! k) = int k"
      using indexed_snoc [of "log_of (entries_m s)" "length (log_of (entries_m s))" ?e] assms n
      by (simp add: t(3) raft_inv_def log_inv_def)
    then show "raft_inv P m0 (t\<lparr>Follower_saved_index_m := put (server_m t) ?n (Follower_saved_index_m t)\<rparr>)"
      using assms(1) t(2) sz n
      by (auto simp: t(1) raft_inv_def conf_inv_def log_inv_def book_inv_def)
  qed
  then show ?thesis by (simp add: append_client_apply_to_entries_def Let_def wp)
qed

lemma query_inv:
  assumes "raft_inv P m0 s"
  shows "okp (raft_inv P m0) (get_from_state_machine c q s)"
proof (rule okpI)
  fix t assume "get_from_state_machine c q s = Ok t"
  then obtain d where d: "smc_get_from_state_machine q c (smc_m s) = Ok d" "t = s\<lparr>smc_m := d\<rparr>"
    by (auto simp: get_from_state_machine_def map_outcome_eq_Ok)
  obtain fin where "smc_inv P m0 fin (smc_m s)" using assms by (auto simp: raft_inv_def log_inv_def)
  then have "smc_inv P m0 fin d" using d(1) by (rule smc_inv_query)
  with assms show "raft_inv P m0 t"
    by (auto simp: d(2) raft_inv_def conf_inv_def log_inv_def book_inv_def)
qed

lemma net_call_inv: "raft_inv P m0 s \<Longrightarrow> okp (raft_inv P m0) (net_call P A ty v m s)"
  by (erule okp_inv_frame [OF _ frame_net_call])

lemma incoming_inv:
  assumes "raft_inv P m0 s" "has_room s"
  shows "okp (raft_inv P m0) (reactToIncomingMsg P A ty msg peer s)"
  using assms
  by (simp add: reactToIncomingMsg_def wp react2ae_inv react2rv_inv react2resp_inv append_client_inv query_inv)

lemma timer_inv:
  assumes "raft_inv P m0 s"
  shows "okp (raft_inv P m0) (timer_handler P A h err s)"
  using assms
  by (cases h) (simp_all add: run_handler_def trans2F_handler_def trans2C_handler_def AE_retry_handler_def
      RV_retry_handler_def wp trans2C_inv AE_inv RV_inv split: error_code.splits option.splits)

theorem server_step_inv:
  assumes "raft_inv P m0 s" "has_room s"
  shows "okp (raft_inv P m0) (server_step P A ev s)"
  using assms
  by (cases ev) (auto simp: incoming_inv timer_inv write_resp_apply_call_def write_resp_query_call_def
      wp net_call_inv split: post.splits option.splits)

end
