(* ===== verification/Raft_Sends.thy ===== *)
theory Raft_Sends
  imports Raft_Server_Inv
begin

text \<open>
  What the server puts on the network, and when it is sure to: \<open>sent s t ms\<close> says that between two
  states exactly the messages \<open>ms\<close> were handed to the message layer, in this order. With the laws of
  asio's timers and addresses asio accepts, the role changes run to their end: none of their
  \<open>throw_line\<close>s is reached.
\<close>

section \<open>Messages sent\<close>

definition sent :: "'t RaftServer \<Rightarrow> 't RaftServer \<Rightarrow> (endpoint \<times> string) list \<Rightarrow> bool" where
  "sent s t ms \<longleftrightarrow> call_extends (network_m s) (network_m t) \<and> calls (network_m s) (network_m t) = ms \<and>
     (rpc_inv (network_m s) \<longrightarrow> rpc_inv (network_m t))"

lemma sent_same: "network_m t = network_m s \<Longrightarrow> sent s t []"
  by (auto simp: sent_def call_extends_def calls_def List.map_filter_def)

lemma sent_trans: "sent s t ms \<Longrightarrow> sent t u ns \<Longrightarrow> sent s u (ms @ ns)"
  using calls_trans unfolding sent_def by blast

lemma sent_cong:
  "network_m s' = network_m s \<Longrightarrow> network_m t' = network_m t \<Longrightarrow> sent s' t' ms = sent s t ms"
  by (simp add: sent_def)

lemma net_call_sends:
  assumes "rpc_inv (network_m s)"
  shows "okp (\<lambda>t. sent s t [(v, wire (ty, m))] \<and> (\<exists>n. t = s\<lparr>network_m := n\<rparr>)) (net_call P A ty v m s)"
  unfolding net_call_def okp_map_outcome
  by (rule okp_mono [OF make_rpc_call_ok [OF assms]]) (auto simp: sent_def)

lemma make_resp_sends:
  assumes "rpc_inv (network_m s)"
  shows "okp (\<lambda>t. sent s t [(v, wire (RESP_VOTE, ser_resp_rv P \<lparr>rrv_ok = b, rrv_term = term_m s, rrv_lsn = l,
             rrv_ip = ip_m s, rrv_port = port_m s\<rparr>))] \<and> (\<exists>n. t = s\<lparr>network_m := n\<rparr>))
           (make_resp_rv P A b v l s)"
    and "okp (\<lambda>t. sent s t [(v, wire (RESP_APPEND, ser_resp_ae P \<lparr>rae_ok = b, rae_term = term_m s, rae_lsn = l,
             rae_ip = ip_m s, rae_port = port_m s, rae_is_empty_ae = e\<rparr>))] \<and> (\<exists>n. t = s\<lparr>network_m := n\<rparr>))
           (make_resp_ae P A b v l e s)"
  unfolding make_resp_rv_def make_resp_ae_def by (rule net_call_sends [OF assms])+

lemma arm_retry_keeps:
  assumes "\<And>t. okp (\<lambda>u. u = t) (busy t)"
  shows "okp (\<lambda>t. network_m t = network_m s \<and> current_rpc_lsn_m t = current_rpc_lsn_m s)
           (arm_retry_timer A ex h busy v s)"
  unfolding arm_retry_timer_def call_rand_def split_def Let_def fst_conv snd_conv
  by (auto simp: wp intro!: okp_mono [OF assms] split: option.splits)

text \<open>The AppendEntries and RequestVote a peer would be sent now.\<close>

definition ae_to :: "'t RaftServer \<Rightarrow> endpoint \<Rightarrow> AppendEntryRpc" where
  "ae_to s v = projr (fst (build_rpc_ae v s))"

definition rv_to :: "'t RaftServer \<Rightarrow> endpoint \<Rightarrow> RequestVoteRpc" where
  "rv_to s v = fst (build_rpc_rv v s)"

text \<open>They depend on the log frame, the term and the peer's own sequence number only.\<close>

lemma build_ae_cong:
  assumes "log_frame s t" "term_m t = term_m s" "at0 (current_rpc_lsn_m t) v = at0 (current_rpc_lsn_m s) v"
  shows "fst (build_rpc_ae v t) = fst (build_rpc_ae v s)"
  using assms by (simp add: build_rpc_ae_def log_frame_def Let_def cong: sum.case_cong)

lemmas ae_to_cong = arg_cong [where f = projr, OF build_ae_cong, folded ae_to_def]

lemma rv_to_cong:
  assumes "log_frame s t" "term_m t = term_m s" "at0 (current_rpc_lsn_m t) v = at0 (current_rpc_lsn_m s) v"
  shows "rv_to t v = rv_to s v"
  using assms by (simp add: rv_to_def build_rpc_rv_def log_frame_def Let_def)

lemma build_keeps:
  "network_m (snd (build_rpc_ae v s)) = network_m s"
  "network_m (snd (build_rpc_rv v s)) = network_m s"
  "w \<noteq> v \<Longrightarrow> at0 (current_rpc_lsn_m (snd (build_rpc_ae v s))) w = at0 (current_rpc_lsn_m s) w"
  "w \<noteq> v \<Longrightarrow> at0 (current_rpc_lsn_m (snd (build_rpc_rv v s))) w = at0 (current_rpc_lsn_m s) w"
  "retry_timers_m (snd (build_rpc_ae v s)) = retry_timers_m s"
  "retry_timers_m (snd (build_rpc_rv v s)) = retry_timers_m s"
  by (simp_all add: build_rpc_ae_def build_rpc_rv_def Let_def)

lemma send_arm_sends:
  assumes "rpc_inv (network_m s)" "\<And>t. okp (\<lambda>u. u = t) (busy t)"
  shows "okp (\<lambda>t. sent s t [(v, wire (ty, m))] \<and> current_rpc_lsn_m t = current_rpc_lsn_m s)
           (seq (net_call P A ty v m s) (arm_retry_timer A ex h busy v))"
  unfolding okp_seq
proof (rule okp_mono [OF net_call_sends [OF assms(1)]])
  fix t assume "sent s t [(v, wire (ty, m))] \<and> (\<exists>n. t = s\<lparr>network_m := n\<rparr>)"
  then show "okp (\<lambda>u. sent s u [(v, wire (ty, m))] \<and> current_rpc_lsn_m u = current_rpc_lsn_m s)
      (arm_retry_timer A ex h busy v t)"
    by (intro okp_mono [OF arm_retry_keeps [OF assms(2)]]) (auto simp: sent_def)
qed

lemma AE_sends:
  assumes "rpc_inv (network_m s)"
  shows "okp (\<lambda>t. sent s t [(v, wire (APPEND_ENTRY, ser_ae P (ae_to s v)))] \<and>
             (\<forall>w. w \<noteq> v \<longrightarrow> at0 (current_rpc_lsn_m t) w = at0 (current_rpc_lsn_m s) w))
           (AE P A v s)"
proof -
  let ?s = "snd (build_rpc_ae v s)"
  have send: "okp (\<lambda>t. sent ?s t [(v, wire (APPEND_ENTRY, ser_ae P ae))] \<and> current_rpc_lsn_m t = current_rpc_lsn_m ?s)
      (seq (net_call P A APPEND_ENTRY v (ser_ae P ae) ?s)
        (arm_retry_timer A random_ae_retry_expire (AE_handler v) (Throw AE_waiting) v))" for ae
    using assms by (intro send_arm_sends) (simp_all add: build_keeps)
  show ?thesis
    unfolding AE_def split_def Let_def okp_with_res
    by (intro allI impI, rule okp_mono [OF send]) (auto simp: ae_to_def sent_def build_keeps)
qed

lemma AE_lsn:
  assumes "rpc_inv (network_m s)"
  shows "okp (\<lambda>t. at0 (current_rpc_lsn_m t) v = at0 (current_rpc_lsn_m s) v + 1) (AE P A v s)"
proof -
  let ?s = "snd (build_rpc_ae v s)"
  have "at0 (current_rpc_lsn_m ?s) v = at0 (current_rpc_lsn_m s) v + 1" by (simp add: build_rpc_ae_def Let_def)
  then have "okp (\<lambda>t. at0 (current_rpc_lsn_m t) v = at0 (current_rpc_lsn_m s) v + 1)
      (seq (net_call P A APPEND_ENTRY v (ser_ae P ae) ?s)
        (arm_retry_timer A random_ae_retry_expire (AE_handler v) (Throw AE_waiting) v))" for ae
    using assms by (intro okp_mono [OF send_arm_sends]) (simp_all add: build_keeps)
  then show ?thesis
    unfolding AE_def split_def Let_def okp_with_res by blast
qed

lemma RV_sends:
  assumes "rpc_inv (network_m s)"
  shows "okp (\<lambda>t. sent s t [(v, wire (REQUEST_VOTE, ser_rv P (rv_to s v)))] \<and>
             (\<forall>w. w \<noteq> v \<longrightarrow> at0 (current_rpc_lsn_m t) w = at0 (current_rpc_lsn_m s) w))
           (RV P A v s)"
proof -
  let ?s = "snd (build_rpc_rv v s)"
  have "okp (\<lambda>t. sent ?s t [(v, wire (REQUEST_VOTE, ser_rv P rv))] \<and> current_rpc_lsn_m t = current_rpc_lsn_m ?s)
      (seq (net_call P A REQUEST_VOTE v (ser_rv P rv) ?s)
        (arm_retry_timer A random_rv_retry_expire (RV_handler v) Ok v))" for rv
    using assms by (intro send_arm_sends) (simp_all add: build_keeps)
  then show ?thesis
    unfolding RV_def split_def Let_def rv_to_def
    by (rule okp_mono) (auto simp: sent_def build_keeps)
qed

section \<open>Rounds of messages\<close>

text \<open>A loop over the other members sends each of them the message computed for it at the start, in
  the order of the configuration.\<close>

abbreviation others :: "'t RaftServer \<Rightarrow> endpoint list" where
  "others s \<equiv> filter (\<lambda>v. port_of v \<noteq> port_m s) (configuration_m s)"

lemma for_each_sends:
  assumes f: "\<And>v t. rpc_inv (network_m t) \<Longrightarrow>
      okp (\<lambda>u. sent t u [(v, msg v t)] \<and> port_m u = port_m t \<and> (\<forall>w. w \<noteq> v \<longrightarrow> msg w u = msg w t)) (f v t)"
    and "distinct xs" "rpc_inv (network_m t)"
  shows "okp (\<lambda>u. sent t u (map (\<lambda>v. (v, msg v t)) (filter (\<lambda>v. port_of v \<noteq> port_m t) xs)))
           (for_each xs (\<lambda>v s. if port_of v \<noteq> port_m s then f v s else Ok s) t)"
  using assms(2,3)
proof (induction xs arbitrary: t)
  case Nil
  then show ?case by (simp add: sent_same)
next
  case (Cons x xs)
  show ?case
  proof (cases "port_of x \<noteq> port_m t")
    case False
    with Cons show ?thesis by simp
  next
    case True
    have "okp (\<lambda>u. okp (\<lambda>w. sent t w ((x, msg x t) # map (\<lambda>v. (v, msg v t)) (filter (\<lambda>v. port_of v \<noteq> port_m t) xs)))
        (for_each xs (\<lambda>v s. if port_of v \<noteq> port_m s then f v s else Ok s) u)) (f x t)"
    proof (rule okp_mono [OF f [OF Cons.prems(2)]])
      fix u assume u: "sent t u [(x, msg x t)] \<and> port_m u = port_m t \<and> (\<forall>w. w \<noteq> x \<longrightarrow> msg w u = msg w t)"
      then have i: "rpc_inv (network_m u)" using Cons.prems(2) by (simp add: sent_def)
      have m: "map (\<lambda>v. (v, msg v u)) (filter (\<lambda>v. port_of v \<noteq> port_m u) xs) =
          map (\<lambda>v. (v, msg v t)) (filter (\<lambda>v. port_of v \<noteq> port_m t) xs)"
        using u Cons.prems(1) by auto
      show "okp (\<lambda>w. sent t w ((x, msg x t) # map (\<lambda>v. (v, msg v t)) (filter (\<lambda>v. port_of v \<noteq> port_m t) xs)))
          (for_each xs (\<lambda>v s. if port_of v \<noteq> port_m s then f v s else Ok s) u)"
      proof (rule okp_mono [OF Cons.IH [OF _ i]])
        show "distinct xs" using Cons.prems(1) by simp
        fix w assume "sent u w (map (\<lambda>v. (v, msg v u)) (filter (\<lambda>v. port_of v \<noteq> port_m u) xs))"
        from sent_trans [OF conjunct1 [OF u] this]
        show "sent t w ((x, msg x t) # map (\<lambda>v. (v, msg v t)) (filter (\<lambda>v. port_of v \<noteq> port_m t) xs))"
          unfolding m by simp
      qed
    qed
    with True show ?thesis by (simp add: wp)
  qed
qed

lemma frame_port: "log_frame t u \<Longrightarrow> port_m u = port_m t"
  by (simp add: log_frame_def)

lemma frame_term: "vote_frame t u \<Longrightarrow> term_m u = term_m t"
  by (simp add: vote_frame_def)

lemma all_RV_sends:
  assumes "rpc_inv (network_m s)" "distinct (configuration_m s)"
  shows "okp (\<lambda>u. sent s u (map (\<lambda>v. (v, wire (REQUEST_VOTE, ser_rv P (rv_to s v)))) (others s)))
           (for_others (RV P A) s)"
  unfolding for_others_def
proof (rule for_each_sends [where msg = "\<lambda>v t. wire (REQUEST_VOTE, ser_rv P (rv_to t v))", OF _ assms(2,1)])
  fix v and t :: "'a RaftServer" assume "rpc_inv (network_m t)"
  from conjI [OF RV_sends [OF this, of v P A] frame_RV [of t P A v], folded okp_conj]
  show "okp (\<lambda>u. sent t u [(v, wire (REQUEST_VOTE, ser_rv P (rv_to t v)))] \<and> port_m u = port_m t \<and>
      (\<forall>w. w \<noteq> v \<longrightarrow> wire (REQUEST_VOTE, ser_rv P (rv_to u w)) = wire (REQUEST_VOTE, ser_rv P (rv_to t w))))
      (RV P A v t)"
    by (rule okp_mono) (metis frame_port frame_term rv_to_cong)
qed

lemma all_AE_sends:
  assumes "rpc_inv (network_m s)" "distinct (configuration_m s)"
  shows "okp (\<lambda>u. sent s u (map (\<lambda>v. (v, wire (APPEND_ENTRY, ser_ae P (ae_to s v)))) (others s)))
           (for_others (AE P A) s)"
  unfolding for_others_def
proof (rule for_each_sends [where msg = "\<lambda>v t. wire (APPEND_ENTRY, ser_ae P (ae_to t v))", OF _ assms(2,1)])
  fix v and t :: "'a RaftServer" assume "rpc_inv (network_m t)"
  from conjI [OF AE_sends [OF this, of v P A] frame_AE [of t P A v], folded okp_conj]
  show "okp (\<lambda>u. sent t u [(v, wire (APPEND_ENTRY, ser_ae P (ae_to t v)))] \<and> port_m u = port_m t \<and>
      (\<forall>w. w \<noteq> v \<longrightarrow> wire (APPEND_ENTRY, ser_ae P (ae_to u w)) = wire (APPEND_ENTRY, ser_ae P (ae_to t w))))
      (AE P A v t)"
    by (rule okp_mono) (metis frame_port frame_term ae_to_cong)
qed

section \<open>Role changes: what is sent\<close>

lemma arm_keeps:
  "okp (\<lambda>u. network_m u = network_m s \<and> follower_rpc_lsn_m u = follower_rpc_lsn_m s \<and>
           current_rpc_lsn_m u = current_rpc_lsn_m s \<and> retry_timers_m u = retry_timers_m s)
     (arm_candidate_timer A e h s)"
  by (simp add: arm_candidate_timer_def call_rand_def split_def Let_def)

lemma trans2F_keeps:
  "okp (\<lambda>u. network_m u = network_m s \<and>
           follower_rpc_lsn_m u = (if term_m s < t then put_all (configuration_m s) (-1) (follower_rpc_lsn_m s)
                                   else follower_rpc_lsn_m s))
     (trans2F A t s)"
proof -
  have arm: "okp (\<lambda>u. network_m u = n \<and> follower_rpc_lsn_m u = l) (arm_candidate_timer A e h u)"
    if "network_m u = n" "follower_rpc_lsn_m u = l" for e h u n l
    by (rule okp_mono [OF arm_keeps]) (use that in simp)
  show ?thesis
    unfolding trans2F_def Let_def okp_seq
    by (auto simp: update_term_def wp reset_both_rpc_lsn_def cancel_all_timers_def arm)
qed

text \<open>The sequence number a request of term \<open>T\<close> from \<open>v\<close> is compared with: a new term resets those
  of the members. Afterwards the largest one seen is recorded.\<close>

definition seen_lsn :: "'t RaftServer \<Rightarrow> int \<Rightarrow> endpoint \<Rightarrow> int" where
  "seen_lsn s T v = (if term_m s < T \<and> v \<in> set (configuration_m s) then -1 else at0 (follower_rpc_lsn_m s) v)"

definition lsn_after :: "'t RaftServer \<Rightarrow> int \<Rightarrow> endpoint \<Rightarrow> int \<Rightarrow> endpoint \<Rightarrow> int" where
  "lsn_after s T v l w = (if w = v then max (seen_lsn s T v) l else seen_lsn s T w)"

lemma should_ignore_lsn:
  assumes "should_ignore_remote_rpc v l s = (ign, u)" "term_m s = T"
  shows "ign \<longleftrightarrow> l \<le> seen_lsn s T v" and "at0 (follower_rpc_lsn_m u) = lsn_after s T v l"
  using assms by (auto simp: should_ignore_remote_rpc_def seen_lsn_def lsn_after_def Let_def fun_eq_iff split: if_splits)

lemma lsn_recorded:
  assumes "term_m s = T"
  shows "\<not> l \<le> seen_lsn s T v \<Longrightarrow> at0 (put v l (touch v (follower_rpc_lsn_m s))) = lsn_after s T v l"
    and "l \<le> seen_lsn s T v \<Longrightarrow> at0 (follower_rpc_lsn_m s) = lsn_after s T v l"
  using assms by (auto simp: seen_lsn_def lsn_after_def fun_eq_iff)

lemma lsn_after_cong: "(\<And>w. seen_lsn u T w = seen_lsn s T w) \<Longrightarrow> lsn_after u T v l = lsn_after s T v l"
  by (simp add: lsn_after_def fun_eq_iff)

text \<open>The request of a new candidate: its new term, the position of its last entry, and sequence
  number 0 for every member, since a new term resets them.\<close>

definition candidate_rv :: "'t RaftServer \<Rightarrow> RequestVoteRpc" where
  "candidate_rv s = \<lparr>rv_term = term_m s + 1, rv_latest_index = Entries_size (entries_m s) - 1,
     rv_latest_term = 0, rv_lsn = 0, rv_ip = ip_m s, rv_port = port_m s\<rparr>"

definition candidate_state :: "'t asio \<Rightarrow> 't RaftServer \<Rightarrow> 't RaftServer" where
  "candidate_state A s = (reset_both_rpc_lsn (cancel_all_timers A s))\<lparr>term_m := term_m s + 1,
     state_m := candidate, winned_votes_m := 1\<rparr>"

lemma trans2C_eq:
  "trans2C P A s = seq (arm_candidate_timer A Trans2C_waiting Trans2C_handler (candidate_state A s))
                       (for_others (RV P A))"
  by (simp add: trans2C_def update_term_def candidate_state_def cancel_all_timers_def reset_both_rpc_lsn_def)

lemma candidate_state_frame:
  "log_frame s (candidate_state A s)" "network_m (candidate_state A s) = network_m s"
  by (simp_all add: candidate_state_def cancel_all_timers_def reset_both_rpc_lsn_def log_frame_def)

lemma candidate_state_rv:
  assumes "log_frame (candidate_state A s) t" "term_m t = term_m s + 1"
    "current_rpc_lsn_m t = current_rpc_lsn_m (candidate_state A s)" "v \<in> set (configuration_m s)"
  shows "rv_to t v = candidate_rv s"
  using assms candidate_state_frame(1) [of s A]
  by (simp add: rv_to_def candidate_rv_def build_rpc_rv_def log_frame_def candidate_state_def
      reset_both_rpc_lsn_def cancel_all_timers_def at0_put_all Let_def)

lemma armed_candidate:
  "okp (\<lambda>t. frame (candidate_state A s) t \<and> network_m t = network_m s \<and>
           current_rpc_lsn_m t = current_rpc_lsn_m (candidate_state A s) \<and>
           retry_timers_m t = retry_timers_m (candidate_state A s))
     (arm_candidate_timer A e h (candidate_state A s))"
  using conjI [OF frame_arm [of "candidate_state A s" A e h] arm_keeps [of "candidate_state A s" A e h], folded okp_conj]
  by (rule okp_mono) (simp add: candidate_state_frame)

lemma trans2C_sends:
  assumes "rpc_inv (network_m s)" "distinct (configuration_m s)"
  shows "okp (\<lambda>u. sent s u (map (\<lambda>v. (v, wire (REQUEST_VOTE, ser_rv P (candidate_rv s)))) (others s)))
           (trans2C P A s)"
  unfolding trans2C_eq okp_seq
proof (rule okp_mono [OF armed_candidate])
  fix t assume t: "frame (candidate_state A s) t \<and> network_m t = network_m s \<and>
           current_rpc_lsn_m t = current_rpc_lsn_m (candidate_state A s) \<and>
           retry_timers_m t = retry_timers_m (candidate_state A s)"
  have l: "log_frame s t" using t candidate_state_frame(1) log_frame_trans by blast
  have "term_m t = term_m s + 1" using t by (simp add: vote_frame_def candidate_state_def)
  then have m: "map (\<lambda>v. (v, wire (REQUEST_VOTE, ser_rv P (rv_to t v)))) (others t) =
      map (\<lambda>v. (v, wire (REQUEST_VOTE, ser_rv P (candidate_rv s)))) (others s)"
    using t l candidate_state_rv [of A s t] by (auto simp: log_frame_def)
  have "okp (\<lambda>u. sent t u (map (\<lambda>v. (v, wire (REQUEST_VOTE, ser_rv P (rv_to t v)))) (others t)))
      (for_others (RV P A) t)"
    using assms t l by (intro all_RV_sends) (simp_all add: log_frame_def)
  then show "okp (\<lambda>u. sent s u (map (\<lambda>v. (v, wire (REQUEST_VOTE, ser_rv P (candidate_rv s)))) (others s)))
      (for_others (RV P A) t)"
    unfolding m using t by (simp add: sent_def)
qed

text \<open>The first AppendEntries of a new primary: no entry, the last entry of its log as the previous
  one.\<close>

definition heartbeat :: "'t RaftServer \<Rightarrow> endpoint \<Rightarrow> AppendEntryRpc" where
  "heartbeat s v = \<lparr>ae_term = term_m s,
     ae_prelog_term = (if log_of (entries_m s) = [] then -1 else en_term (last (log_of (entries_m s)))),
     ae_commit_index = commit_index_m s, ae_lsn = at0 (current_rpc_lsn_m s) v,
     ae_ip = ip_m s, ae_port = port_m s, ae_entry = [], ae_prelog_index = Entries_size (entries_m s) - 1\<rparr>"

definition primary_state :: "'t asio \<Rightarrow> 't RaftServer \<Rightarrow> 't RaftServer" where
  "primary_state A s = (cancel_all_timers A s)\<lparr>state_m := primary,
     nextIndex_m := put_all (configuration_m s) (Entries_size (entries_m s)) (nextIndex_m s),
     Follower_saved_index_m := put (server_m s) (Entries_size (entries_m s) - 1)
       (put_all (configuration_m s) (-1) (Follower_saved_index_m s))\<rparr>"

lemma trans2P_eq: "trans2P P A s = for_others (AE P A) (primary_state A s)"
  by (simp add: trans2P_def primary_state_def cancel_all_timers_def Let_def)

lemma last_entry:
  assumes "entries_inv es"
  shows "0 < Entries_size es \<longleftrightarrow> log_of es \<noteq> []"
    and "log_of es \<noteq> [] \<Longrightarrow> Entries_get es (Entries_size es - 1) = Inr (last (log_of es))"
proof -
  have n: "Entries_size es = int (length (log_of es))" using assms by (rule entries.size_log)
  then show "0 < Entries_size es \<longleftrightarrow> log_of es \<noteq> []" by simp
  assume ne: "log_of es \<noteq> []"
  then have "nat (int (length (log_of es)) - 1) = length (log_of es) - 1" by (cases "log_of es") simp_all
  with ne n entries.get_log [OF assms, of "Entries_size es - 1"]
  show "Entries_get es (Entries_size es - 1) = Inr (last (log_of es))"
    by (simp add: last_conv_nth)
qed

lemma primary_state_ae:
  assumes "entries_inv (entries_m s)" "v \<in> set (configuration_m s)"
  shows "fst (build_rpc_ae v (primary_state A s)) = Inr (heartbeat s v)"
  using assms last_entry [OF assms(1)]
  by (auto simp: heartbeat_def build_rpc_ae_def primary_state_def cancel_all_timers_def at0_put_all Let_def)

lemma trans2P_sends:
  assumes "rpc_inv (network_m s)" "distinct (configuration_m s)" "entries_inv (entries_m s)"
  shows "okp (\<lambda>u. sent s u (map (\<lambda>v. (v, wire (APPEND_ENTRY, ser_ae P (heartbeat s v)))) (others s)))
           (trans2P P A s)"
proof -
  let ?s = "primary_state A s"
  have p: "network_m ?s = network_m s" "configuration_m ?s = configuration_m s" "port_m ?s = port_m s"
    by (simp_all add: primary_state_def cancel_all_timers_def)
  have m: "map (\<lambda>v. (v, wire (APPEND_ENTRY, ser_ae P (ae_to ?s v)))) (others ?s) =
      map (\<lambda>v. (v, wire (APPEND_ENTRY, ser_ae P (heartbeat s v)))) (others s)"
    using primary_state_ae [OF assms(3)] by (auto simp: ae_to_def p)
  have "okp (\<lambda>u. sent ?s u (map (\<lambda>v. (v, wire (APPEND_ENTRY, ser_ae P (ae_to ?s v)))) (others ?s)))
      (for_others (AE P A) ?s)"
    using assms(1,2) by (intro all_AE_sends) (simp_all add: p)
  then show ?thesis unfolding trans2P_eq m by (simp add: p(1) sent_def)
qed

section \<open>Role changes always complete\<close>

text \<open>No wait is pending on a timer that has just been reset.\<close>

lemma map_of_map_snd: "map_of (map (\<lambda>(k, t). (k, f t)) m) v = map_option f (map_of m v)"
  by (induction m) auto

lemma cancel_all_pending:
  assumes "asio_law A pend"
  shows "pend (candidate_timer_m (cancel_all_timers A s)) = 0"
    and "map_of (retry_timers_m (cancel_all_timers A s)) v = Some t \<Longrightarrow> pend t = 0"
  using assms by (auto simp: cancel_all_timers_def map_of_map_snd asio_lawD)

lemma arm_total:
  assumes "asio_law A pend" "pend (candidate_timer_m s) = 0"
  shows "surely (\<lambda>u. True) (arm_candidate_timer A e h s)"
  using assms by (simp add: arm_candidate_timer_def call_rand_def split_def Let_def asio_lawD)

lemma trans2F_total:
  assumes "asio_law A pend" "term_m s \<le> t"
  shows "surely (\<lambda>u. True) (trans2F A t s)"
proof -
  have c: "pend (candidate_timer_m (cancel_all_timers A s)) = 0" using assms(1) by (rule cancel_all_pending)
  have "surely (\<lambda>u. True) (arm_candidate_timer A e h u)"
    if "candidate_timer_m u = candidate_timer_m (cancel_all_timers A s)" for e h u
    using that c by (intro arm_total [OF assms(1)]) simp
  moreover have "term_m (cancel_all_timers A s) = term_m s" by (simp add: cancel_all_timers_def)
  ultimately show ?thesis
    using assms(2) by (simp add: trans2F_def update_term_def reset_both_rpc_lsn_def Let_def wp)
qed

lemma net_call_total:
  assumes "address_ok A (ip_of v)" "ty \<noteq> ERROR" "length m < 9999"
  shows "surely (\<lambda>u. True) (net_call P A ty v m s)"
  unfolding net_call_def surely_map_outcome using assms by (intro make_rpc_call_total) simp_all

text \<open>Sending to a peer and arming its retry timer: done, unless a wait was pending and \<open>busy\<close> throws.
  The other peers' timers stay as they are.\<close>

lemma arm_retry_total:
  assumes "map_of (retry_timers_m s) v = Some x" "asio_law A pend" "pend x = 0 \<or> (\<forall>t. busy t = Ok t)"
  shows "surely (\<lambda>t. \<forall>w. w \<noteq> v \<longrightarrow> map_of (retry_timers_m t) w = map_of (retry_timers_m s) w)
    (arm_retry_timer A ex h busy v s)"
  using assms by (auto simp: arm_retry_timer_def call_rand_def split_def Let_def asio_lawD)

lemma send_arm_total:
  assumes "address_ok A (ip_of v)" "ty \<noteq> ERROR" "length m < 9999"
    and "map_of (retry_timers_m s) v = Some x" "asio_law A pend" "pend x = 0 \<or> (\<forall>t. busy t = Ok t)"
  shows "surely (\<lambda>t. \<forall>w. w \<noteq> v \<longrightarrow> map_of (retry_timers_m t) w = map_of (retry_timers_m s) w)
    (seq (net_call P A ty v m s) (arm_retry_timer A ex h busy v))"
proof -
  have "surely (\<lambda>t. retry_timers_m t = retry_timers_m s) (net_call P A ty v m s)"
    using net_call_total [OF assms(1-3), of P s] by (simp add: net_call_def wp)
  then show ?thesis
    unfolding surely_seq
  proof (rule surely_mono)
    fix t :: "'a RaftServer" assume t: "retry_timers_m t = retry_timers_m s"
    then have "map_of (retry_timers_m t) v = Some x" using assms(4) by simp
    from arm_retry_total [OF this assms(5,6), of ex h]
    show "surely (\<lambda>t. \<forall>w. w \<noteq> v \<longrightarrow> map_of (retry_timers_m t) w = map_of (retry_timers_m s) w)
        (arm_retry_timer A ex h busy v t)"
      by (simp only: t)
  qed
qed

text \<open>Everything the next message to \<open>v\<close> depends on, compared with the state \<open>s\<close> at the start of a
  round.\<close>

definition in_round :: "'t RaftServer \<Rightarrow> endpoint \<Rightarrow> 't RaftServer \<Rightarrow> bool" where
  "in_round s v t \<longleftrightarrow> frame s t \<and> rpc_inv (network_m t) \<and>
     at0 (current_rpc_lsn_m t) v = at0 (current_rpc_lsn_m s) v \<and>
     map_of (retry_timers_m t) v = map_of (retry_timers_m s) v"

lemma in_round_step:
  assumes "in_round s w t" "frame t u" "sent t u ms"
    "at0 (current_rpc_lsn_m u) w = at0 (current_rpc_lsn_m t) w"
    "map_of (retry_timers_m u) w = map_of (retry_timers_m t) w"
  shows "in_round s w u"
  using assms log_frame_trans [of s t u] vote_frame_trans [of s t u] by (auto simp: in_round_def sent_def)

lemma round_total:
  assumes body: "\<And>v t. v \<in> set (others s) \<Longrightarrow> in_round s v t \<Longrightarrow>
      surely (\<lambda>u. port_m u = port_m t \<and> (\<forall>w. w \<noteq> v \<longrightarrow> in_round s w t \<longrightarrow> in_round s w u)) (f v t)"
    and "distinct (configuration_m s)" "rpc_inv (network_m s)"
  shows "surely (\<lambda>u. True) (for_others f s)"
proof -
  let ?I = "\<lambda>ys t. distinct ys \<and> port_m t = port_m s \<and> (\<forall>v \<in> set ys. in_round s v t)"
  have "surely (?I []) (for_each (configuration_m s) (\<lambda>v s. if port_of v \<noteq> port_m s then f v s else Ok s) s)"
  proof (rule surely_for_each)
    show "?I (configuration_m s) s" using assms(2,3) by (simp add: in_round_def)
    fix x ys and t :: "'a RaftServer" assume I: "?I (x # ys) t" and x: "x \<in> set (configuration_m s)"
    show "surely (?I ys) (if port_of x \<noteq> port_m t then f x t else Ok t)"
    proof (cases "port_of x = port_m t")
      case True
      with I show ?thesis by simp
    next
      case False
      then have "x \<in> set (others s)" "in_round s x t" using I x by simp_all
      from body [OF this] have "surely (?I ys) (f x t)"
        by (rule surely_mono) (use I in \<open>auto simp del: split_paired_All\<close>)
      with False show ?thesis by simp
    qed
  qed
  then show ?thesis unfolding for_others_def by (rule surely_mono) simp
qed

lemma round_step:
  assumes "surely (\<lambda>u. \<forall>w. w \<noteq> v \<longrightarrow> map_of (retry_timers_m u) w = map_of (retry_timers_m t) w) m"
    and "okp (\<lambda>u. sent t u ms \<and> (\<forall>w. w \<noteq> v \<longrightarrow> at0 (current_rpc_lsn_m u) w = at0 (current_rpc_lsn_m t) w)) m"
    and "okp (frame t) m"
  shows "surely (\<lambda>u. port_m u = port_m t \<and> (\<forall>w. w \<noteq> v \<longrightarrow> in_round s w t \<longrightarrow> in_round s w u)) m"
proof (cases m)
  case (Ok u)
  then have "frame t u" "sent t u ms" "port_m u = port_m t" using assms by (simp_all add: log_frame_def)
  with Ok assms show ?thesis by (auto intro: in_round_step simp del: split_paired_All)
next
  case (Throw e u)
  with assms(1) show ?thesis by simp
qed

text \<open>The two rounds. A round of AppendEntries needs every retry timer to be free: \<open>AE\<close> throws when a
  wait is still pending, \<open>RV\<close> does not.\<close>

lemma RV_round_total:
  assumes "conf_inv s" "asio_law A pend"
    and "\<forall>v \<in> set (others s). address_ok A (ip_of v) \<and> length (ser_rv P (rv_to s v)) < 9999"
  shows "surely (\<lambda>u. True) (for_others (RV P A) s)"
proof (rule round_total)
  show "distinct (configuration_m s)" "rpc_inv (network_m s)" using assms(1) by (simp_all add: conf_inv_def)
  fix v t assume v: "v \<in> set (others s)" and t: "in_round s v t"
  have ok: "address_ok A (ip_of v)" "length (ser_rv P (rv_to s v)) < 9999" using assms(3) v by blast+
  have eq: "rv_to t v = rv_to s v"
    using t by (intro rv_to_cong) (simp_all add: in_round_def vote_frame_def)
  have "v \<in> keys (retry_timers_m t)" using v t assms(1) by (auto simp: conf_inv_def in_round_def log_frame_def)
  then obtain x where x: "map_of (retry_timers_m (snd (build_rpc_rv v t))) v = Some x"
    by (auto simp: build_keeps keys_iff_map_of)
  have "surely (\<lambda>u. \<forall>w. w \<noteq> v \<longrightarrow> map_of (retry_timers_m u) w = map_of (retry_timers_m t) w) (RV P A v t)"
    unfolding RV_def split_def Let_def
    using send_arm_total [OF ok(1) _ ok(2) x assms(2), of REQUEST_VOTE Ok P random_rv_retry_expire]
    by (simp add: rv_to_def [symmetric] eq build_keeps)
  from this show "surely (\<lambda>u. port_m u = port_m t \<and> (\<forall>w. w \<noteq> v \<longrightarrow> in_round s w t \<longrightarrow> in_round s w u)) (RV P A v t)"
    by (rule round_step [OF _ RV_sends frame_RV]) (use t in \<open>simp add: in_round_def\<close>)
qed

lemma AE_round_total:
  assumes "conf_inv s" "asio_law A pend"
    and "\<forall>v \<in> set (others s). address_ok A (ip_of v) \<and> length (ser_ae P (ae_to s v)) < 9999 \<and>
           \<not> isl (fst (build_rpc_ae v s))"
    and "\<forall>v x. map_of (retry_timers_m s) v = Some x \<longrightarrow> pend x = 0"
  shows "surely (\<lambda>u. True) (for_others (AE P A) s)"
proof (rule round_total)
  show "distinct (configuration_m s)" "rpc_inv (network_m s)" using assms(1) by (simp_all add: conf_inv_def)
  fix v t assume v: "v \<in> set (others s)" and t: "in_round s v t"
  have ok: "address_ok A (ip_of v)" "length (ser_ae P (ae_to s v)) < 9999" "\<not> isl (fst (build_rpc_ae v s))"
    using assms(3) v by blast+
  have "fst (build_rpc_ae v t) = fst (build_rpc_ae v s)"
    using t by (intro build_ae_cong) (simp_all add: in_round_def vote_frame_def)
  then have b: "fst (build_rpc_ae v t) = Inr (ae_to s v)" using ok(3) by (simp add: ae_to_def)
  have "v \<in> keys (retry_timers_m t)" using v t assms(1) by (auto simp: conf_inv_def in_round_def log_frame_def)
  then obtain x where x: "map_of (retry_timers_m (snd (build_rpc_ae v t))) v = Some x"
    by (auto simp: build_keeps keys_iff_map_of)
  then have "map_of (retry_timers_m s) v = Some x" using t by (simp add: build_keeps in_round_def)
  then have "pend x = 0" using assms(4) by blast
  then have "surely (\<lambda>u. \<forall>w. w \<noteq> v \<longrightarrow> map_of (retry_timers_m u) w = map_of (retry_timers_m t) w) (AE P A v t)"
    unfolding AE_def split_def Let_def b
    using send_arm_total [OF ok(1) _ ok(2) x assms(2), of APPEND_ENTRY _ P random_ae_retry_expire]
    by (simp add: build_keeps)
  from this show "surely (\<lambda>u. port_m u = port_m t \<and> (\<forall>w. w \<noteq> v \<longrightarrow> in_round s w t \<longrightarrow> in_round s w u)) (AE P A v t)"
    by (rule round_step [OF _ AE_sends frame_AE]) (use t in \<open>simp add: in_round_def\<close>)
qed

lemma trans2C_total:
  assumes "conf_inv s" "asio_law A pend" "\<forall>v \<in> set (others s). address_ok A (ip_of v)"
    and "length (ser_rv P (candidate_rv s)) < 9999"
  shows "surely (\<lambda>u. True) (trans2C P A s)"
proof -
  let ?c = "candidate_state A s"
  have "pend (candidate_timer_m ?c) = 0"
    using cancel_all_pending(1) [OF assms(2), of s] by (simp add: candidate_state_def reset_both_rpc_lsn_def)
  then have "surely (\<lambda>u. True) (arm_candidate_timer A Trans2C_waiting Trans2C_handler ?c)"
    using assms(2) by (intro arm_total)
  then show ?thesis
    unfolding trans2C_eq surely_seq
  proof (rule surely_mono [OF surelyI [OF _ armed_candidate]])
    fix t assume t: "frame ?c t \<and> network_m t = network_m s \<and>
        current_rpc_lsn_m t = current_rpc_lsn_m ?c \<and> retry_timers_m t = retry_timers_m ?c"
    have l: "log_frame s t" using t candidate_state_frame(1) log_frame_trans by blast
    then have o: "others t = others s" and c: "conf_inv t"
      using assms(1) t by (simp_all add: log_frame_def conf_inv_def)
    have "term_m t = term_m s + 1" using t by (simp add: vote_frame_def candidate_state_def)
    then have "rv_to t v = candidate_rv s" if "v \<in> set (others s)" for v
      using t that candidate_state_rv [of A s t v] by simp
    then show "surely (\<lambda>u. True) (for_others (RV P A) t)"
      using assms(3,4) by (intro RV_round_total [OF c assms(2)]) (auto simp: o simp del: split_paired_All)
  qed
qed

lemma trans2P_total:
  assumes "conf_inv s" "entries_inv (entries_m s)" "asio_law A pend"
    and "\<forall>v \<in> set (others s). address_ok A (ip_of v) \<and> length (ser_ae P (heartbeat s v)) < 9999"
  shows "surely (\<lambda>u. True) (trans2P P A s)"
proof -
  let ?p = "primary_state A s"
  have p: "others ?p = others s" "conf_inv ?p"
    using assms(1)
    by (auto simp: primary_state_def cancel_all_timers_def conf_inv_def keys_put_all distinct_put_all)
  have b: "fst (build_rpc_ae v ?p) = Inr (heartbeat s v)" if "v \<in> set (others s)" for v
    using primary_state_ae [OF assms(2)] that by simp
  have "pend x = 0" if "map_of (retry_timers_m ?p) v = Some x" for v x
    using cancel_all_pending(2) [OF assms(3), of s v x] that by (simp add: primary_state_def)
  then have "surely (\<lambda>u. True) (for_others (AE P A) ?p)"
    using assms(4) b by (intro AE_round_total [OF p(2) assms(3)]) (auto simp: p(1) ae_to_def)
  then show ?thesis by (simp add: trans2P_eq)
qed

end
