(* ===== verification/Raft_Reach.thy ===== *)
theory Raft_Reach
  imports Raft_Server_Inv
begin

text \<open>
  The states a server process can get into: constructed from a configuration and a log, started,
  then driven by messages (any bytes from anybody), timer handlers, the worker threads of the
  state machine controller, the completion handlers of the sockets and the passing of time. A
  handler runs to its end before the next one starts (one io thread); the worker threads only
  share the pools and the posted calls with it. The locale \<open>invariant_system\<close> turns "initially, and
  kept by every step" into "in every reachable state"; it is interpreted on \<open>raft_inv\<close>.
\<close>

section \<open>Reachability\<close>

inductive reachable :: "('s \<Rightarrow> bool) \<Rightarrow> ('s \<Rightarrow> 's \<Rightarrow> bool) \<Rightarrow> 's \<Rightarrow> bool" for init step where
  reachable_init: "init s \<Longrightarrow> reachable init step s"
| reachable_step: "reachable init step s \<Longrightarrow> step s t \<Longrightarrow> reachable init step t"

locale invariant_system =
  fixes init :: "'s \<Rightarrow> bool" and step :: "'s \<Rightarrow> 's \<Rightarrow> bool" and inv :: "'s \<Rightarrow> bool"
  assumes init_inv: "init s \<Longrightarrow> inv s"
    and step_inv: "inv s \<Longrightarrow> step s t \<Longrightarrow> inv t"
begin

lemma reachable_inv: "reachable init step s \<Longrightarrow> inv s"
  by (induction rule: reachable.induct) (auto intro: init_inv step_inv)

lemma steps_inv: "step\<^sup>*\<^sup>* s t \<Longrightarrow> inv s \<Longrightarrow> inv t"
  by (induction rule: rtranclp_induct) (auto intro: step_inv)

end

section \<open>The server process\<close>

definition raft_init :: "'t asio \<Rightarrow> mock_state_machine \<Rightarrow> 't RaftServer \<Rightarrow> bool" where
  "raft_init A m0 s \<longleftrightarrow>
     (\<exists>split_fn ip port config_file es c rnd r w.
        RaftServer_ctor A split_fn ip port config_file es c rnd = Inr s \<and>
        distinct (configuration_m s) \<and> (ip, port) \<in> set (configuration_m s) \<and>
        entries_inv es \<and> (\<forall>k < length (log_of es). en_index (log_of es ! k) = int k) \<and>
        SMC_ctor m0 r w = Inr c)"

text \<open>What happens between two handlers of the io thread.\<close>

inductive background :: "pb \<Rightarrow> 't RaftServer \<Rightarrow> 't RaftServer \<Rightarrow> bool" for P where
  threads: "smc_thread_step P (smc_m s) c \<Longrightarrow> background P s (s\<lparr>smc_m := c\<rparr>)"
| sockets: "net_step (network_m s) n \<Longrightarrow> background P s (s\<lparr>network_m := n\<rparr>)"
| clock: "keys rt = keys (retry_timers_m s) \<Longrightarrow>
    background P s (s\<lparr>candidate_timer_m := ct, retry_timers_m := rt\<rparr>)"
| post_taken: "posted_m (smc_m s) = p # ps \<Longrightarrow> background P s (s\<lparr>smc_m := (smc_m s)\<lparr>posted_m := ps\<rparr>\<rparr>)"

text \<open>A handler is one call of \<open>server_step\<close>; a posted call is first taken from the queue.\<close>

inductive raft_step :: "pb \<Rightarrow> 't asio \<Rightarrow> 't RaftServer \<Rightarrow> 't RaftServer \<Rightarrow> bool" for P A where
  start: "run A s = Ok t \<Longrightarrow> raft_step P A s t"
| event: "has_room s \<Longrightarrow> server_step P A ev s = Ok t \<Longrightarrow> raft_step P A s t"
| other: "background P s t \<Longrightarrow> raft_step P A s t"

lemma load_config_sizes:
  "load_config_from_file f c = Inr (config, N, majority) \<Longrightarrow>
   N = int (length config) \<and> majority = N div 2 + 1"
  by (auto simp: load_config_from_file_def Let_def split: option.splits sum.splits)

lemma raft_init_inv:
  assumes "raft_init A m0 s"
  shows "raft_inv P m0 s"
proof -
  obtain split_fn ip port config_file es c rnd r w where s: "RaftServer_ctor A split_fn ip port config_file es c rnd = Inr s"
    and d: "distinct (configuration_m s)" "(ip, port) \<in> set (configuration_m s)"
    and es: "entries_inv es" "\<forall>k < length (log_of es). en_index (log_of es ! k) = int k"
    and c: "SMC_ctor m0 r w = Inr c"
    using assms unfolding raft_init_def by blast
  obtain config N majority where l: "load_config_from_file split_fn config_file = Inr (config, N, majority)"
    using s by (auto simp: RaftServer_ctor_def split: sum.splits)
  have f: "configuration_m s = config" "N_m s = N" "majority_m s = majority" "server_m s = (ip, port)" "ip_m s = ip" "port_m s = port"
    "commit_index_m s = -1" "entries_m s = es" "nextIndex_m s = put_all config 0 []"
    "Follower_saved_index_m s = put_all config (-1) []" "smc_m s = c" "state_m s = follower"
    "retry_timers_m s = put_all config (new_timer A) []"
    "network_m s = \<lparr>connection_map_m = [], conns_m = [], io_m = []\<rparr>"
    using s l by (auto simp: RaftServer_ctor_def)
  have "0 \<le> Entries_size es" using es(1) by (rule entries.log_size_nonneg)
  moreover have "smc_inv P m0 [] c" using c by (rule smc_inv_ctor)
  moreover have "0 \<le> at0 (put_all config 0 []) v" for v by (simp add: at0_put_all) (simp add: at0_def)
  ultimately show ?thesis
    using d es load_config_sizes [OF l]
    by (auto simp: raft_inv_def conf_inv_def log_inv_def book_inv_def f keys_put_all distinct_put_all
        rpc_inv_def)
qed

lemma raft_inv_threads:
  assumes "raft_inv P m0 s" "smc_thread_step P (smc_m s) c"
  shows "raft_inv P m0 (s\<lparr>smc_m := c\<rparr>)"
proof -
  obtain fin where "smc_inv P m0 fin (smc_m s)" using assms(1) by (auto simp: raft_inv_def log_inv_def)
  then obtain fin' where "smc_inv P m0 fin' c" using smc_inv_thread [OF _ assms(2)] by blast
  with assms(1) show ?thesis by (auto simp: raft_inv_def conf_inv_def log_inv_def book_inv_def)
qed

lemma raft_inv_net: "raft_inv P m0 s \<Longrightarrow> rpc_inv n \<Longrightarrow> raft_inv P m0 (s\<lparr>network_m := n\<rparr>)"
  by (simp add: raft_inv_def conf_inv_def log_inv_def book_inv_def)

lemma raft_inv_rpc: "raft_inv P m0 s \<Longrightarrow> rpc_inv (network_m s)"
  by (simp add: raft_inv_def conf_inv_def)

lemma raft_inv_posted: "raft_inv P m0 s \<Longrightarrow> raft_inv P m0 (s\<lparr>smc_m := (smc_m s)\<lparr>posted_m := ps\<rparr>\<rparr>)"
  by (simp add: raft_inv_def conf_inv_def log_inv_def book_inv_def smc_inv_posted)

lemma run_inv:
  assumes "raft_inv P m0 s"
  shows "okp (raft_inv P m0) (run A s)"
proof -
  have "raft_inv P m0 (s\<lparr>network_m := startAccept (network_m s)\<rparr>)"
    using assms by (intro raft_inv_net) (simp_all add: startAccept_def raft_inv_rpc)
  then show ?thesis unfolding run_def by (rule okp_inv_frame [OF _ frame_arm])
qed

lemma background_inv:
  assumes "raft_inv P m0 s" "background P s t"
  shows "raft_inv P m0 t"
  using assms(2)
proof cases
  case (threads c)
  then show ?thesis using raft_inv_threads [OF assms(1)] by simp
next
  case (sockets n)
  then show ?thesis using raft_inv_net [OF assms(1)] net_step_inv raft_inv_rpc [OF assms(1)] by blast
next
  case (clock rt ct)
  then show ?thesis using assms(1) by simp
next
  case (post_taken p ps)
  then show ?thesis using raft_inv_posted [OF assms(1)] by simp
qed

lemma background_keeps:
  assumes "background P s t"
  shows "vote_frame s t" "configuration_m t = configuration_m s" "majority_m t = majority_m s"
    "entries_m t = entries_m s" "commit_index_m t = commit_index_m s"
  using assms by (cases; simp add: vote_frame_def)+

lemma raft_step_inv:
  assumes "raft_inv P m0 s" "raft_step P A s t"
  shows "raft_inv P m0 t"
  using assms(2)
proof cases
  case start
  then show ?thesis using run_inv [OF assms(1)] by (metis okpD)
next
  case (event ev)
  then show ?thesis using server_step_inv [OF assms(1)] by (metis okpD)
next
  case other
  then show ?thesis using background_inv [OF assms(1)] by simp
qed

interpretation raft: invariant_system "raft_init A m0" "raft_step P A" "raft_inv P m0" for P A m0
  by unfold_locales (blast intro: raft_init_inv raft_step_inv)+

end
