(* ===== verification/Raft_Election.thy ===== *)
theory Raft_Election
  imports Raft_Sends Raft_Reach
begin

text \<open>
  Terms, roles and votes. \<open>react2rv_effect\<close> is what a server does that is asked for its vote, if it returns;
  \<open>election_step\<close> the changes of term, role and vote an event may cause; \<open>run_tally\<close> what it takes to
  become primary.
\<close>

section \<open>Answering a vote request\<close>

definition log_acceptable :: "RequestVoteRpc \<Rightarrow> rpc_Entry list \<Rightarrow> bool" where
  "log_acceptable rv log \<longleftrightarrow> log = [] \<or> en_term (last log) < rv_term rv \<or>
     (en_term (last log) = rv_term rv \<and> en_index (last log) \<le> rv_latest_index rv)"

definition grants :: "RequestVoteRpc \<Rightarrow> 't RaftServer \<Rightarrow> bool" where
  "grants rv s \<longleftrightarrow>
     term_m s \<le> rv_term rv \<and> seen_lsn s (rv_term rv) (rv_ip rv, rv_port rv) < rv_lsn rv \<and>
     (term_m s < rv_term rv \<or> (state_m s = follower \<and> \<not> already_voted_m s)) \<and>
     log_acceptable rv (log_of (entries_m s))"

definition vote_reply :: "pb \<Rightarrow> 't RaftServer \<Rightarrow> RequestVoteRpc \<Rightarrow> bool \<Rightarrow> endpoint \<times> string" where
  "vote_reply P s rv ok =
     ((rv_ip rv, rv_port rv), wire (RESP_VOTE, ser_resp_rv P \<lparr>rrv_ok = ok,
        rrv_term = max (term_m s) (rv_term rv), rrv_lsn = rv_lsn rv, rrv_ip = ip_m s, rrv_port = port_m s\<rparr>))"

definition vote_replies :: "pb \<Rightarrow> 't RaftServer \<Rightarrow> RequestVoteRpc \<Rightarrow> (endpoint \<times> string) list" where
  "vote_replies P s rv =
     (if rv_term rv < term_m s then [vote_reply P s rv False]
      else if rv_lsn rv \<le> seen_lsn s (rv_term rv) (rv_ip rv, rv_port rv) then []
      else [vote_reply P s rv (grants rv s)])"

definition vote_effect :: "pb \<Rightarrow> RequestVoteRpc \<Rightarrow> 't RaftServer \<Rightarrow> 't RaftServer \<Rightarrow> bool" where
  "vote_effect P rv s t \<longleftrightarrow>
     sent s t (vote_replies P s rv) \<and> log_frame s t \<and>
     term_m t = max (term_m s) (rv_term rv) \<and>
     state_m t = (if term_m s < rv_term rv then follower else state_m s) \<and>
     already_voted_m t = (grants rv s \<or> (already_voted_m s \<and> rv_term rv \<le> term_m s)) \<and>
     (term_m s \<le> rv_term rv \<longrightarrow>
        at0 (follower_rpc_lsn_m t) = lsn_after s (rv_term rv) (rv_ip rv, rv_port rv) (rv_lsn rv))"

text \<open>The part of the handler after the term has been brought up to date.\<close>

definition rv_body :: "pb \<Rightarrow> 't asio \<Rightarrow> RequestVoteRpc \<Rightarrow> 't RaftServer \<Rightarrow> 't RaftServer outcome" where
  "rv_body P A rv s =
     (let server = (rv_ip rv, rv_port rv); (ignore, s) = should_ignore_remote_rpc server (rv_lsn rv) s in
      if ignore then Ok s
      else if state_m s = candidate \<or> state_m s = primary then make_resp_rv P A False server (rv_lsn rv) s
      else if \<not> already_voted_m s then
        with_res (if Entries_size (entries_m s) = 0 then Inr True
                  else map_sum id (\<lambda>lastEntry.
                         if en_term lastEntry > rv_term rv then False
                         else if en_term lastEntry < rv_term rv then True
                         else if en_index lastEntry > rv_latest_index rv then False else True)
                         (Entries_get (entries_m s) (Entries_size (entries_m s) - 1))) s
          (\<lambda>should_vote.
             if should_vote then
               seq (make_resp_rv P A True server (rv_lsn rv) s) (\<lambda>s. Ok (s\<lparr>already_voted_m := True\<rparr>))
             else make_resp_rv P A False server (rv_lsn rv) s)
      else make_resp_rv P A False server (rv_lsn rv) s)"

lemma react2rv_split:
  "react2rv P A rv s =
     (if term_m s > rv_term rv then make_resp_rv P A False (rv_ip rv, rv_port rv) (rv_lsn rv) s
      else seq (if term_m s < rv_term rv then trans2F A (rv_term rv) s else Ok s) (rv_body P A rv))"
  unfolding react2rv_def rv_body_def [abs_def] Let_def by (rule refl)

lemma log_acceptable_code:
  assumes "entries_inv es"
  shows "(if Entries_size es = 0 then Inr True
          else map_sum id (\<lambda>lastEntry.
                 if en_term lastEntry > rv_term rv then False
                 else if en_term lastEntry < rv_term rv then True
                 else if en_index lastEntry > rv_latest_index rv then False else True)
                 (Entries_get es (Entries_size es - 1))) = (Inr (log_acceptable rv (log_of es)) :: bool res)"
proof (cases "log_of es = []")
  case True
  then have "Entries_size es = 0" using assms by (simp add: entries.size_log)
  with True show ?thesis by (simp add: log_acceptable_def)
next
  case False
  then have "0 < Entries_size es" using assms last_entry(1) by blast
  with False last_entry(2) [OF assms False] show ?thesis by (auto simp: log_acceptable_def)
qed

lemma rv_body_eq:
  assumes "entries_inv (entries_m s)" "should_ignore_remote_rpc (rv_ip rv, rv_port rv) (rv_lsn rv) s = (False, u)"
  shows "rv_body P A rv s =
     (if state_m u = follower \<and> \<not> already_voted_m u \<and> log_acceptable rv (log_of (entries_m s)) then
        seq (make_resp_rv P A True (rv_ip rv, rv_port rv) (rv_lsn rv) u) (\<lambda>s. Ok (s\<lparr>already_voted_m := True\<rparr>))
      else make_resp_rv P A False (rv_ip rv, rv_port rv) (rv_lsn rv) u)"
proof -
  have "entries_m u = entries_m s"
    using should_ignore_parts(2) [of "(rv_ip rv, rv_port rv)" "rv_lsn rv" s] assms(2) by simp
  then have c: "(if Entries_size (entries_m u) = 0 then Inr True
          else map_sum id (\<lambda>lastEntry.
                 if en_term lastEntry > rv_term rv then False
                 else if en_term lastEntry < rv_term rv then True
                 else if en_index lastEntry > rv_latest_index rv then False else True)
                 (Entries_get (entries_m u) (Entries_size (entries_m u) - 1))) =
      (Inr (log_acceptable rv (log_of (entries_m s))) :: bool res)"
    using log_acceptable_code [OF assms(1)] by (simp only:)
  show ?thesis
    unfolding rv_body_def Let_def assms(2) prod.case c by (cases "state_m u") simp_all
qed

lemma rv_body_effect:
  assumes "entries_inv (entries_m s)" "rpc_inv (network_m s)" "rv_term rv = term_m s"
  shows "okp (vote_effect P rv s) (rv_body P A rv s)"
proof -
  let ?v = "(rv_ip rv, rv_port rv)"
  let ?u = "s\<lparr>follower_rpc_lsn_m := put ?v (rv_lsn rv) (touch ?v (follower_rpc_lsn_m s))\<rparr>"
  have reply: "okp (\<lambda>t. sent s t [vote_reply P s rv b] \<and> (\<exists>n. t = ?u\<lparr>network_m := n\<rparr>))
      (make_resp_rv P A b ?v (rv_lsn rv) ?u)" for b
    using make_resp_sends(1) [of ?u ?v P b "rv_lsn rv" A] assms(2)
    by (auto simp: vote_reply_def assms(3) sent_def elim!: okp_mono)
  have f: "log_frame s ?u" by (simp add: log_frame_def)
  have no: "okp (vote_effect P rv s) (make_resp_rv P A False ?v (rv_lsn rv) ?u)"
    if "\<not> rv_lsn rv \<le> seen_lsn s (rv_term rv) ?v" "\<not> grants rv s"
    using reply [of False] by (rule okp_mono)
      (use that assms in \<open>auto simp: vote_effect_def vote_replies_def log_frame_def sent_def lsn_recorded\<close>)
  have yes: "okp (vote_effect P rv s)
      (seq (make_resp_rv P A True ?v (rv_lsn rv) ?u) (\<lambda>s. Ok (s\<lparr>already_voted_m := True\<rparr>)))"
    if "\<not> rv_lsn rv \<le> seen_lsn s (rv_term rv) ?v" "grants rv s"
    unfolding okp_seq using reply [of True]
    by (rule okp_mono) (use that assms in \<open>auto simp: vote_effect_def vote_replies_def log_frame_def sent_def lsn_recorded\<close>)
  show ?thesis
  proof (cases "rv_lsn rv \<le> seen_lsn s (rv_term rv) ?v")
    case True
    let ?w = "s\<lparr>follower_rpc_lsn_m := touch ?v (follower_rpc_lsn_m s)\<rparr>"
    have "vote_effect P rv s ?w"
      using True assms(3) lsn_recorded(2) [OF assms(3) [symmetric] True]
      by (auto simp: vote_effect_def vote_replies_def log_frame_def grants_def sent_same)
    moreover have "rv_body P A rv s = Ok ?w"
      using True assms(3) by (simp add: rv_body_def should_ignore_remote_rpc_def seen_lsn_def)
    ultimately show ?thesis by simp
  next
    case False
    then have "should_ignore_remote_rpc ?v (rv_lsn rv) s = (False, ?u)"
      using assms(3) by (simp add: should_ignore_remote_rpc_def seen_lsn_def Let_def)
    moreover have "grants rv s \<longleftrightarrow> state_m s = follower \<and> \<not> already_voted_m s \<and> log_acceptable rv (log_of (entries_m s))"
      using False assms(3) by (auto simp: grants_def)
    ultimately show ?thesis
      using no [OF False] yes [OF False] rv_body_eq [OF assms(1), of rv ?u P A] by simp
  qed
qed

theorem react2rv_effect:
  assumes "entries_inv (entries_m s)" "rpc_inv (network_m s)"
  shows "okp (vote_effect P rv s) (react2rv P A rv s)"
proof (cases "rv_term rv < term_m s")
  case True
  have "okp (\<lambda>t. sent s t [vote_reply P s rv False] \<and> (\<exists>n. t = s\<lparr>network_m := n\<rparr>))
      (make_resp_rv P A False (rv_ip rv, rv_port rv) (rv_lsn rv) s)"
    using make_resp_sends(1) [OF assms(2), of "(rv_ip rv, rv_port rv)" P False "rv_lsn rv" A] True
    by (simp add: vote_reply_def max_def)
  then show ?thesis
    using True unfolding react2rv_split
    by (auto simp: vote_effect_def vote_replies_def grants_def log_frame_def sent_def elim!: okp_mono)
next
  case False
  show ?thesis
  proof (cases "term_m s < rv_term rv")
    case True
    have "okp (\<lambda>u. okp (vote_effect P rv s) (rv_body P A rv u)) (trans2F A (rv_term rv) s)"
      using conjI [OF trans2F_effect [of s "rv_term rv" A] trans2F_keeps [of s "rv_term rv" A], folded okp_conj]
    proof (rule okp_mono)
      fix u
      assume "(log_frame s u \<and> term_m u = rv_term rv \<and> term_m s \<le> rv_term rv \<and> state_m u = follower \<and>
           \<not> already_voted_m u \<and> winned_votes_m u = 0) \<and> network_m u = network_m s \<and>
           follower_rpc_lsn_m u = (if term_m s < rv_term rv then put_all (configuration_m s) (-1) (follower_rpc_lsn_m s)
                                   else follower_rpc_lsn_m s)"
      then have u: "log_frame s u" "term_m u = rv_term rv" "state_m u = follower" "\<not> already_voted_m u"
          "network_m u = network_m s" "follower_rpc_lsn_m u = put_all (configuration_m s) (-1) (follower_rpc_lsn_m s)"
        using True by simp_all
      have e: "entries_m u = entries_m s" "ip_m u = ip_m s" "port_m u = port_m s"
        using u(1) by (simp_all add: log_frame_def)
      have l: "seen_lsn u (rv_term rv) v = seen_lsn s (rv_term rv) v" for v
        using True u(2,6) by (simp add: seen_lsn_def at0_put_all)
      have g: "grants rv u = grants rv s" using True u e l by (simp add: grants_def)
      have r: "vote_replies P u rv = vote_replies P s rv"
        using True u(2) e l g by (simp add: vote_replies_def vote_reply_def)
      have "okp (vote_effect P rv u) (rv_body P A rv u)"
        using assms u e by (intro rv_body_effect) simp_all
      then show "okp (vote_effect P rv s) (rv_body P A rv u)"
        by (rule okp_mono) (use True u r g log_frame_trans lsn_after_cong [OF l] in \<open>auto simp: vote_effect_def sent_def\<close>)
    qed
    with True show ?thesis by (simp add: react2rv_split wp)
  next
    case same: False
    with False have "rv_term rv = term_m s" by simp
    with assms rv_body_effect [of s rv P A] show ?thesis by (simp add: react2rv_split)
  qed
qed

text \<open>A vote request never makes the server throw, if it can answer.\<close>

lemma react2rv_total:
  assumes "entries_inv (entries_m s)" "asio_law A pend" "address_ok A (rv_ip rv)"
    and len: "\<And>b. length (ser_resp_rv P \<lparr>rrv_ok = b, rrv_term = max (term_m s) (rv_term rv), rrv_lsn = rv_lsn rv,
        rrv_ip = ip_m s, rrv_port = port_m s\<rparr>) < 9999"
  shows "surely (\<lambda>t. True) (react2rv P A rv s)"
proof -
  have reply: "surely (\<lambda>t. True) (make_resp_rv P A b (rv_ip rv, rv_port rv) (rv_lsn rv) t)"
    if "term_m t = max (term_m s) (rv_term rv)" "ip_m t = ip_m s" "port_m t = port_m s" for b t
    unfolding make_resp_rv_def using that assms(3) len by (intro net_call_total) simp_all
  have body: "surely (\<lambda>t. True) (rv_body P A rv t)"
    if t: "term_m t = max (term_m s) (rv_term rv)" "log_frame s t" for t
  proof -
    obtain ign u where u: "should_ignore_remote_rpc (rv_ip rv, rv_port rv) (rv_lsn rv) t = (ign, u)"
      by fastforce
    have "frame t u" using frame_should_ignore [of t "(rv_ip rv, rv_port rv)" "rv_lsn rv"] u by simp
    then have "term_m u = max (term_m s) (rv_term rv)" "ip_m u = ip_m s" "port_m u = port_m s"
      using t by (simp_all add: log_frame_def vote_frame_def)
    note r = reply [OF this]
    have inv: "entries_inv (entries_m t)" using assms(1) t(2) by (simp add: log_frame_def)
    show ?thesis
    proof (cases ign)
      case True
      with u show ?thesis by (simp add: rv_body_def)
    next
      case False
      with u have "should_ignore_remote_rpc (rv_ip rv, rv_port rv) (rv_lsn rv) t = (False, u)" by simp
      from rv_body_eq [OF inv this, of P A] r show ?thesis by (simp add: wp)
    qed
  qed
  show ?thesis
  proof (cases "rv_term rv < term_m s")
    case True
    then show ?thesis using reply [of s False] by (simp add: react2rv_split)
  next
    case False
    then have "surely (\<lambda>t. term_m t = max (term_m s) (rv_term rv) \<and> log_frame s t)
        (if term_m s < rv_term rv then trans2F A (rv_term rv) s else Ok s)"
      using surelyI [OF trans2F_total [OF assms(2)] trans2F_effect, of s "rv_term rv"]
      by (auto elim!: surely_mono)
    with False show ?thesis
      by (simp only: react2rv_split surely_seq if_False) (erule surely_mono, use body in blast)
  qed
qed

section \<open>Roles\<close>

text \<open>The events the election cares about: a positive vote reply of term \<open>T\<close>, and an AppendEntries
  of term \<open>T\<close>.\<close>

fun granted :: "pb \<Rightarrow> int \<Rightarrow> event \<Rightarrow> bool" where
  "granted P T (Incoming ty msg peer) =
     (ty = RESP_VOTE \<and> rrv_ok (parse_resp_rv P msg) \<and> rrv_term (parse_resp_rv P msg) = T)"
| "granted P T ev = False"

fun ae_of_term :: "pb \<Rightarrow> int \<Rightarrow> event \<Rightarrow> bool" where
  "ae_of_term P T (Incoming ty msg peer) = (ty = APPEND_ENTRY \<and> ae_term (parse_ae P msg) = T)"
| "ae_of_term P T ev = False"

definition election_step :: "pb \<Rightarrow> event \<Rightarrow> 't RaftServer \<Rightarrow> 't RaftServer \<Rightarrow> bool" where
  "election_step P ev s t \<longleftrightarrow>
     majority_m t = majority_m s \<and> term_m s \<le> term_m t \<and>
     (term_m t = term_m s \<longrightarrow>
        (state_m t = candidate \<longrightarrow> state_m s = candidate \<and>
           winned_votes_m t \<le> winned_votes_m s + (if granted P (term_m s) ev then 1 else 0)) \<and>
        (state_m t = primary \<longrightarrow> state_m s = primary \<or>
           (state_m s = candidate \<and> granted P (term_m s) ev \<and> majority_m s \<le> winned_votes_m s + 1)) \<and>
        (state_m t = follower \<longrightarrow> state_m s = follower \<or>
           (state_m s = candidate \<and> ae_of_term P (term_m s) ev)) \<and>
        (already_voted_m s \<longrightarrow> already_voted_m t \<or> ae_of_term P (term_m s) ev))"

definition quiet :: "'t RaftServer \<Rightarrow> 't RaftServer \<Rightarrow> bool" where
  "quiet s t \<longleftrightarrow> vote_frame s t \<and> majority_m t = majority_m s"

lemma quiet_refl [simp]: "quiet s s"
  by (simp add: quiet_def)

lemma quiet_trans: "quiet s t \<Longrightarrow> quiet t u \<Longrightarrow> quiet s u"
  by (auto simp: quiet_def intro: vote_frame_trans)

lemma frame_quiet: "okp (frame s) m \<Longrightarrow> okp (quiet s) m"
  by (erule okp_mono) (simp add: quiet_def log_frame_def)

lemma okp_quiet_seq: "okp (quiet s) m \<Longrightarrow> (\<And>t. okp (quiet t) (f t)) \<Longrightarrow> okp (quiet s) (seq m f)"
  unfolding okp_seq by (erule okp_mono) (meson okp_mono quiet_trans)

lemma quiet_step: "okp (quiet s) m \<Longrightarrow> okp (election_step P ev s) m"
  by (erule okp_mono) (auto simp: quiet_def election_step_def vote_frame_def)

lemma quiet_apply: "okp (quiet s) (apply_to_state_machine n s)"
  by (rule okp_mono [OF apply_frame]) (auto simp: quiet_def vote_frame_def)

text \<open>A change of other fields before the call does not matter.\<close>

lemma quiet_from: "okp (quiet t) m \<Longrightarrow> quiet s t \<Longrightarrow> okp (quiet s) m"
  by (erule okp_mono) (rule quiet_trans)

named_theorems quiets \<open>operations that change neither term nor role nor votes\<close>

lemma quiet_insert [quiets]: "okp (quiet s) (insert_entry P i e s)"
  by (auto simp: insert_entry_def okp_map_outcome quiet_def vote_frame_def intro: okpI)

lemma quiet_follower_update [quiets]: "okp (quiet s) (follower_update_commit_index n s)"
  unfolding follower_update_commit_index_def Let_def
  by (auto simp: wp quiet_def vote_frame_def intro!: okp_mono [OF apply_frame])

lemma quiet_primary_update [quiets]: "okp (quiet s) (primary_update_commit_index v i s)"
  unfolding primary_update_commit_index_def Let_def
  by (auto simp: wp quiet_def vote_frame_def intro!: okp_mono [OF apply_frame])

lemma quiet_make_resp [quiets]: "okp (quiet s) (make_resp_ae P A b v l e s)" "okp (quiet s) (make_resp_rv P A b v l s)"
  by (rule frame_quiet, rule frames)+

lemma quiet_AE [quiets]: "okp (quiet s) (AE P A v s)"
  by (rule frame_quiet) (rule frames)

lemma quiet_RV [quiets]: "okp (quiet s) (RV P A v s)"
  by (rule frame_quiet) (rule frames)

lemma quiet_net_call [quiets]: "okp (quiet s) (net_call P A ty v m s)"
  by (rule frame_quiet) (rule frames)

lemma quiet_accept [quiets]: "okp (quiet s) (accept_ae P A ae s)"
  unfolding accept_ae_def Let_def by (auto simp: quiets intro!: okp_quiet_seq split: list.splits)

lemma quiet_primary_deal [quiets]: "okp (quiet s) (primary_deal_resp_ae_with_same_term P A v resp s)"
proof -
  have u: "okp (quiet s) (primary_update_commit_index v i t)" if "quiet s t" for t i
    using quiet_from [OF quiet_primary_update that] .
  have a: "okp (quiet s) (AE P A v t)" if "quiet s t" for t using quiet_from [OF quiet_AE that] .
  have r: "okp (quiet t) (case map_of (retry_timers_m t) v of None \<Rightarrow> Throw Null_deref t
      | Some x \<Rightarrow> AE P A v (t\<lparr>retry_timers_m := g t x\<rparr>))" for t g
    by (auto simp: quiet_def vote_frame_def intro!: quiet_from [OF quiet_AE] split: option.splits)
  show ?thesis
    unfolding primary_deal_resp_ae_with_same_term_def Let_def okp_if
    by (auto simp: quiet_def vote_frame_def intro!: okp_quiet_seq u a r split: option.splits)
qed

text \<open>The handlers that do change them.\<close>

lemma trans2F_election: "term_m s < T \<Longrightarrow> okp (election_step P ev s) (trans2F A T s)"
  by (rule okp_mono [OF trans2F_effect]) (auto simp: election_step_def log_frame_def)

lemma trans2C_election: "okp (election_step P ev s) (trans2C P' A s)"
  by (rule okp_mono [OF trans2C_effect]) (auto simp: election_step_def log_frame_def)

lemma election_quiet: "election_step P ev s t \<Longrightarrow> quiet t u \<Longrightarrow> election_step P ev s u"
  by (auto simp: election_step_def quiet_def vote_frame_def)

lemma election_seq: "okp (election_step P ev s) m \<Longrightarrow> (\<And>t. okp (quiet t) (f t)) \<Longrightarrow> okp (election_step P ev s) (seq m f)"
  unfolding okp_seq by (erule okp_mono) (meson okp_mono election_quiet)

lemma trans2P_quiet:
  "okp (\<lambda>t. term_m t = term_m s \<and> state_m t = primary \<and> majority_m t = majority_m s \<and>
            already_voted_m t = already_voted_m s) (trans2P P A s)"
  unfolding trans2P_eq
  by (rule okp_mono [OF frame_quiet [OF frame_for_others [OF frame_AE]]])
    (auto simp: quiet_def vote_frame_def primary_state_def cancel_all_timers_def)

lemma candidate_deal_election:
  assumes "state_m s = candidate" "rrv_term resp = term_m s" "parse_resp_rv P msg = resp"
  shows "okp (election_step P (Incoming RESP_VOTE msg peer) s) (candidate_deal_resp_rv_with_same_term P A v resp s)"
proof -
  have "okp (election_step P (Incoming RESP_VOTE msg peer) s)
      (trans2P P A (s\<lparr>current_rpc_lsn_m := l, winned_votes_m := winned_votes_m s + 1\<rparr>))"
    if "rrv_ok resp" "majority_m s \<le> winned_votes_m s + 1" for l
    by (rule okp_mono [OF trans2P_quiet]) (use assms that in \<open>auto simp: election_step_def\<close>)
  then show ?thesis
    using assms
    by (auto simp: candidate_deal_resp_rv_with_same_term_def Let_def wp election_step_def split: option.splits)
qed

lemma react2ae_election:
  assumes "parse_ae P msg = ae"
  shows "okp (election_step P (Incoming APPEND_ENTRY msg peer) s) (react2ae P A ae s)"
proof -
  let ?v = "(ae_ip ae, ae_port ae)"
  have q: "quiet t (snd (should_ignore_remote_rpc v l t))" for t :: "'a RaftServer" and v l
    using frame_should_ignore [of t v l] by (simp add: quiet_def log_frame_def)
  have body: "okp (quiet t) (let (ignore, s) = should_ignore_remote_rpc ?v (ae_lsn ae) t in
           if ignore then Ok s
           else if ae_prelog_index ae = -1 then
             (if ae_prelog_term ae \<noteq> -1 then Throw Bad_prelog_term s else accept_ae P A ae s)
           else if ae_prelog_index ae \<ge> Entries_size (entries_m s) then
             make_resp_ae P A False ?v (ae_lsn ae) e s
           else with_res (Entries_get (entries_m s) (ae_prelog_index ae)) s (\<lambda>prev_entry.
             if ae_prelog_term ae \<noteq> en_term prev_entry
             then make_resp_ae P A False ?v (ae_lsn ae) e s
             else accept_ae P A ae s))" for t e
    by (auto simp: split_def Let_def wp q intro!: quiet_from [OF quiet_accept] quiet_from [OF quiet_make_resp(1)])
  have "okp (election_step P (Incoming APPEND_ENTRY msg peer) s) (trans2F A (ae_term ae) s)"
    if "\<not> (state_m s = primary \<and> term_m s = ae_term ae)" "\<not> ae_term ae < term_m s"
    by (rule okp_mono [OF trans2F_effect])
      (use that assms in \<open>auto simp: election_step_def log_frame_def intro: State.exhaust [of "state_m s"]\<close>)
  then show ?thesis
    unfolding react2ae_def Let_def okp_if
    by (auto simp: quiets intro: quiet_step election_seq [OF _ body [unfolded Let_def]])
qed

definition votes_rise :: "'t RaftServer \<Rightarrow> 't RaftServer \<Rightarrow> bool" where
  "votes_rise s t \<longleftrightarrow> term_m t = term_m s \<and> state_m t = state_m s \<and> winned_votes_m t = winned_votes_m s \<and>
     majority_m t = majority_m s \<and> (already_voted_m s \<longrightarrow> already_voted_m t)"

lemma rv_body_rise: "okp (votes_rise s) (rv_body P A rv s)"
proof -
  let ?v = "(rv_ip rv, rv_port rv)"
  let ?u = "snd (should_ignore_remote_rpc ?v (rv_lsn rv) s)"
  have u: "quiet s ?u" using frame_should_ignore [of s ?v "rv_lsn rv"] by (simp add: quiet_def log_frame_def)
  have q: "okp (quiet s) (make_resp_rv P A b ?v (rv_lsn rv) ?u)" for b
    using quiet_from [OF quiet_make_resp(2) u] .
  have r: "okp (votes_rise s) (make_resp_rv P A b ?v (rv_lsn rv) ?u)" for b
    by (rule okp_mono [OF q]) (auto simp: votes_rise_def quiet_def vote_frame_def)
  have g: "okp (votes_rise s) (seq (make_resp_rv P A b ?v (rv_lsn rv) ?u) (\<lambda>s. Ok (s\<lparr>already_voted_m := True\<rparr>)))" for b
    unfolding okp_seq by (rule okp_mono [OF q]) (auto simp: votes_rise_def quiet_def vote_frame_def)
  have "votes_rise s ?u" using u by (auto simp: votes_rise_def quiet_def vote_frame_def)
  then show ?thesis
    using r g unfolding rv_body_def split_def Let_def okp_if okp_with_res by simp
qed

lemma election_rise: "election_step P ev s t \<Longrightarrow> votes_rise t u \<Longrightarrow> election_step P ev s u"
  by (auto simp: election_step_def votes_rise_def)

lemma react2rv_election: "okp (election_step P ev s) (react2rv P' A rv s)"
proof -
  have "okp (election_step P ev s) (if term_m s < rv_term rv then trans2F A (rv_term rv) s else Ok s)"
    by (simp add: trans2F_election quiet_step [of _ "Ok s", simplified])
  then have "okp (election_step P ev s)
      (seq (if term_m s < rv_term rv then trans2F A (rv_term rv) s else Ok s) (rv_body P' A rv))"
    unfolding okp_seq
  proof (rule okp_mono)
    fix t assume "election_step P ev s t"
    then show "okp (election_step P ev s) (rv_body P' A rv t)"
      by (intro okp_mono [OF rv_body_rise]) (rule election_rise)
  qed
  then show ?thesis
    unfolding react2rv_split by (simp add: quiet_step quiets)
qed

theorem server_step_election: "okp (election_step P ev s) (server_step P A ev s)"
proof (cases ev)
  case (Incoming ty msg peer)
  have "okp (quiet s) (append_client_apply_to_entries P peer msg s)"
    unfolding append_client_apply_to_entries_def Let_def
    by (rule okp_quiet_seq) (auto simp: quiet_def vote_frame_def intro!: quiet_from [OF quiet_insert])
  moreover have "okp (quiet s) (get_from_state_machine peer msg s)"
    by (auto simp: get_from_state_machine_def okp_map_outcome quiet_def vote_frame_def intro: okpI)
  moreover have "okp (election_step P ev s) (react2resp_ae P A (parse_resp_ae P msg) s)"
    by (simp add: react2resp_ae_def Let_def wp trans2F_election quiet_step quiets quiet_step [of _ "Ok s", simplified])
  moreover have "okp (election_step P (Incoming RESP_VOTE msg peer) s) (react2resp_rv P A (parse_resp_rv P msg) s)"
    by (auto simp: react2resp_rv_def Let_def wp trans2F_election quiet_step [of _ "Ok s", simplified]
        intro!: candidate_deal_election)
  ultimately show ?thesis
    using Incoming by (auto simp: reactToIncomingMsg_def wp react2ae_election react2rv_election
        intro: quiet_step quiet_step [of _ "Ok s", simplified])
next
  case (Timer_event h err)
  have "okp (election_step P ev s) (timer_handler P A h err s)"
    by (cases h) (auto simp: run_handler_def trans2F_handler_def trans2C_handler_def AE_retry_handler_def
      RV_retry_handler_def wp trans2C_election quiets intro: quiet_step quiet_step [of _ "Ok s", simplified]
      split: error_code.splits option.splits)
  with Timer_event show ?thesis by simp
next
  case (Posted p)
  have "okp (quiet s) (server_step P A ev s)"
    using Posted by (auto simp: write_resp_apply_call_def write_resp_query_call_def wp quiets
        split: post.splits option.splits)
  then show ?thesis by (rule quiet_step)
qed

section \<open>Runs\<close>

text \<open>A run of one server: the events it handles, each with the state it was handled in, and
  background steps in between.\<close>

inductive server_run :: "pb \<Rightarrow> 't asio \<Rightarrow> 't RaftServer \<Rightarrow> (event \<times> 't RaftServer) list \<Rightarrow> 't RaftServer \<Rightarrow> bool"
  for P A s where
  run_start: "server_run P A s [] s"
| run_event: "server_run P A s tr t \<Longrightarrow> has_room t \<Longrightarrow> server_step P A ev t = Ok u \<Longrightarrow>
    server_run P A s (tr @ [(ev, t)]) u"
| run_background: "server_run P A s tr t \<Longrightarrow> background P t u \<Longrightarrow> server_run P A s tr u"

lemma server_run_inv:
  assumes "server_run P A s tr t" "raft_inv P m0 s"
  shows "raft_inv P m0 t"
  using assms(1)
proof induction
  case run_start
  then show ?case using assms(2) by simp
next
  case (run_event tr t ev u)
  then show ?case using server_step_inv by (metis okpD)
next
  case (run_background tr t u)
  then show ?case using background_inv by blast
qed

lemma election_stepD: "server_step P A ev s = Ok t \<Longrightarrow> election_step P ev s t"
  by (rule okpD [OF server_step_election])

text \<open>A candidate's tally.\<close>

lemma run_tally:
  assumes "server_run P A s tr t" "state_m s = candidate" "winned_votes_m s \<le> 1"
  defines "n \<equiv> int (length (filter (\<lambda>(ev, _). granted P (term_m s) ev) tr))"
  shows "term_m s \<le> term_m t \<and> majority_m t = majority_m s \<and>
    (term_m t = term_m s \<longrightarrow> (state_m t = candidate \<longrightarrow> winned_votes_m t \<le> 1 + n) \<and>
                           (state_m t = primary \<longrightarrow> majority_m s \<le> 1 + n))"
  using assms(1) unfolding n_def
proof induction
  case run_start
  then show ?case using assms(2,3) by simp
next
  case (run_event tr t ev u)
  let ?N = "int (length (filter (\<lambda>(ev, _). granted P (term_m s) ev) tr))"
  let ?g = "if granted P (term_m s) ev then 1 else 0 :: int"
  have e: "election_step P ev t u" using run_event.hyps(3) by (rule election_stepD)
  have n: "int (length (filter (\<lambda>(ev, _). granted P (term_m s) ev) (tr @ [(ev, t)]))) = ?N + ?g" by simp
  have mono: "term_m s \<le> term_m t" "term_m t \<le> term_m u" "majority_m t = majority_m s" "majority_m u = majority_m t"
    using run_event.IH e by (simp_all add: election_step_def)
  show ?case unfolding n
  proof (intro conjI impI)
    assume "term_m u = term_m s"
    then have eq: "term_m t = term_m s" "term_m u = term_m t" using mono by simp_all
    note IH = run_event.IH [unfolded eq(1)] and st = e [unfolded election_step_def eq(2)]
    show "winned_votes_m u \<le> 1 + (?N + ?g)" if "state_m u = candidate"
      using IH st that eq(1) by simp
    show "majority_m s \<le> 1 + (?N + ?g)" if "state_m u = primary"
      using IH st that eq(1) mono by (auto split: if_splits)
  qed (use mono in simp_all)
next
  case (run_background tr t u)
  with background_keeps [OF run_background.hyps(2)] show ?case by (auto simp: vote_frame_def)
qed

end
