(* ===== verification/Raft_Replication.thy ===== *)
theory Raft_Replication
  imports Raft_Sends Raft_Reach
begin

text \<open>
  Log replication: what an AppendEntries of a primary contains, the effect on log, role and term of the server
  that receives it (\<open>react2ae_effect\<close>), why a follower's log becomes a prefix of the primary's
  (\<open>accepted_prefix\<close>), what the primary makes of the answers, and how both sides move their commit
  index.
\<close>

section \<open>The message of a primary\<close>

lemma build_rpc_ae_spec:
  assumes "entries_inv (entries_m s)" "n = at0 (nextIndex_m s) v" "0 \<le> n" "n \<le> Entries_size (entries_m s)"
  shows "fst (build_rpc_ae v s) =
    Inr \<lparr>ae_term = term_m s,
         ae_prelog_term = (if n = 0 then -1 else en_term (log_of (entries_m s) ! nat (n - 1))),
         ae_commit_index = commit_index_m s, ae_lsn = at0 (current_rpc_lsn_m s) v,
         ae_ip = ip_m s, ae_port = port_m s,
         ae_entry = (if n < Entries_size (entries_m s) then [log_of (entries_m s) ! nat n] else []),
         ae_prelog_index = n - 1\<rparr>"
proof -
  have g: "Entries_get (entries_m s) i = Inr (log_of (entries_m s) ! nat i)"
    if "0 \<le> i" "i < Entries_size (entries_m s)" for i
    using that entries.get_log [OF assms(1)] by blast
  have e: "\<lparr>en_term = en_term x, en_index = en_index x, en_msg = en_msg x\<rparr> = x" for x :: rpc_Entry
    by simp
  show ?thesis
    using assms g [of n] g [of "n - 1"] by (auto simp: build_rpc_ae_def Let_def)
qed

section \<open>The receiver\<close>

definition log_matches :: "AppendEntryRpc \<Rightarrow> rpc_Entry list \<Rightarrow> bool" where
  "log_matches ae log \<longleftrightarrow>
     ae_prelog_index ae = -1 \<or>
     (0 \<le> ae_prelog_index ae \<and> ae_prelog_index ae < int (length log) \<and>
      en_term (log ! nat (ae_prelog_index ae)) = ae_prelog_term ae)"

definition log_after :: "AppendEntryRpc \<Rightarrow> rpc_Entry list \<Rightarrow> rpc_Entry list" where
  "log_after ae log =
     (case ae_entry ae of [] \<Rightarrow> log | e # _ \<Rightarrow> take (nat (ae_prelog_index ae + 1)) log @ [e])"

definition ae_reply :: "pb \<Rightarrow> 't RaftServer \<Rightarrow> AppendEntryRpc \<Rightarrow> bool \<Rightarrow> endpoint \<times> string" where
  "ae_reply P s ae ok =
     ((ae_ip ae, ae_port ae), wire (RESP_APPEND, ser_resp_ae P \<lparr>rae_ok = ok,
        rae_term = max (term_m s) (ae_term ae), rae_lsn = ae_lsn ae, rae_ip = ip_m s, rae_port = port_m s,
        rae_is_empty_ae = (ae_entry ae = [])\<rparr>))"

definition accepted :: "AppendEntryRpc \<Rightarrow> 't RaftServer \<Rightarrow> 't RaftServer \<Rightarrow> bool" where
  "accepted ae s t \<longleftrightarrow>
     log_of (entries_m t) = log_after ae (log_of (entries_m s)) \<and>
     commit_index_m t = min (ae_commit_index ae) (int (length (log_of (entries_m t))) - 1) \<and>
     commit_index_m s \<le> commit_index_m t \<and> ip_m t = ip_m s \<and> port_m t = port_m s \<and>
     configuration_m t = configuration_m s"

definition ae_effect :: "pb \<Rightarrow> AppendEntryRpc \<Rightarrow> 't RaftServer \<Rightarrow> 't RaftServer \<Rightarrow> bool" where
  "ae_effect P ae s t \<longleftrightarrow>
     (if ae_term ae < term_m s then sent s t [ae_reply P s ae False] \<and> log_frame s t \<and> vote_frame s t
      else term_m t = ae_term ae \<and> state_m t = follower \<and> \<not> already_voted_m t \<and>
        at0 (follower_rpc_lsn_m t) = lsn_after s (ae_term ae) (ae_ip ae, ae_port ae) (ae_lsn ae) \<and>
        (if ae_lsn ae \<le> seen_lsn s (ae_term ae) (ae_ip ae, ae_port ae) then sent s t [] \<and> log_frame s t
         else if log_matches ae (log_of (entries_m s)) then sent s t [ae_reply P s ae True] \<and> accepted ae s t
         else sent s t [ae_reply P s ae False] \<and> log_frame s t))"

lemma follower_update_effect:
  "okp (\<lambda>t. \<exists>c. t = s\<lparr>commit_index_m := min n (Entries_size (entries_m s) - 1), smc_m := c\<rparr> \<and>
            commit_index_m s \<le> min n (Entries_size (entries_m s) - 1))
     (follower_update_commit_index n s)"
proof -
  let ?c = "if Entries_size (entries_m s) - 1 < n then Entries_size (entries_m s) - 1 else n"
  have m: "?c = min n (Entries_size (entries_m s) - 1)" by simp
  have a: "okp (\<lambda>t. \<exists>c. t = s\<lparr>commit_index_m := k, smc_m := c\<rparr> \<and> commit_index_m s \<le> k)
      (apply_to_state_machine k (s\<lparr>commit_index_m := k\<rparr>))" if "commit_index_m s < k" for k
    by (rule okp_mono [OF apply_frame]) (use that in auto)
  have o: "\<exists>c. s\<lparr>commit_index_m := k\<rparr> = s\<lparr>commit_index_m := k, smc_m := c\<rparr>" for k
    by (rule exI [of _ "smc_m s"]) simp
  define k where "k = min n (Entries_size (entries_m s) - 1)"
  show ?thesis
    unfolding follower_update_commit_index_def Let_def m k_def [symmetric]
    using a [of k] o [of k] by (auto simp: wp)
qed

lemma accept_ae_effect:
  assumes inv: "entries_inv (entries_m s)" and room: "has_room s"
    and net: "rpc_inv (network_m s)" and p: "-1 \<le> ae_prelog_index ae" "ae_prelog_index ae < Entries_size (entries_m s)"
    and one: "length (ae_entry ae) \<le> 1" and t: "term_m s = ae_term ae"
  shows "okp (\<lambda>t. sent s t [ae_reply P s ae True] \<and> accepted ae s t \<and> vote_frame s t \<and>
      follower_rpc_lsn_m t = follower_rpc_lsn_m s) (accept_ae P A ae s)"
proof -
  let ?v = "(ae_ip ae, ae_port ae)"
  have tail: "okp (\<lambda>u. sent s u [ae_reply P s ae True] \<and> accepted ae s u \<and> vote_frame s u \<and>
      follower_rpc_lsn_m u = follower_rpc_lsn_m s)
      (seq (follower_update_commit_index (ae_commit_index ae) t)
           (make_resp_ae P A True ?v (ae_lsn ae) (ae_entry ae = [])))"
    if tt: "t = s\<lparr>entries_m := es\<rparr>" "entries_inv es" "log_of es = log_after ae (log_of (entries_m s))" for t es
    unfolding okp_seq
  proof (rule okp_mono [OF follower_update_effect])
    fix u assume "\<exists>c. u = t\<lparr>commit_index_m := min (ae_commit_index ae) (Entries_size (entries_m t) - 1), smc_m := c\<rparr> \<and>
      commit_index_m t \<le> min (ae_commit_index ae) (Entries_size (entries_m t) - 1)"
    then obtain c where u: "u = t\<lparr>commit_index_m := min (ae_commit_index ae) (Entries_size es - 1), smc_m := c\<rparr>"
      "commit_index_m s \<le> min (ae_commit_index ae) (Entries_size es - 1)" using tt(1) by auto
    have sz: "Entries_size es = int (length (log_of es))" using tt(2) by (rule entries.size_log)
    have nu: "rpc_inv (network_m u)" using u tt net by simp
    show "okp (\<lambda>u. sent s u [ae_reply P s ae True] \<and> accepted ae s u \<and> vote_frame s u \<and>
      follower_rpc_lsn_m u = follower_rpc_lsn_m s)
        (make_resp_ae P A True ?v (ae_lsn ae) (ae_entry ae = []) u)"
      by (rule okp_mono [OF make_resp_sends(2) [OF nu]])
        (use u tt sz t in \<open>auto simp: ae_reply_def accepted_def vote_frame_def sent_def\<close>)
  qed
  show ?thesis
  proof (cases "ae_entry ae")
    case Nil
    then show ?thesis
      using tail [of s "entries_m s"] inv by (simp add: accept_ae_def Let_def wp log_after_def)
  next
    case (Cons e es)
    let ?i = "ae_prelog_index ae + 1"
    have "okp (\<lambda>t. okp (\<lambda>u. sent s u [ae_reply P s ae True] \<and> accepted ae s u \<and> vote_frame s u \<and>
      follower_rpc_lsn_m u = follower_rpc_lsn_m s)
        (seq (follower_update_commit_index (ae_commit_index ae) t)
             (make_resp_ae P A True ?v (ae_lsn ae) (ae_entry ae = [])))) (insert_entry P ?i e s)"
    proof (rule okp_mono [OF insert_entry_effect [OF inv room]])
      show "0 \<le> ?i" "?i \<le> Entries_size (entries_m s)" using p by simp_all
      fix t assume "\<exists>es. t = s\<lparr>entries_m := es\<rparr> \<and> entries_inv es \<and> log_of es = take (nat ?i) (log_of (entries_m s)) @ [e]"
      then show "okp (\<lambda>u. sent s u [ae_reply P s ae True] \<and> accepted ae s u \<and> vote_frame s u \<and>
      follower_rpc_lsn_m u = follower_rpc_lsn_m s)
        (seq (follower_update_commit_index (ae_commit_index ae) t)
             (make_resp_ae P A True ?v (ae_lsn ae) (ae_entry ae = [])))"
        using tail Cons by (auto simp only: log_after_def list.case)
    qed
    with Cons show ?thesis by (simp add: accept_ae_def Let_def wp)
  qed
qed

text \<open>The part of the handler after the term has been brought up to date.\<close>

definition ae_body :: "pb \<Rightarrow> 't asio \<Rightarrow> AppendEntryRpc \<Rightarrow> 't RaftServer \<Rightarrow> 't RaftServer outcome" where
  "ae_body P A ae s =
     (let (ignore, s) = should_ignore_remote_rpc (ae_ip ae, ae_port ae) (ae_lsn ae) s in
      if ignore then Ok s
      else if ae_prelog_index ae = -1 then
        (if ae_prelog_term ae \<noteq> -1 then Throw Bad_prelog_term s else accept_ae P A ae s)
      else if ae_prelog_index ae \<ge> Entries_size (entries_m s) then
        make_resp_ae P A False (ae_ip ae, ae_port ae) (ae_lsn ae) (ae_entry ae = []) s
      else with_res (Entries_get (entries_m s) (ae_prelog_index ae)) s (\<lambda>prev_entry.
        if ae_prelog_term ae \<noteq> en_term prev_entry
        then make_resp_ae P A False (ae_ip ae, ae_port ae) (ae_lsn ae) (ae_entry ae = []) s
        else accept_ae P A ae s))"

lemma react2ae_split:
  "react2ae P A ae s =
     (if length (ae_entry ae) > 1 then Throw Entry_size_gt_1 s
      else if term_m s > ae_term ae then
        make_resp_ae P A False (ae_ip ae, ae_port ae) (ae_lsn ae) (ae_entry ae = []) s
      else if state_m s = primary \<and> term_m s = ae_term ae then Throw Two_primaries s
      else seq (trans2F A (ae_term ae) s) (ae_body P A ae))"
  unfolding react2ae_def ae_body_def [abs_def] Let_def by (rule refl)

lemma ae_body_effect:
  assumes inv: "entries_inv (entries_m s)" and room: "has_room s" and net: "rpc_inv (network_m s)"
    and one: "length (ae_entry ae) \<le> 1" and t: "term_m s = ae_term ae" and f: "state_m s = follower" "\<not> already_voted_m s"
  shows "okp (ae_effect P ae s) (ae_body P A ae s)"
proof -
  let ?v = "(ae_ip ae, ae_port ae)"
  define u where "u = snd (should_ignore_remote_rpc ?v (ae_lsn ae) s)"
  have fr: "frame s u" and n: "network_m u = network_m s" and e: "entries_m u = entries_m s"
    using frame_should_ignore [of s ?v "ae_lsn ae"]
    by (simp_all add: u_def should_ignore_remote_rpc_def should_ignore_parts Let_def)
  have seen: "seen_lsn s (ae_term ae) (ae_ip ae, ae_port ae) = at0 (follower_rpc_lsn_m s) ?v" using t by (simp add: seen_lsn_def)
  have ul: "at0 (follower_rpc_lsn_m u) = lsn_after s (ae_term ae) ?v (ae_lsn ae)"
    using should_ignore_lsn(2) [of ?v "ae_lsn ae" s _ u "ae_term ae"] t by (simp add: u_def prod_eq_iff)
  have ign: "fst (should_ignore_remote_rpc ?v (ae_lsn ae) s) \<longleftrightarrow> ae_lsn ae \<le> seen_lsn s (ae_term ae) (ae_ip ae, ae_port ae)"
    by (simp add: should_ignore_remote_rpc_def seen Let_def)
  have sz: "Entries_size (entries_m s) = int (length (log_of (entries_m s)))" using inv by (rule entries.size_log)
  have st: "term_m u = ae_term ae" "state_m u = follower" "\<not> already_voted_m u" using fr t f by (auto simp: vote_frame_def)
  have stale: "ae_effect P ae s u" if "ae_lsn ae \<le> seen_lsn s (ae_term ae) (ae_ip ae, ae_port ae)"
    using that t st fr n ul by (simp add: ae_effect_def sent_same)
  have no: "okp (ae_effect P ae s) (make_resp_ae P A False ?v (ae_lsn ae) (ae_entry ae = []) u)"
    if "\<not> ae_lsn ae \<le> seen_lsn s (ae_term ae) (ae_ip ae, ae_port ae)" "\<not> log_matches ae (log_of (entries_m s))"
  proof (rule okp_mono [OF make_resp_sends(2)])
    show "rpc_inv (network_m u)" using n net by simp
    fix w
    assume w: "sent u w [(?v, wire (RESP_APPEND, ser_resp_ae P \<lparr>rae_ok = False, rae_term = term_m u,
      rae_lsn = ae_lsn ae, rae_ip = ip_m u, rae_port = port_m u, rae_is_empty_ae = (ae_entry ae = [])\<rparr>))] \<and>
      (\<exists>n. w = u\<lparr>network_m := n\<rparr>)"
    have ad: "ip_m u = ip_m s" "port_m u = port_m s" using fr by (simp_all add: log_frame_def)
    have "log_frame u w" "term_m w = term_m u" "state_m w = state_m u" "already_voted_m w = already_voted_m u"
      "follower_rpc_lsn_m w = follower_rpc_lsn_m u"
      using w by (auto simp: log_frame_def sent_def)
    moreover from this have "log_frame s w" using fr log_frame_trans by blast
    moreover have "sent s w [ae_reply P s ae False]"
      using w t st n ad by (simp add: ae_reply_def sent_def)
    ultimately show "ae_effect P ae s w" using that t st ul by (simp add: ae_effect_def)
  qed
  have yes: "okp (ae_effect P ae s) (accept_ae P A ae u)"
    if "\<not> ae_lsn ae \<le> seen_lsn s (ae_term ae) (ae_ip ae, ae_port ae)" "log_matches ae (log_of (entries_m s))"
  proof (rule okp_mono [OF accept_ae_effect])
    show "entries_inv (entries_m u)" "has_room u" "rpc_inv (network_m u)" "length (ae_entry ae) \<le> 1"
      using inv room net one e n by simp_all
    show "-1 \<le> ae_prelog_index ae" "ae_prelog_index ae < Entries_size (entries_m u)" "term_m u = ae_term ae"
      using that(2) sz e st by (auto simp: log_matches_def)
    fix w assume w: "sent u w [ae_reply P u ae True] \<and> accepted ae u w \<and> vote_frame u w \<and>
      follower_rpc_lsn_m w = follower_rpc_lsn_m u"
    have "ae_reply P u ae True = ae_reply P s ae True" "accepted ae u w = accepted ae s w" "sent u w = sent s w"
      using fr n e t st by (simp_all add: ae_reply_def accepted_def sent_def log_frame_def fun_eq_iff)
    then show "ae_effect P ae s w"
      using w that t st ul by (simp add: ae_effect_def vote_frame_def)
  qed
  have get: "0 \<le> i \<and> i < Entries_size (entries_m s) \<and> a = log_of (entries_m s) ! nat i"
    if "Entries_get (entries_m s) i = Inr a" for i a
    using Entries_get_nonneg [OF that] entries.get_log [OF inv, of i] that by simp
  show ?thesis
    using stale no yes sz
    unfolding ae_body_def split_def Let_def okp_if okp_with_res u_def [symmetric] ign e
    by (auto simp: log_matches_def dest!: get)
qed

theorem react2ae_effect:
  assumes "entries_inv (entries_m s)" "has_room s" "rpc_inv (network_m s)"
  shows "okp (ae_effect P ae s) (react2ae P A ae s)"
proof -
  let ?v = "(ae_ip ae, ae_port ae)"
  have old: "okp (ae_effect P ae s) (make_resp_ae P A False ?v (ae_lsn ae) (ae_entry ae = []) s)"
    if "ae_term ae < term_m s"
    by (rule okp_mono [OF make_resp_sends(2) [OF assms(3)]])
      (use that in \<open>auto simp: ae_effect_def ae_reply_def log_frame_def vote_frame_def sent_def\<close>)
  have new: "okp (\<lambda>u. okp (ae_effect P ae s) (ae_body P A ae u)) (trans2F A (ae_term ae) s)"
    if le: "\<not> ae_term ae < term_m s" and one: "\<not> length (ae_entry ae) > 1"
    using conjI [OF trans2F_effect [of s "ae_term ae" A] trans2F_keeps [of s "ae_term ae" A], folded okp_conj]
  proof (rule okp_mono)
    fix u
    assume "(log_frame s u \<and> term_m u = ae_term ae \<and> term_m s \<le> ae_term ae \<and> state_m u = follower \<and>
         \<not> already_voted_m u \<and> winned_votes_m u = 0) \<and> network_m u = network_m s \<and>
         follower_rpc_lsn_m u = (if term_m s < ae_term ae then put_all (configuration_m s) (-1) (follower_rpc_lsn_m s)
                                 else follower_rpc_lsn_m s)"
    then have u: "log_frame s u" "term_m u = ae_term ae" "state_m u = follower" "network_m u = network_m s"
        "\<not> already_voted_m u"
        "follower_rpc_lsn_m u = (if term_m s < ae_term ae then put_all (configuration_m s) (-1) (follower_rpc_lsn_m s)
                                 else follower_rpc_lsn_m s)" by simp_all
    have e: "entries_m u = entries_m s" "ip_m u = ip_m s" "port_m u = port_m s" "commit_index_m u = commit_index_m s"
      "configuration_m u = configuration_m s"
      using u(1) by (simp_all add: log_frame_def)
    have l: "seen_lsn u (ae_term ae) w = seen_lsn s (ae_term ae) w" for w using le u(2,6) by (simp add: seen_lsn_def at0_put_all)
    have r: "ae_reply P u ae b = ae_reply P s ae b" for b using le u(2) e by (simp add: ae_reply_def)
    have "okp (ae_effect P ae u) (ae_body P A ae u)"
      using assms u e one by (intro ae_body_effect) simp_all
    then show "okp (ae_effect P ae s) (ae_body P A ae u)"
      by (rule okp_mono)
        (use le u l r e log_frame_trans lsn_after_cong [OF l] in \<open>auto simp: ae_effect_def sent_def accepted_def split: if_splits\<close>)
  qed
  show ?thesis using old new by (simp add: react2ae_split wp)
qed

text \<open>A heartbeat to an empty log, with nothing newly committed, is always answered.\<close>

lemma heartbeat_total:
  assumes "asio_law A pend" "address_ok A (ae_ip ae)"
    and ae: "ae_entry ae = []" "ae_prelog_index ae = -1" "ae_prelog_term ae = -1" "ae_commit_index ae = commit_index_m s"
    and s: "term_m s \<le> ae_term ae" "state_m s \<noteq> primary" "commit_index_m s < Entries_size (entries_m s)"
    and len: "length (ser_resp_ae P \<lparr>rae_ok = True, rae_term = ae_term ae, rae_lsn = ae_lsn ae,
        rae_ip = ip_m s, rae_port = port_m s, rae_is_empty_ae = True\<rparr>) < 9999"
  shows "surely (\<lambda>t. True) (react2ae P A ae s)"
proof -
  have reply: "surely (\<lambda>t. True) (make_resp_ae P A True (ae_ip ae, ae_port ae) (ae_lsn ae) True t)"
    if "term_m t = ae_term ae" "ip_m t = ip_m s" "port_m t = port_m s" for t
    unfolding make_resp_ae_def using that assms(2) len by (intro net_call_total) simp_all
  have body: "surely (\<lambda>t. True) (ae_body P A ae t)" if t: "term_m t = ae_term ae" "log_frame s t" for t
  proof -
    obtain ign u where u: "should_ignore_remote_rpc (ae_ip ae, ae_port ae) (ae_lsn ae) t = (ign, u)" by fastforce
    have "frame t u" using frame_should_ignore [of t "(ae_ip ae, ae_port ae)" "ae_lsn ae"] u by simp
    then have uf: "term_m u = ae_term ae" "ip_m u = ip_m s" "port_m u = port_m s" "entries_m u = entries_m s"
      "commit_index_m u = commit_index_m s"
      using t by (simp_all add: log_frame_def vote_frame_def)
    have "follower_update_commit_index (commit_index_m s) u = Ok (u\<lparr>commit_index_m := commit_index_m s\<rparr>)"
      using s(3) uf by (simp add: follower_update_commit_index_def Let_def)
    then show ?thesis
      using u uf ae s(3) reply [of "u\<lparr>commit_index_m := commit_index_m s\<rparr>"]
      by (simp add: ae_body_def accept_ae_def)
  qed
  have "surely (\<lambda>t. term_m t = ae_term ae \<and> log_frame s t) (trans2F A (ae_term ae) s)"
    using surelyI [OF trans2F_total [OF assms(1) s(1)] trans2F_effect] by (auto elim!: surely_mono)
  then have "surely (\<lambda>t. True) (seq (trans2F A (ae_term ae) s) (ae_body P A ae))"
    unfolding surely_seq by (rule surely_mono) (use body in blast)
  with ae s show ?thesis by (simp add: react2ae_split)
qed

section \<open>Log matching\<close>

text \<open>Two logs that have an entry of the same term at the same position agree up to there.\<close>

definition log_matching :: "rpc_Entry list \<Rightarrow> rpc_Entry list \<Rightarrow> bool" where
  "log_matching xs ys \<longleftrightarrow>
     (\<forall>k < min (length xs) (length ys). en_term (xs ! k) = en_term (ys ! k) \<longrightarrow> take (Suc k) xs = take (Suc k) ys)"

lemma log_matching_sym: "log_matching xs ys = log_matching ys xs"
  unfolding log_matching_def min.commute [of "length ys"] by (metis (no_types))

lemma log_matching_refl: "log_matching xs xs"
  by (simp add: log_matching_def)

lemma log_matching_take: "log_matching xs ys \<Longrightarrow> log_matching xs (take n ys)"
  by (auto simp: log_matching_def min_def)

text \<open>If the check of the receiver passes on a message built from the log \<open>xs\<close>, and the two logs
  match, the receiver's log up to the new entry is the sender's.\<close>

lemma accepted_prefix:
  assumes "log_matching xs ys" "log_matches ae ys" "n = nat (ae_prelog_index ae + 1)" "n \<le> length xs"
    "ae_prelog_term ae = (if n = 0 then -1 else en_term (xs ! (n - 1)))"
    "ae_entry ae = (if n < length xs then [xs ! n] else [])"
  shows "take n ys = take n xs" and "n < length xs \<Longrightarrow> log_after ae ys = take (Suc n) xs"
proof -
  show p: "take n ys = take n xs"
  proof (cases "n = 0")
    case False
    with assms(2,3) have i: "0 \<le> ae_prelog_index ae" "ae_prelog_index ae < int (length ys)"
      "en_term (ys ! nat (ae_prelog_index ae)) = ae_prelog_term ae" by (auto simp: log_matches_def)
    define k where "k = nat (ae_prelog_index ae)"
    have k: "n = Suc k" "nat (ae_prelog_index ae) = k" "k < length ys"
      using i(1,2) assms(3) by (simp_all add: k_def nat_add_distrib nat_less_iff)
    then show ?thesis using assms(1,4,5) i(3) by (auto simp: log_matching_def)
  qed simp
  assume "n < length xs"
  then show "log_after ae ys = take (Suc n) xs"
    using assms(3,6) p by (simp add: log_after_def take_Suc_conv_app_nth)
qed

text \<open>So the logs still match afterwards, and agree up to what was sent.\<close>

lemma accepted_matching:
  assumes "log_matching xs ys" "log_matches ae ys" "n = nat (ae_prelog_index ae + 1)" "n \<le> length xs"
    "ae_prelog_term ae = (if n = 0 then -1 else en_term (xs ! (n - 1)))"
    "ae_entry ae = (if n < length xs then [xs ! n] else [])"
  shows "log_matching xs (log_after ae ys) \<and>
    take (n + length (ae_entry ae)) (log_after ae ys) = take (n + length (ae_entry ae)) xs"
proof (cases "n < length xs")
  case True
  then show ?thesis using accepted_prefix(2) [OF assms] assms(6) log_matching_take [OF log_matching_refl] by simp
next
  case False
  then show ?thesis using accepted_prefix(1) [OF assms] assms(1,6) by (simp add: log_after_def)
qed

section \<open>The primary's commit index\<close>

text \<open>How many members are known to have saved position \<open>c\<close>.\<close>

definition savers :: "'t RaftServer \<Rightarrow> int \<Rightarrow> endpoint set" where
  "savers s c = {w \<in> set (configuration_m s). c \<le> at0 (Follower_saved_index_m s) w}"

definition quorum_commit :: "'t RaftServer \<Rightarrow> bool" where
  "quorum_commit s \<longleftrightarrow> majority_m s \<le> int (card (savers s (commit_index_m s))) \<and>
     (\<forall>c > commit_index_m s. int (card (savers s c)) < majority_m s)"

lemma count_savers:
  assumes "conf_inv s"
  shows "length (filter (\<lambda>x. c \<le> x) (map (at0 (Follower_saved_index_m s)) (map fst (Follower_saved_index_m s)))) =
    card (savers s c)"
proof -
  let ?ks = "map fst (Follower_saved_index_m s)"
  have d: "distinct ?ks" "set ?ks = set (configuration_m s)" using assms by (simp_all add: conf_inv_def keys_def)
  have "length (filter (\<lambda>x. c \<le> x) (map (at0 (Follower_saved_index_m s)) ?ks)) =
      length (filter (\<lambda>w. c \<le> at0 (Follower_saved_index_m s) w) ?ks)"
    by (simp add: filter_map comp_def)
  also have "\<dots> = card ({w. c \<le> at0 (Follower_saved_index_m s) w} \<inter> set ?ks)"
    using d(1) by (rule distinct_length_filter)
  also have "{w. c \<le> at0 (Follower_saved_index_m s) w} \<inter> set ?ks = savers s c"
    unfolding d(2) by (auto simp: savers_def)
  finally show ?thesis .
qed

lemma commit_is_quorum:
  assumes "conf_inv s" "1 \<le> majority_m s" "majority_m s \<le> int (length (configuration_m s))"
  shows "quorum_commit (s\<lparr>commit_index_m := temp_sort s ! nat (majority_m s - 1)\<rparr>)"
proof -
  let ?xs = "map (at0 (Follower_saved_index_m s)) (map fst (Follower_saved_index_m s))"
  let ?m = "nat (majority_m s)"
  have m: "0 < ?m" "?m \<le> length ?xs" using assms temp_sort_members(3) [OF assms(1)] by simp_all
  have "nat (majority_m s - 1) = ?m - 1" using assms(2) by simp
  then have v: "temp_sort s ! nat (majority_m s - 1) = rev (sort ?xs) ! (?m - 1)" (is "?c = _")
    unfolding temp_sort_members(1) [OF assms(1)] by simp
  have "?m \<le> card (savers s ?c)"
    using kth_largest(1) [OF m] count_savers [OF assms(1)] unfolding v by simp
  moreover have "card (savers s d) < ?m" if "?c < d" for d
    using kth_largest(2) [OF m, of d] that count_savers [OF assms(1), of d] unfolding v by simp
  ultimately show ?thesis
    using assms(2) by (force simp: quorum_commit_def savers_def)
qed

lemma primary_update_effect:
  assumes "conf_inv s"
  shows "okp (\<lambda>t. quorum_commit t \<and> v \<in> set (configuration_m s) \<and>
      Follower_saved_index_m t = put v i (Follower_saved_index_m s) \<and>
      (\<exists>k c. t = s\<lparr>Follower_saved_index_m := put v i (Follower_saved_index_m s), commit_index_m := k, smc_m := c\<rparr>))
    (primary_update_commit_index v i s)"
proof -
  let ?s = "s\<lparr>Follower_saved_index_m := put v i (Follower_saved_index_m s)\<rparr>"
  have "okp (\<lambda>t. quorum_commit t \<and> v \<in> set (configuration_m s) \<and>
      Follower_saved_index_m t = put v i (Follower_saved_index_m s) \<and>
      (\<exists>k c. t = s\<lparr>Follower_saved_index_m := put v i (Follower_saved_index_m s), commit_index_m := k, smc_m := c\<rparr>))
      (apply_to_state_machine k (?s\<lparr>commit_index_m := k\<rparr>))"
    if k: "k = temp_sort ?s ! nat (majority_m s - 1)"
      and l: "length (put v i (Follower_saved_index_m s)) \<le> length (configuration_m s)"
      and m: "1 \<le> majority_m s" "majority_m s \<le> int (length (configuration_m s))" for k
  proof -
    have v: "v \<in> set (configuration_m s)" and c: "conf_inv ?s"
      using conf_inv_put_saved [OF assms l] by simp_all
    have q: "quorum_commit (?s\<lparr>commit_index_m := k\<rparr>)"
      using commit_is_quorum [OF c] m k by simp
    have q': "quorum_commit (?s\<lparr>commit_index_m := k, smc_m := c\<rparr>)" for c
      using q by (simp add: quorum_commit_def savers_def)
    show ?thesis
      by (rule okp_mono [OF apply_frame]) (use v q' in auto)
  qed
  then show ?thesis by (simp add: primary_update_commit_index_def Let_def wp)
qed

text \<open>Two majorities of one configuration share a member.\<close>

lemma majorities_meet:
  assumes "conf_inv s" "X \<subseteq> set (configuration_m s)" "Y \<subseteq> set (configuration_m s)"
    "majority_m s \<le> int (card X)" "majority_m s \<le> int (card Y)"
  shows "X \<inter> Y \<noteq> {}"
proof (rule quorums_meet [OF _ assms(2,3)])
  let ?U = "set (configuration_m s)"
  have "card ?U \<le> length (configuration_m s)" by (rule card_length)
  then have "int (card ?U) div 2 + 1 \<le> majority_m s" using assms(1) by (auto simp: conf_inv_def)
  then show "int (card ?U) div 2 + 1 \<le> int (card X)" "int (card ?U) div 2 + 1 \<le> int (card Y)"
    using assms(4,5) by simp_all
qed simp

section \<open>Answers\<close>

text \<open>The AppendEntries for a member whose next entry is \<open>n\<close>, carrying the commit index \<open>c\<close>.\<close>

definition ae_at :: "'t RaftServer \<Rightarrow> endpoint \<Rightarrow> int \<Rightarrow> int \<Rightarrow> AppendEntryRpc" where
  "ae_at s v n c =
     \<lparr>ae_term = term_m s,
      ae_prelog_term = (if n = 0 then -1 else en_term (log_of (entries_m s) ! nat (n - 1))),
      ae_commit_index = c, ae_lsn = at0 (current_rpc_lsn_m s) v, ae_ip = ip_m s, ae_port = port_m s,
      ae_entry = (if n < Entries_size (entries_m s) then [log_of (entries_m s) ! nat n] else []),
      ae_prelog_index = n - 1\<rparr>"

text \<open>\<open>s\<close> sends \<open>v\<close> that message, and will use the next sequence number for the next one.\<close>

definition sends_ae :: "pb \<Rightarrow> endpoint \<Rightarrow> int \<Rightarrow> int \<Rightarrow> 't RaftServer \<Rightarrow> 't RaftServer \<Rightarrow> bool" where
  "sends_ae P v n c s t \<longleftrightarrow> sent s t [(v, wire (APPEND_ENTRY, ser_ae P (ae_at s v n c)))] \<and>
     at0 (current_rpc_lsn_m t) v = at0 (current_rpc_lsn_m s) v + 1"

definition ack_effect :: "pb \<Rightarrow> endpoint \<Rightarrow> Resp_AppendEntryRpc \<Rightarrow> 't RaftServer \<Rightarrow> 't RaftServer \<Rightarrow> bool" where
  "ack_effect P v r s t \<longleftrightarrow>
     (let n = at0 (nextIndex_m s) v; size = Entries_size (entries_m s);
          n' = (if rae_ok r then (if n < size \<and> \<not> rae_is_empty_ae r then n + 1 else n) else n - 1)
      in if at0 (current_rpc_lsn_m s) v \<noteq> rae_lsn r + 1 then sent s t [] \<and> log_frame s t
         else at0 (nextIndex_m t) v = n' \<and> entries_m t = entries_m s \<and>
           (if rae_ok r then
              n \<le> size \<and> v \<in> set (configuration_m s) \<and> at0 (Follower_saved_index_m t) v = n' - 1 \<and> quorum_commit t \<and>
              (if n = size then sent s t [] else sends_ae P v n' (commit_index_m t) s t)
            else
              0 < n \<and> n \<le> size \<and> commit_index_m t = commit_index_m s \<and> sends_ae P v n' (commit_index_m t) s t))"

lemma sends_ae_cong:
  "network_m y = network_m s \<Longrightarrow> entries_m y = entries_m s \<Longrightarrow> term_m y = term_m s \<Longrightarrow>
   ip_m y = ip_m s \<Longrightarrow> port_m y = port_m s \<Longrightarrow> at0 (current_rpc_lsn_m y) v = at0 (current_rpc_lsn_m s) v \<Longrightarrow>
   sends_ae P v n c y t = sends_ae P v n c s t"
  by (simp add: sends_ae_def sent_def ae_at_def)

lemma AE_effect:
  assumes "entries_inv (entries_m s)" "rpc_inv (network_m s)" "n = at0 (nextIndex_m s) v" "0 \<le> n"
    "n \<le> Entries_size (entries_m s)"
  shows "okp (\<lambda>t. frame s t \<and> sends_ae P v n (commit_index_m s) s t) (AE P A v s)"
proof -
  have "ae_to s v = ae_at s v n (commit_index_m s)"
    using build_rpc_ae_spec [OF assms(1,3-5)] by (simp add: ae_to_def ae_at_def)
  then show ?thesis
    using conjI [OF frame_AE [of s P A v] conjI [OF AE_sends [OF assms(2), of v P A] AE_lsn [OF assms(2), of v P A],
      folded okp_conj], folded okp_conj]
    by (elim okp_mono) (auto simp: sends_ae_def)
qed

lemma resend_effect:
  assumes "entries_inv (entries_m s)" "rpc_inv (network_m s)" "n = at0 (nextIndex_m s) v" "0 \<le> n"
    "n \<le> Entries_size (entries_m s)"
  shows "okp (\<lambda>t. log_frame s t \<and> sends_ae P v n (commit_index_m s) s t)
     (case map_of (retry_timers_m s) v of None \<Rightarrow> Throw Null_deref s
      | Some x \<Rightarrow> AE P A v (s\<lparr>retry_timers_m := put v (g x) (retry_timers_m s)\<rparr>))"
proof (cases "map_of (retry_timers_m s) v")
  case (Some x)
  let ?s = "s\<lparr>retry_timers_m := put v (g x) (retry_timers_m s)\<rparr>"
  have f: "log_frame s ?s" using Some by (simp add: log_frame_def)
  have "okp (\<lambda>t. frame ?s t \<and> sends_ae P v n (commit_index_m ?s) ?s t) (AE P A v ?s)"
    using assms by (intro AE_effect) simp_all
  then have "okp (\<lambda>t. log_frame s t \<and> sends_ae P v n (commit_index_m s) s t) (AE P A v ?s)"
    by (rule okp_mono) (use f log_frame_trans sends_ae_cong [where y = ?s and s = s] in auto)
  with Some show ?thesis by simp
qed simp

lemma quorum_commit_frame: "quorum_commit s \<Longrightarrow> log_frame s t \<Longrightarrow> quorum_commit t"
  by (simp add: quorum_commit_def savers_def log_frame_def)

lemma update_resend:
  assumes "conf_inv s" "entries_inv (entries_m s)" "n = at0 (nextIndex_m s) v" "0 \<le> n"
    "n \<le> Entries_size (entries_m s)"
  shows "okp (\<lambda>t. at0 (nextIndex_m t) v = n \<and> entries_m t = entries_m s \<and> v \<in> set (configuration_m s) \<and>
      at0 (Follower_saved_index_m t) v = n - 1 \<and> quorum_commit t \<and> sends_ae P v n (commit_index_m t) s t)
    (seq (primary_update_commit_index v (n - 1) s)
      (\<lambda>s. case map_of (retry_timers_m s) v of None \<Rightarrow> Throw Null_deref s
         | Some x \<Rightarrow> AE P A v (s\<lparr>retry_timers_m := put v (g x) (retry_timers_m s)\<rparr>)))"
  unfolding okp_seq
proof (rule okp_mono [OF primary_update_effect [OF assms(1)]])
  fix u assume u: "quorum_commit u \<and> v \<in> set (configuration_m s) \<and>
      Follower_saved_index_m u = put v (n - 1) (Follower_saved_index_m s) \<and>
      (\<exists>k c. u = s\<lparr>Follower_saved_index_m := put v (n - 1) (Follower_saved_index_m s), commit_index_m := k, smc_m := c\<rparr>)"
  then have e: "entries_m u = entries_m s" "network_m u = network_m s" "nextIndex_m u = nextIndex_m s"
    "term_m u = term_m s" "ip_m u = ip_m s" "port_m u = port_m s" "current_rpc_lsn_m u = current_rpc_lsn_m s" by auto
  have "okp (\<lambda>t. log_frame u t \<and> sends_ae P v n (commit_index_m u) u t)
      (case map_of (retry_timers_m u) v of None \<Rightarrow> Throw Null_deref u
         | Some x \<Rightarrow> AE P A v (u\<lparr>retry_timers_m := put v (g x) (retry_timers_m u)\<rparr>))"
    using assms e by (intro resend_effect) (simp_all add: conf_inv_def)
  then show "okp (\<lambda>t. at0 (nextIndex_m t) v = n \<and> entries_m t = entries_m s \<and> v \<in> set (configuration_m s) \<and>
      at0 (Follower_saved_index_m t) v = n - 1 \<and> quorum_commit t \<and> sends_ae P v n (commit_index_m t) s t)
      (case map_of (retry_timers_m u) v of None \<Rightarrow> Throw Null_deref u
         | Some x \<Rightarrow> AE P A v (u\<lparr>retry_timers_m := put v (g x) (retry_timers_m u)\<rparr>))"
  proof (rule okp_mono)
    fix t assume t: "log_frame u t \<and> sends_ae P v n (commit_index_m u) u t"
    then have "quorum_commit t" using u quorum_commit_frame by blast
    moreover have "sends_ae P v n (commit_index_m t) s t"
      using t e sends_ae_cong [where y = u and s = s] by (simp add: log_frame_def)
    ultimately show "at0 (nextIndex_m t) v = n \<and> entries_m t = entries_m s \<and> v \<in> set (configuration_m s) \<and>
      at0 (Follower_saved_index_m t) v = n - 1 \<and> quorum_commit t \<and> sends_ae P v n (commit_index_m t) s t"
      using t u e assms(3) by (simp add: log_frame_def)
  qed
qed

theorem primary_deal_effect:
  assumes inv: "raft_inv P' m0 s" and p: "state_m s = primary"
  shows "okp (ack_effect P v r s) (primary_deal_resp_ae_with_same_term P A v r s)"
proof -
  let ?n = "at0 (nextIndex_m s) v" and ?sz = "Entries_size (entries_m s)"
  define x where "x = s\<lparr>current_rpc_lsn_m := touch v (current_rpc_lsn_m s), nextIndex_m := touch v (nextIndex_m s)\<rparr>"
  have x: "conf_inv x" "entries_inv (entries_m x)" "rpc_inv (network_m x)" "entries_m x = entries_m s"
    "at0 (nextIndex_m x) v = ?n" "commit_index_m x = commit_index_m s" "network_m x = network_m s"
    "configuration_m x = configuration_m s" "retry_timers_m x = retry_timers_m s" "term_m x = term_m s"
    "ip_m x = ip_m s" "port_m x = port_m s" "at0 (current_rpc_lsn_m x) = at0 (current_rpc_lsn_m s)"
    using inv by (simp_all add: x_def raft_inv_def conf_inv_def log_inv_def)
  have nn: "0 \<le> ?n" and le: "v \<in> set (configuration_m s) \<Longrightarrow> ?n \<le> ?sz"
    using inv p unfolding raft_inv_def book_inv_def by blast+
  have stale: "ack_effect P v r s (s\<lparr>current_rpc_lsn_m := touch v (current_rpc_lsn_m s)\<rparr>)"
    if "at0 (current_rpc_lsn_m s) v \<noteq> rae_lsn r + 1"
    using that by (simp add: ack_effect_def sent_same log_frame_def Let_def)
  have whole: "okp (ack_effect P v r s) (primary_update_commit_index v (?n - 1) x)"
    if "at0 (current_rpc_lsn_m s) v = rae_lsn r + 1" "rae_ok r" "?n = ?sz"
    by (rule okp_mono [OF primary_update_effect [OF x(1)]])
      (use that x in \<open>auto simp: ack_effect_def Let_def sent_same\<close>)
  have again: "okp (ack_effect P v r s) (seq (primary_update_commit_index v (n - 1) y)
      (\<lambda>s. case map_of (retry_timers_m s) v of None \<Rightarrow> Throw Null_deref s
         | Some t \<Rightarrow> AE P A v (s\<lparr>retry_timers_m := put v (snd (expires_at_min A t)) (retry_timers_m s)\<rparr>)))"
    if "at0 (current_rpc_lsn_m s) v = rae_lsn r + 1" "rae_ok r" "?n < ?sz"
      "n = (if rae_is_empty_ae r then ?n else ?n + 1)" "y = x\<lparr>nextIndex_m := m\<rparr>" "at0 m v = n" for n y m
  proof (rule okp_mono [OF update_resend])
    show "conf_inv y" "entries_inv (entries_m y)" "n = at0 (nextIndex_m y) v" "0 \<le> n" "n \<le> Entries_size (entries_m y)"
      using that nn x by (simp_all add: conf_inv_def)
    fix t assume "at0 (nextIndex_m t) v = n \<and> entries_m t = entries_m y \<and> v \<in> set (configuration_m y) \<and>
      at0 (Follower_saved_index_m t) v = n - 1 \<and> quorum_commit t \<and> sends_ae P v n (commit_index_m t) y t"
    then show "ack_effect P v r s t"
      using that sends_ae_cong [where y = y and s = s] x
      by (cases "rae_is_empty_ae r") (simp_all add: ack_effect_def Let_def)
  qed
  have refused: "okp (ack_effect P v r s) (case map_of (retry_timers_m y) v of None \<Rightarrow> Throw Null_deref y
         | Some t \<Rightarrow> AE P A v (y\<lparr>retry_timers_m := put v (snd (cancel A t)) (retry_timers_m y)\<rparr>))"
    if "at0 (current_rpc_lsn_m s) v = rae_lsn r + 1" "\<not> rae_ok r" "?n \<noteq> 0"
      "y = x\<lparr>nextIndex_m := put v (?n - 1) (nextIndex_m x)\<rparr>" for y
  proof (cases "v \<in> set (configuration_m s)")
    case True
    show ?thesis
    proof (rule okp_mono [OF resend_effect])
      show "entries_inv (entries_m y)" "rpc_inv (network_m y)" "?n - 1 = at0 (nextIndex_m y) v" "0 \<le> ?n - 1"
        "?n - 1 \<le> Entries_size (entries_m y)"
        using that nn x le [OF True] by simp_all
      fix t assume "log_frame y t \<and> sends_ae P v (?n - 1) (commit_index_m y) y t"
      then show "ack_effect P v r s t"
        using that nn x le [OF True] sends_ae_cong [where y = y and s = s] by (simp add: ack_effect_def Let_def log_frame_def)
    qed
  next
    case False
    then have "map_of (retry_timers_m y) v = None"
      using inv x that(4) by (simp add: raft_inv_def conf_inv_def keys_iff_map_of [symmetric] set_eq_iff)
        (metis keys_iff_map_of surj_pair)
    then show ?thesis by simp
  qed
  show ?thesis
    unfolding primary_deal_resp_ae_with_same_term_def Let_def okp_if
    using stale whole again [of ?n x "nextIndex_m x"] refused [OF _ _ _ refl] x(5)
      again [of "?n + 1" "x\<lparr>nextIndex_m := put v (?n + 1) (nextIndex_m x)\<rparr>" "put v (?n + 1) (nextIndex_m x)"]
    by (simp add: x_def cong: option.case_cong)
qed

end
