(* ===== verification/Raft_Codec.thy ===== *)
theory Raft_Codec
  imports Raft_Messages
begin

text \<open>
  A concrete, executable codec with the round-trip behaviour \<open>pb_law\<close>. It is not protobuf's wire
  format: the development's theorems hold for every codec with that behaviour, and this one shows
  that the hypothesis can hold and lets the concrete scenarios run.
\<close>

fun enc_str :: "string \<Rightarrow> string" where
  "enc_str [] = ''0''"
| "enc_str (c # cs) = CHR ''1'' # c # enc_str cs"

fun dec_str :: "string \<Rightarrow> string \<times> string" where
  "dec_str (a # c # r) = (if a = CHR ''1'' then (let (s, t) = dec_str r in (c # s, t)) else ([], c # r))"
| "dec_str [a] = ([], [])"
| "dec_str [] = ([], [])"

lemma dec_enc_str [simp]: "dec_str (enc_str s @ r) = (s, r)"
proof (induction s)
  case Nil
  then show ?case by (cases r) simp_all
qed simp

definition enc_int :: "int \<Rightarrow> string" where "enc_int i = enc_str (to_string i)"

definition dec_int :: "string \<Rightarrow> int \<times> string" where
  "dec_int s = (let (t, r) = dec_str s in (atoi t, r))"

definition enc_bool :: "bool \<Rightarrow> string" where "enc_bool b = enc_str (show_bool b)"

definition dec_bool :: "string \<Rightarrow> bool \<times> string" where
  "dec_bool s = (let (t, r) = dec_str s in (t = ''1'', r))"

lemma dec_enc_int [simp]: "dec_int (enc_int i @ r) = (i, r)"
  using atoi_to_string [of "[]" i] by (simp add: dec_int_def enc_int_def)

lemma dec_enc_bool [simp]: "dec_bool (enc_bool b @ r) = (b, r)"
  by (simp add: dec_bool_def enc_bool_def show_bool_def)

definition enc_entry :: "rpc_Entry \<Rightarrow> string" where
  "enc_entry e = enc_int (en_term e) @ enc_int (en_index e) @ enc_str (en_msg e)"

definition dec_entry :: "string \<Rightarrow> rpc_Entry \<times> string" where
  "dec_entry s = (let (t, r) = dec_int s; (i, r) = dec_int r; (m, r) = dec_str r in
     (\<lparr>en_term = t, en_index = i, en_msg = m\<rparr>, r))"

lemma dec_enc_entry [simp]: "dec_entry (enc_entry e @ r) = (e, r)"
  by (simp add: dec_entry_def enc_entry_def)

primrec dec_n :: "(string \<Rightarrow> 'a \<times> string) \<Rightarrow> nat \<Rightarrow> string \<Rightarrow> 'a list \<times> string" where
  "dec_n d 0 s = ([], s)"
| "dec_n d (Suc n) s = (let (x, r) = d s; (xs, r) = dec_n d n r in (x # xs, r))"

definition enc_list :: "('a \<Rightarrow> string) \<Rightarrow> 'a list \<Rightarrow> string" where
  "enc_list e xs = enc_int (int (length xs)) @ concat (map e xs)"

definition dec_list :: "(string \<Rightarrow> 'a \<times> string) \<Rightarrow> string \<Rightarrow> 'a list \<times> string" where
  "dec_list d s = (let (n, r) = dec_int s in dec_n d (nat n) r)"

lemma dec_enc_list:
  assumes "\<And>x r. d (e x @ r) = (x, r)"
  shows "dec_list d (enc_list e xs @ r) = (xs, r)"
proof -
  have "dec_n d (length xs) (concat (map e xs) @ r) = (xs, r)"
    by (induction xs) (simp_all add: assms)
  then show ?thesis by (simp add: dec_list_def enc_list_def)
qed

definition enc_ae :: "AppendEntryRpc \<Rightarrow> string" where
  "enc_ae m = enc_int (ae_term m) @ enc_int (ae_prelog_term m) @ enc_int (ae_commit_index m) @
     enc_int (ae_lsn m) @ enc_str (ae_ip m) @ enc_int (ae_port m) @
     enc_list enc_entry (ae_entry m) @ enc_int (ae_prelog_index m)"

definition dec_ae :: "string \<Rightarrow> AppendEntryRpc" where
  "dec_ae s = (let (t, r) = dec_int s; (pt, r) = dec_int r; (c, r) = dec_int r; (l, r) = dec_int r;
     (i, r) = dec_str r; (p, r) = dec_int r; (es, r) = dec_list dec_entry r; (pi, r) = dec_int r in
     \<lparr>ae_term = t, ae_prelog_term = pt, ae_commit_index = c, ae_lsn = l, ae_ip = i, ae_port = p,
      ae_entry = es, ae_prelog_index = pi\<rparr>)"

definition enc_resp_ae :: "Resp_AppendEntryRpc \<Rightarrow> string" where
  "enc_resp_ae m = enc_bool (rae_ok m) @ enc_int (rae_term m) @ enc_int (rae_lsn m) @
     enc_str (rae_ip m) @ enc_int (rae_port m) @ enc_bool (rae_is_empty_ae m)"

definition dec_resp_ae :: "string \<Rightarrow> Resp_AppendEntryRpc" where
  "dec_resp_ae s = (let (b, r) = dec_bool s; (t, r) = dec_int r; (l, r) = dec_int r;
     (i, r) = dec_str r; (p, r) = dec_int r; (e, r) = dec_bool r in
     \<lparr>rae_ok = b, rae_term = t, rae_lsn = l, rae_ip = i, rae_port = p, rae_is_empty_ae = e\<rparr>)"

definition enc_rv :: "RequestVoteRpc \<Rightarrow> string" where
  "enc_rv m = enc_int (rv_term m) @ enc_int (rv_latest_index m) @ enc_int (rv_latest_term m) @
     enc_int (rv_lsn m) @ enc_str (rv_ip m) @ enc_int (rv_port m)"

definition dec_rv :: "string \<Rightarrow> RequestVoteRpc" where
  "dec_rv s = (let (t, r) = dec_int s; (li, r) = dec_int r; (lt, r) = dec_int r; (l, r) = dec_int r;
     (i, r) = dec_str r; (p, r) = dec_int r in
     \<lparr>rv_term = t, rv_latest_index = li, rv_latest_term = lt, rv_lsn = l, rv_ip = i, rv_port = p\<rparr>)"

definition enc_resp_rv :: "Resp_RequestVoteRpc \<Rightarrow> string" where
  "enc_resp_rv m = enc_bool (rrv_ok m) @ enc_int (rrv_term m) @ enc_int (rrv_lsn m) @
     enc_str (rrv_ip m) @ enc_int (rrv_port m)"

definition dec_resp_rv :: "string \<Rightarrow> Resp_RequestVoteRpc" where
  "dec_resp_rv s = (let (b, r) = dec_bool s; (t, r) = dec_int r; (l, r) = dec_int r;
     (i, r) = dec_str r; (p, r) = dec_int r in
     \<lparr>rrv_ok = b, rrv_term = t, rrv_lsn = l, rrv_ip = i, rrv_port = p\<rparr>)"

definition enc_word :: "32 word \<Rightarrow> string" where "enc_word w = enc_int (uint w)"

definition dec_word :: "string \<Rightarrow> 32 word \<times> string" where
  "dec_word s = (let (i, r) = dec_int s in (word_of_int i, r))"

lemma dec_enc_word [simp]: "dec_word (enc_word w @ r) = (w, r)"
  by (simp add: dec_word_def enc_word_def)

definition codec :: pb where
  "codec = \<lparr>
     ser_entry = enc_entry, parse_entry = (\<lambda>s. fst (dec_entry s)),
     ser_ae = enc_ae, parse_ae = dec_ae,
     ser_resp_ae = enc_resp_ae, parse_resp_ae = dec_resp_ae,
     ser_rv = enc_rv, parse_rv = dec_rv,
     ser_resp_rv = enc_resp_rv, parse_resp_rv = dec_resp_rv,
     ser_apply_call = (\<lambda>m. enc_str (ac_key m) @ enc_int (ac_v m)),
     parse_apply_call = (\<lambda>s. let (k, r) = dec_str s; (v, r) = dec_int r in \<lparr>ac_key = k, ac_v = v\<rparr>),
     ser_query_call = (\<lambda>m. enc_str (qc_key m)),
     parse_query_call = (\<lambda>s. \<lparr>qc_key = fst (dec_str s)\<rparr>),
     ser_resp_apply = (\<lambda>m. enc_bool (ra_ok m)),
     parse_resp_apply = (\<lambda>s. \<lparr>ra_ok = fst (dec_bool s)\<rparr>),
     ser_resp_query = (\<lambda>m. enc_bool (rq_ok m) @ enc_int (rq_v m)),
     parse_resp_query = (\<lambda>s. let (b, r) = dec_bool s; (v, r) = dec_int r in \<lparr>rq_ok = b, rq_v = v\<rparr>),
     oar = enc_list enc_word, iar = (\<lambda>s. fst (dec_list dec_word s))\<rparr>"

text \<open>The round trips also at the end of the string, where nothing follows.\<close>

lemmas dec_enc_end [simp] =
  dec_enc_str [where r = "[]", simplified] dec_enc_int [where r = "[]", simplified]
  dec_enc_bool [where r = "[]", simplified] dec_enc_entry [where r = "[]", simplified]

lemma codec_law: "pb_law codec"
proof -
  have "dec_ae (enc_ae m) = m" for m
    by (simp add: dec_ae_def enc_ae_def dec_enc_list)
  moreover have "dec_resp_ae (enc_resp_ae m) = m" for m
    by (simp add: dec_resp_ae_def enc_resp_ae_def)
  moreover have "dec_rv (enc_rv m) = m" for m
    by (simp add: dec_rv_def enc_rv_def)
  moreover have "dec_resp_rv (enc_resp_rv m) = m" for m
    by (simp add: dec_resp_rv_def enc_resp_rv_def)
  moreover have "fst (dec_list dec_word (enc_list enc_word v)) = v" for v
    using dec_enc_list [of dec_word enc_word v "[]"] by simp
  ultimately show ?thesis by (simp add: pb_law_def codec_def)
qed

end
