(* ===== verification/Raft_Example.thy ===== *)
theory Raft_Example
  imports Raft_Election Raft_Replication Raft_Codec
begin

text \<open>
  A concrete three-server configuration, used by the witnesses and by the scenarios: \<open>node1\<close> is what the
  constructor builds on the first server, with an empty log. The libraries are the concrete \<open>codec\<close>, \<open>counting_asio\<close> and \<open>split_chars\<close>.
\<close>

definition conf3 :: string where
  "conf3 = ''10.0.0.1:8001'' @ [CHR 0x0A] @ ''10.0.0.2:8002'' @ [CHR 0x0A] @ ''10.0.0.3:8003''"

abbreviation cfg3 :: "endpoint list" where
  "cfg3 \<equiv> [(''10.0.0.1'', 8001), (''10.0.0.2'', 8002), (''10.0.0.3'', 8003)]"

lemma load_conf3: "load_config_from_file (split_chars []) (Some conf3) = Inr (cfg3, 3, 2)"
  by code_simp

definition empty_log :: Entries where
  "empty_log = \<lparr>data_m = \<lparr>contents = [], pos = 0, wr_fails = False\<rparr>, vec_m = [], offset_m = [0], size_m = 0,
     offset_file_m = None\<rparr>"

lemma empty_log [simp]:
  "Entries_ctor P True None None = Inr empty_log" "log_of empty_log = []" "entries_inv empty_log"
  "Entries_size empty_log = 0" "entries_room empty_log"
  by (simp_all add: Entries_ctor_def data_ctor_def empty_log_def log_of_def entries_inv_def Entries_size_def
      entries_room_def)

definition fresh_smc :: SMC where
  "fresh_smc = projr (SMC_ctor [] 2 1)"

definition node1 :: "(handler list \<times> bool) RaftServer" where
  "node1 = projr (RaftServer_ctor counting_asio (split_chars []) ''10.0.0.1'' 8001 (Some conf3) empty_log
     fresh_smc (\<lambda>n. 0))"

lemmas node1_eq = node1_def [unfolded RaftServer_ctor_def load_conf3, simplified]

lemma node1_init: "raft_init counting_asio [] node1"
  unfolding raft_init_def
proof (intro exI conjI)
  show "RaftServer_ctor counting_asio (split_chars []) ''10.0.0.1'' 8001 (Some conf3) empty_log fresh_smc (\<lambda>n. 0) =
      Inr node1"
    by (simp add: node1_eq RaftServer_ctor_def load_conf3)
  show "SMC_ctor [] 2 1 = Inr fresh_smc" by (simp add: fresh_smc_def SMC_ctor_def)
qed (simp_all add: node1_eq)

lemma node1_inv: "raft_inv codec [] node1"
  using node1_init by (rule raft_init_inv)

section \<open>An election\<close>

text \<open>Servers 2 and 3 stand in term 1 and ask \<open>node1\<close> for its vote; server 2 sends its first heartbeat.\<close>

definition rv_from :: "string \<Rightarrow> int \<Rightarrow> RequestVoteRpc" where
  "rv_from ip port = \<lparr>rv_term = 1, rv_latest_index = -1, rv_latest_term = 0, rv_lsn = 0, rv_ip = ip, rv_port = port\<rparr>"

definition first_heartbeat :: AppendEntryRpc where
  "first_heartbeat = \<lparr>ae_term = 1, ae_prelog_term = -1, ae_commit_index = -1, ae_lsn = 1,
     ae_ip = ''10.0.0.2'', ae_port = 8002, ae_entry = [], ae_prelog_index = -1\<rparr>"

abbreviation ask :: "string \<Rightarrow> int \<Rightarrow> event" where
  "ask ip port \<equiv> Incoming REQUEST_VOTE (ser_rv codec (rv_from ip port)) (ip, port)"

abbreviation beat :: event where
  "beat \<equiv> Incoming APPEND_ENTRY (ser_ae codec first_heartbeat) (''10.0.0.2'', 8002)"

lemma length_enc_str: "length (enc_str s) = 2 * length s + 1"
  by (induction s) simp_all

lemma length_enc_int: "0 \<le> i \<Longrightarrow> i < 10000 \<Longrightarrow> length (enc_int i) \<le> 9"
  using length_show_nat_le [of "nat i" 4] by (simp add: enc_int_def length_enc_str to_string_def)

lemma reply_length:
  "length (ser_resp_rv codec \<lparr>rrv_ok = b, rrv_term = 1, rrv_lsn = 0, rrv_ip = ''10.0.0.1'', rrv_port = 8001\<rparr>) < 9999"
  using length_enc_int [of 0] length_enc_int [of 1] length_enc_int [of 8001]
  by (simp add: codec_def enc_resp_rv_def enc_bool_def show_bool_def length_enc_str)

lemma beat_length:
  "length (ser_resp_ae codec \<lparr>rae_ok = True, rae_term = 1, rae_lsn = 1, rae_ip = ''10.0.0.1'', rae_port = 8001,
     rae_is_empty_ae = True\<rparr>) < 9999"
  using length_enc_int [of 1] length_enc_int [of 8001]
  by (simp add: codec_def enc_resp_ae_def enc_bool_def show_bool_def length_enc_str)

lemma codec_parse [simp]:
  "parse_rv codec (ser_rv codec m) = m" "parse_ae codec (ser_ae codec a) = a"
  using codec_law by simp_all

lemma ask_step:
  assumes "raft_inv codec [] s" "ip_m s = ''10.0.0.1''" "port_m s = 8001" "term_m s \<le> 1" "ip \<noteq> []"
  shows "surely (\<lambda>t. vote_effect codec (rv_from ip port) s t \<and> raft_inv codec [] t)
    (server_step codec counting_asio (ask ip port) s)"
proof -
  have s: "ip_m s = ''10.0.0.1''" "port_m s = 8001" "entries_inv (entries_m s)"
    using assms(1-3) by (simp_all add: raft_inv_def log_inv_def)
  have "surely (\<lambda>t. True) (react2rv codec counting_asio (rv_from ip port) s)"
    using s assms(4,5) reply_length
    by (intro react2rv_total [OF _ counting_asio_law]) (simp_all add: rv_from_def counting_asio_def max_def)
  moreover have "okp (vote_effect codec (rv_from ip port) s) (react2rv codec counting_asio (rv_from ip port) s)"
    using assms(1) s by (intro react2rv_effect) (simp_all add: raft_inv_def conf_inv_def)
  moreover have "okp (raft_inv codec []) (react2rv codec counting_asio (rv_from ip port) s)"
    using assms(1) by (rule react2rv_inv)
  ultimately show ?thesis
    by (simp add: reactToIncomingMsg_def surelyI okp_conj)
qed

lemma beat_step:
  assumes "raft_inv codec [] s" "log_frame node1 s" "term_m s = 1" "state_m s = follower"
  shows "surely (\<lambda>t. ae_effect codec first_heartbeat s t \<and> raft_inv codec [] t)
    (server_step codec counting_asio beat s)"
proof -
  have s: "ip_m s = ''10.0.0.1''" "port_m s = 8001" "entries_m s = empty_log" "commit_index_m s = -1"
    using assms(2) by (simp_all add: log_frame_def node1_eq)
  have inv: "entries_inv (entries_m s)" "has_room s" "rpc_inv (network_m s)"
    using assms(1) s by (simp_all add: raft_inv_def conf_inv_def)
  have "surely (\<lambda>t. True) (react2ae codec counting_asio first_heartbeat s)"
    using s assms(3,4) beat_length
    by (intro heartbeat_total [OF counting_asio_law]) (simp_all add: first_heartbeat_def counting_asio_def)
  moreover have "okp (ae_effect codec first_heartbeat s) (react2ae codec counting_asio first_heartbeat s)"
    using inv by (rule react2ae_effect)
  moreover have "okp (raft_inv codec []) (react2ae codec counting_asio first_heartbeat s)"
    using assms(1) inv(2) by (rule react2ae_inv)
  ultimately show ?thesis by (simp add: reactToIncomingMsg_def surelyI okp_conj)
qed

end
