(* ===== verification/Raft_Totality.thy ===== *)
theory Raft_Totality
  imports Raft_Replication
begin

text \<open>
  The replication handlers return: under the invariant, on messages of the shape a primary builds,
  with a device that accepts writes and messages that fit, no \<^verbatim>\<open>throw_line\<close> of the AppendEntries path
  can be reached. The exact outcomes, exceptions included, are in \<open>Raft_Outcomes\<close>.
\<close>

section \<open>The commit index and the state machine\<close>

text \<open>The state machine controller after it has been given the commit index \<open>n\<close>: the entries after the
  last one handed over, up to \<open>n\<close>, are appended to the write pool's queue.\<close>

definition handed_over :: "int \<Rightarrow> Entries \<Rightarrow> SMC \<Rightarrow> SMC" where
  "handed_over n es c =
     c\<lparr>smc_commit_index_m := n, applied_index_m := max (applied_index_m c) n,
       write_pool_m := (write_pool_m c)\<lparr>tasks_m := tasks_m (write_pool_m c) @
         apply_tasks (log_of es) (applied_index_m c + 1) n\<rparr>\<rparr>"

lemma apply_eq:
  assumes "entries_inv (entries_m s)" "smc_inv P m0 fin (smc_m s)" "n < Entries_size (entries_m s)"
  shows "apply_to_state_machine n s = Ok (s\<lparr>smc_m := handed_over n (entries_m s) (smc_m s)\<rparr>)"
proof -
  have "-1 \<le> applied_index_m (smc_m s)" "\<not> stop_m (write_pool_m (smc_m s))"
    using assms(2) by (simp_all add: smc_inv_def)
  from update_commit_index_and_apply_eq [OF assms(1) this(1) assms(3) this(2)] show ?thesis
    by (simp add: apply_to_state_machine_def handed_over_def)
qed

lemma follower_update_eq:
  assumes "entries_inv (entries_m s)" "smc_inv P m0 fin (smc_m s)" "k = min n (Entries_size (entries_m s) - 1)"
  shows "follower_update_commit_index n s =
    (if k < commit_index_m s then Throw Commit_decreases (s\<lparr>commit_index_m := k\<rparr>)
     else if k = commit_index_m s then Ok s
     else Ok (s\<lparr>commit_index_m := k, smc_m := handed_over k (entries_m s) (smc_m s)\<rparr>))"
proof -
  have m: "(if Entries_size (entries_m s) - 1 < n then Entries_size (entries_m s) - 1 else n) = k"
    using assms(3) by simp
  have a: "apply_to_state_machine k (s\<lparr>commit_index_m := k\<rparr>) =
      Ok (s\<lparr>commit_index_m := k, smc_m := handed_over k (entries_m s) (smc_m s)\<rparr>)"
    using assms apply_eq [of "s\<lparr>commit_index_m := k\<rparr>" P m0 fin k] by simp
  show ?thesis
    unfolding follower_update_commit_index_def Let_def m using a by auto
qed

lemma primary_update_total:
  assumes "raft_inv P m0 s" "state_m s = primary" "v \<in> set (configuration_m s)" "3 \<le> length (configuration_m s)"
    "-1 \<le> i" "i < Entries_size (entries_m s)"
  shows "surely (\<lambda>t. True) (primary_update_commit_index v i s)"
proof -
  let ?s = "s\<lparr>Follower_saved_index_m := put v i (Follower_saved_index_m s)\<rparr>"
  have ci: "conf_inv s" and maj: "1 \<le> majority_m s" "majority_m s \<le> int (length (configuration_m s))"
    using assms(1,4) by (auto simp: raft_inv_def conf_inv_def)
  have v: "v \<in> keys (Follower_saved_index_m s)" using ci assms(3) by (simp add: conf_inv_def)
  then have "map fst (Follower_saved_index_m ?s) = map fst (Follower_saved_index_m s)"
    by (simp add: map_fst_put_mem)
  then have len: "length (Follower_saved_index_m ?s) \<le> length (configuration_m s)"
    using temp_sort_members(3) [OF ci] by (metis length_map order_refl)
  then have cs: "conf_inv ?s" using conf_inv_put_saved [OF ci] by simp
  define k where "k = temp_sort ?s ! nat (majority_m s - 1)"
  obtain w where "w \<in> set (configuration_m s)" "k = at0 (Follower_saved_index_m ?s) w"
    using commit_from_saved [OF cs] maj by (auto simp: k_def)
  then have "k < Entries_size (entries_m s)" using assms by (auto simp: raft_inv_def book_inv_def)
  moreover obtain fin where "smc_inv P m0 fin (smc_m s)" using assms(1) by (auto simp: raft_inv_def log_inv_def)
  ultimately have "surely (\<lambda>t. True) (apply_to_state_machine k (?s\<lparr>commit_index_m := k\<rparr>))"
    using apply_eq [of "?s\<lparr>commit_index_m := k\<rparr>" P m0 fin k] assms(1) by (simp add: raft_inv_def log_inv_def)
  then show ?thesis
    using len maj assms(4) by (simp add: primary_update_commit_index_def Let_def k_def)
qed

section \<open>The receiver of an AppendEntries\<close>

lemma insert_entry_total:
  assumes "entries_inv (entries_m s)" "has_room s" "0 \<le> i" "i \<le> Entries_size (entries_m s)"
    "\<not> wr_fails (data_m (entries_m s))"
  shows "surely (\<lambda>t. True) (insert_entry P i e s)"
proof -
  have "surely (\<lambda>f. True) (write_from_offset off d (data_m (entries_m s)))" for off d
    by (rule surely_mono [OF write_from_offset_ok [OF assms(5)]]) simp
  with assms(1-4) show ?thesis
    by (simp add: insert_entry_def Entries_insert_eq Entries_size_def wp)
qed

text \<open>The messages a primary builds, and what the receiver must know for its commit index not to
  go back.\<close>

definition ae_wf :: "AppendEntryRpc \<Rightarrow> bool" where
  "ae_wf ae \<longleftrightarrow> length (ae_entry ae) \<le> 1 \<and> -1 \<le> ae_prelog_index ae \<and>
     (ae_prelog_index ae = -1 \<longrightarrow> ae_prelog_term ae = -1) \<and>
     (\<forall>e \<in> set (ae_entry ae). en_index e = ae_prelog_index ae + 1)"

definition ae_safe :: "AppendEntryRpc \<Rightarrow> 't RaftServer \<Rightarrow> bool" where
  "ae_safe ae s \<longleftrightarrow>
     (let log = log_of (entries_m s) in
      log_matches ae log \<longrightarrow>
        commit_index_m s \<le> min (ae_commit_index ae) (int (length (log_after ae log)) - 1) \<and>
        (ae_entry ae = [] \<longrightarrow> ae_commit_index ae \<le> int (length log)))"

definition reply_fits :: "pb \<Rightarrow> AppendEntryRpc \<Rightarrow> 't RaftServer \<Rightarrow> bool" where
  "reply_fits P ae s \<longleftrightarrow> (\<forall>b. length (ser_resp_ae P \<lparr>rae_ok = b, rae_term = max (term_m s) (ae_term ae),
     rae_lsn = ae_lsn ae, rae_ip = ip_m s, rae_port = port_m s, rae_is_empty_ae = (ae_entry ae = [])\<rparr>) < 9999)"

lemma reply_total:
  assumes "address_ok A (ae_ip ae)" "reply_fits P ae s"
    "term_m t = max (term_m s) (ae_term ae)" "ip_m t = ip_m s" "port_m t = port_m s"
  shows "surely (\<lambda>u. True) (make_resp_ae P A b (ae_ip ae, ae_port ae) (ae_lsn ae) (ae_entry ae = []) t)"
  unfolding make_resp_ae_def using assms by (intro net_call_total) (simp_all add: reply_fits_def)

lemma accept_ae_total:
  assumes inv: "entries_inv (entries_m s)" "smc_inv P' m0 fin (smc_m s)" and room: "has_room s"
    and dev: "\<not> wr_fails (data_m (entries_m s))" and wf: "ae_wf ae" and safe: "ae_safe ae s"
    and m: "log_matches ae (log_of (entries_m s))" and t: "term_m s = ae_term ae"
    and net: "address_ok A (ae_ip ae)" "reply_fits P ae s"
  shows "surely (\<lambda>u. True) (accept_ae P A ae s)"
proof -
  let ?log = "log_of (entries_m s)" and ?v = "(ae_ip ae, ae_port ae)"
  have sz: "Entries_size (entries_m s) = int (length ?log)" using inv(1) by (rule entries.size_log)
  have tail: "surely (\<lambda>u. True) (seq (follower_update_commit_index (ae_commit_index ae) u)
      (make_resp_ae P A True ?v (ae_lsn ae) (ae_entry ae = [])))"
    if u: "u = s\<lparr>entries_m := es\<rparr>" "entries_inv es" "log_of es = log_after ae ?log" for u es
  proof -
    let ?k = "min (ae_commit_index ae) (Entries_size es - 1)"
    have "Entries_size es = int (length (log_after ae ?log))" using u(2,3) by (simp add: entries.size_log)
    then have "\<not> ?k < commit_index_m u" using safe m u(1) by (auto simp: ae_safe_def Let_def min_def)
    moreover have "surely (\<lambda>w. True) (make_resp_ae P A True ?v (ae_lsn ae) (ae_entry ae = []) u)"
      "\<And>c. surely (\<lambda>w. True) (make_resp_ae P A True ?v (ae_lsn ae) (ae_entry ae = [])
         (u\<lparr>commit_index_m := ?k, smc_m := c\<rparr>))"
      using u(1) t net by (intro reply_total [of _ _ _ s]; simp)+
    ultimately show ?thesis
      using follower_update_eq [of u P' m0 fin ?k "ae_commit_index ae"] u inv by simp
  qed
  show ?thesis
  proof (cases "ae_entry ae")
    case Nil
    then show ?thesis
      using tail [of s "entries_m s"] inv(1) sz safe m by (simp add: accept_ae_def Let_def ae_safe_def log_after_def)
  next
    case (Cons e es)
    have e: "en_index e = ae_prelog_index ae + 1" "es = []" using wf Cons by (simp_all add: ae_wf_def)
    have i: "0 \<le> ae_prelog_index ae + 1" "ae_prelog_index ae + 1 \<le> Entries_size (entries_m s)"
      using m sz by (auto simp: log_matches_def)
    have "surely (\<lambda>t. \<exists>es. t = s\<lparr>entries_m := es\<rparr> \<and> entries_inv es \<and> log_of es = log_after ae ?log)
        (insert_entry P (ae_prelog_index ae + 1) e s)"
      using surelyI [OF insert_entry_total [OF inv(1) room i dev] insert_entry_effect [OF inv(1) room i]] Cons
      by (simp add: log_after_def)
    then have "surely (\<lambda>t. surely (\<lambda>u. True) (seq (follower_update_commit_index (ae_commit_index ae) t)
        (make_resp_ae P A True ?v (ae_lsn ae) (ae_entry ae = [])))) (insert_entry P (ae_prelog_index ae + 1) e s)"
      by (rule surely_mono) (use tail in blast)
    with e Cons show ?thesis by (simp add: accept_ae_def Let_def wp)
  qed
qed

lemma ae_body_total:
  assumes inv: "entries_inv (entries_m s)" "smc_inv P' m0 fin (smc_m s)" and room: "has_room s"
    and dev: "\<not> wr_fails (data_m (entries_m s))" and wf: "ae_wf ae" and safe: "ae_safe ae s"
    and t: "term_m s = ae_term ae" and net: "address_ok A (ae_ip ae)" "reply_fits P ae s"
  shows "surely (\<lambda>u. True) (ae_body P A ae s)"
proof -
  let ?log = "log_of (entries_m s)" and ?v = "(ae_ip ae, ae_port ae)"
  obtain ign u where u: "should_ignore_remote_rpc ?v (ae_lsn ae) s = (ign, u)" by fastforce
  have fr: "frame s u" using frame_should_ignore [of s ?v "ae_lsn ae"] u by simp
  then have k: "entries_m u = entries_m s" "smc_m u = smc_m s" "term_m u = term_m s" "ip_m u = ip_m s"
    "port_m u = port_m s" "commit_index_m u = commit_index_m s"
    by (simp_all add: log_frame_def vote_frame_def)
  have fits: "reply_fits P ae u" "ae_safe ae u" using net safe k by (simp_all add: reply_fits_def ae_safe_def Let_def)
  have sz: "Entries_size (entries_m s) = int (length ?log)" using inv(1) by (rule entries.size_log)
  have yes: "surely (\<lambda>u. True) (accept_ae P A ae u)" if "log_matches ae ?log"
    using that k inv room dev wf fits t net by (intro accept_ae_total [of _ P' m0 fin]) simp_all
  have no: "surely (\<lambda>u. True) (make_resp_ae P A False ?v (ae_lsn ae) (ae_entry ae = []) u)"
    using k t net by (intro reply_total [of _ _ _ s]) simp_all
  have get: "Entries_get (entries_m s) i = Inr (?log ! nat i)" if "0 \<le> i" "i < Entries_size (entries_m s)" for i
    using entries.get_log [OF inv(1) that] .
  show ?thesis
  proof (cases "ign \<or> ae_prelog_index ae = -1 \<or> Entries_size (entries_m s) \<le> ae_prelog_index ae")
    case True
    then show ?thesis
      using u k yes no wf by (auto simp: ae_body_def ae_wf_def log_matches_def)
  next
    case False
    then have i: "0 \<le> ae_prelog_index ae" "ae_prelog_index ae < Entries_size (entries_m s)"
      using wf by (auto simp: ae_wf_def)
    show ?thesis
      using False u k yes no i get [OF i] sz by (auto simp: ae_body_def log_matches_def)
  qed
qed

lemma react2ae_total:
  assumes inv: "raft_inv P' m0 s" and room: "has_room s" and A: "asio_law A pend"
    and dev: "\<not> wr_fails (data_m (entries_m s))" and wf: "ae_wf ae" and safe: "ae_safe ae s"
    and role: "state_m s = primary \<longrightarrow> term_m s \<noteq> ae_term ae"
    and net: "address_ok A (ae_ip ae)" "reply_fits P ae s"
  shows "surely (\<lambda>u. True) (react2ae P A ae s)"
proof (cases "ae_term ae < term_m s")
  case True
  then show ?thesis
    using wf reply_total [OF net, of s False] by (simp add: react2ae_split ae_wf_def)
next
  case False
  obtain fin where c: "entries_inv (entries_m s)" "smc_inv P' m0 fin (smc_m s)"
    using inv by (auto simp: raft_inv_def log_inv_def)
  have "surely (\<lambda>t. log_frame s t \<and> term_m t = ae_term ae) (trans2F A (ae_term ae) s)"
    by (rule surely_mono [OF surelyI [OF trans2F_total [OF A] trans2F_effect]]) (use False in simp_all)
  then have "surely (\<lambda>t. True) (seq (trans2F A (ae_term ae) s) (ae_body P A ae))"
    unfolding surely_seq
  proof (rule surely_mono)
    fix t assume t: "log_frame s t \<and> term_m t = ae_term ae"
    then have k: "entries_m t = entries_m s" "smc_m t = smc_m s" "ip_m t = ip_m s" "port_m t = port_m s"
      "commit_index_m t = commit_index_m s" by (simp_all add: log_frame_def)
    have "reply_fits P ae t" "ae_safe ae t"
      using net(2) safe k t False by (simp_all add: reply_fits_def ae_safe_def Let_def)
    then show "surely (\<lambda>t. True) (ae_body P A ae t)"
      using k c room dev wf t net(1) by (intro ae_body_total [of _ P' m0 fin]) simp_all
  qed
  with False role wf show ?thesis by (auto simp: react2ae_split ae_wf_def)
qed

text \<open>An entry that would lower the commit index is written before the throw.\<close>

lemma accept_ae_decreases:
  assumes "entries_inv (entries_m s)" "smc_inv P' m0 fin (smc_m s)" "has_room s" "\<not> wr_fails (data_m (entries_m s))"
    and "0 \<le> ae_prelog_index ae + 1" "ae_prelog_index ae + 1 \<le> Entries_size (entries_m s)"
    and "ae_entry ae = [e]" "en_index e = ae_prelog_index ae + 1"
    and "min (ae_commit_index ae) (ae_prelog_index ae + 1) < commit_index_m s"
  shows "\<exists>t. accept_ae P A ae s = Throw Commit_decreases t \<and>
    log_of (entries_m t) = take (nat (ae_prelog_index ae + 1)) (log_of (entries_m s)) @ [e]"
proof -
  let ?i = "ae_prelog_index ae + 1"
  obtain w es where w: "insert_entry P ?i e s = Ok w" "w = s\<lparr>entries_m := es\<rparr>" "entries_inv es"
      "log_of es = take (nat ?i) (log_of (entries_m s)) @ [e]"
    using surelyD [OF surelyI [OF insert_entry_total insert_entry_effect]] assms(1,3-6) by metis
  define k where "k = min (ae_commit_index ae) ?i"
  have "Entries_size es = ?i + 1"
    using w(3,4) assms(1,5,6) by (simp add: entries.size_log)
  then have "k = min (ae_commit_index ae) (Entries_size (entries_m w) - 1)" using w(2) by (simp add: k_def)
  moreover have "k < commit_index_m w" "smc_inv P' m0 fin (smc_m w)" "entries_inv (entries_m w)"
    using assms(2,9) w(2,3) by (simp_all add: k_def)
  ultimately have "follower_update_commit_index (ae_commit_index ae) w = Throw Commit_decreases (w\<lparr>commit_index_m := k\<rparr>)"
    using follower_update_eq by metis
  with w assms(7,8) show ?thesis by (auto simp: accept_ae_def Let_def)
qed

lemma ae_body_accepts:
  assumes "entries_inv (entries_m s)" "ae_wf ae" "log_matches ae (log_of (entries_m s))"
    "should_ignore_remote_rpc (ae_ip ae, ae_port ae) (ae_lsn ae) s = (False, u)"
  shows "ae_body P A ae s = accept_ae P A ae u"
proof (cases "ae_prelog_index ae = -1")
  case True
  then show ?thesis using assms(2,4) by (simp add: ae_body_def ae_wf_def)
next
  case False
  then have p: "0 \<le> ae_prelog_index ae" "ae_prelog_index ae < Entries_size (entries_m s)"
    using assms(3) entries.size_log [OF assms(1)] by (auto simp: log_matches_def)
  have "entries_m u = entries_m s"
    using assms(4) should_ignore_parts(2) [of "(ae_ip ae, ae_port ae)" "ae_lsn ae" s] by simp
  with entries.get_log [OF assms(1) p] show ?thesis
    using False assms(3,4) p by (simp add: ae_body_def log_matches_def)
qed

text \<open>When the log check passes on a fresh message, the handler comes down to its last part.\<close>

lemma react2ae_accepts:
  assumes "entries_inv (entries_m s)" "asio_law A pend" "ae_wf ae" "state_m s \<noteq> primary" "term_m s \<le> ae_term ae"
    and "seen_lsn s (ae_term ae) (ae_ip ae, ae_port ae) < ae_lsn ae" "log_matches ae (log_of (entries_m s))"
  shows "\<exists>u. react2ae P A ae s = accept_ae P A ae u \<and> entries_m u = entries_m s \<and> smc_m u = smc_m s \<and>
    commit_index_m u = commit_index_m s"
proof -
  let ?v = "(ae_ip ae, ae_port ae)"
  obtain t where t: "trans2F A (ae_term ae) s = Ok t" "log_frame s t"
      "follower_rpc_lsn_m t = (if term_m s < ae_term ae then put_all (configuration_m s) (-1) (follower_rpc_lsn_m s)
                               else follower_rpc_lsn_m s)"
    using surelyD [OF surelyI [OF trans2F_total [OF assms(2,5)]
        conjI [OF trans2F_effect [of s "ae_term ae" A] trans2F_keeps [of s "ae_term ae" A], folded okp_conj]]] by auto
  obtain ign u where u: "should_ignore_remote_rpc ?v (ae_lsn ae) t = (ign, u)" by fastforce
  have "at0 (follower_rpc_lsn_m t) ?v < ae_lsn ae"
    using assms(5,6) t(3) by (auto simp: seen_lsn_def at0_put_all split: if_splits)
  then have n: "\<not> ign" using u by (auto simp: should_ignore_remote_rpc_def Let_def)
  have "frame t u" using frame_should_ignore [of t ?v "ae_lsn ae"] u by simp
  then have k: "entries_m u = entries_m s" "smc_m u = smc_m s" "commit_index_m u = commit_index_m s"
    "entries_m t = entries_m s" using t(2) by (simp_all add: log_frame_def)
  have "ae_body P A ae t = accept_ae P A ae u"
    using assms(1,3,7) k u n by (intro ae_body_accepts) simp_all
  then show ?thesis
    using k t(1) assms(3,4,5) by (auto simp: react2ae_split ae_wf_def)
qed

lemma accept_ae_low:
  assumes "entries_inv (entries_m s)" "smc_inv P' m0 fin (smc_m s)" "has_room s" "\<not> wr_fails (data_m (entries_m s))"
    and "ae_wf ae" "log_matches ae (log_of (entries_m s))" "ae_commit_index ae < commit_index_m s"
    and "commit_index_m s < Entries_size (entries_m s)"
  shows "\<exists>t. accept_ae P A ae s = Throw Commit_decreases t"
proof (cases "ae_entry ae")
  case Nil
  define k where "k = min (ae_commit_index ae) (Entries_size (entries_m s) - 1)"
  have "follower_update_commit_index (ae_commit_index ae) s = Throw Commit_decreases (s\<lparr>commit_index_m := k\<rparr>)"
    using follower_update_eq [OF assms(1,2) k_def] assms(7) by (simp add: k_def)
  then show ?thesis using Nil assms(7,8) by (simp add: accept_ae_def Let_def)
next
  case (Cons e es)
  then have e: "ae_entry ae = [e]" "en_index e = ae_prelog_index ae + 1" "0 \<le> ae_prelog_index ae + 1"
    using assms(5) by (simp_all add: ae_wf_def)
  have "ae_prelog_index ae + 1 \<le> Entries_size (entries_m s)"
    using assms(6) entries.size_log [OF assms(1)] by (auto simp: log_matches_def)
  moreover have "min (ae_commit_index ae) (ae_prelog_index ae + 1) < commit_index_m s" using assms(7) by simp
  ultimately show ?thesis using accept_ae_decreases [OF assms(1-4) e(3) _ e(1,2), of P A] by blast
qed

section \<open>The primary's reaction to an answer\<close>

lemma ae_at_fields:
  assumes "entries_inv (entries_m s)" "0 \<le> n" "n \<le> Entries_size (entries_m s)" "ae = ae_at s v n c"
  shows "ae_prelog_index ae = n - 1" "ae_term ae = term_m s" "ae_commit_index ae = c"
    "(ae_ip ae, ae_port ae) = (ip_m s, port_m s)" "ae_lsn ae = at0 (current_rpc_lsn_m s) v"
    "nat n = nat (ae_prelog_index ae + 1)" "nat n \<le> length (log_of (entries_m s))"
    "ae_prelog_term ae = (if nat n = 0 then -1 else en_term (log_of (entries_m s) ! (nat n - 1)))"
    "ae_entry ae = (if nat n < length (log_of (entries_m s)) then [log_of (entries_m s) ! nat n] else [])"
  using assms entries.size_log [OF assms(1)] by (auto simp: ae_at_def nat_diff_distrib)

definition ae_fits :: "pb \<Rightarrow> 't asio \<Rightarrow> 't RaftServer \<Rightarrow> endpoint \<Rightarrow> bool" where
  "ae_fits P A s v \<longleftrightarrow> address_ok A (ip_of v) \<and>
     (\<forall>n c. 0 \<le> n \<longrightarrow> n \<le> Entries_size (entries_m s) \<longrightarrow> -1 \<le> c \<longrightarrow> c < Entries_size (entries_m s) \<longrightarrow>
        length (ser_ae P (ae_at s v n c)) < 9999)"

lemma ae_fits_cong:
  "term_m t = term_m s \<Longrightarrow> entries_m t = entries_m s \<Longrightarrow> at0 (current_rpc_lsn_m t) v = at0 (current_rpc_lsn_m s) v \<Longrightarrow>
   ip_m t = ip_m s \<Longrightarrow> port_m t = port_m s \<Longrightarrow> ae_fits P A t v = ae_fits P A s v"
  by (simp add: ae_fits_def ae_at_def)

text \<open>What is needed to send: the invariants of log and commit index, room in the message, and a timer.\<close>

definition can_send :: "pb \<Rightarrow> 't asio \<Rightarrow> 't RaftServer \<Rightarrow> endpoint \<Rightarrow> bool" where
  "can_send P A s v \<longleftrightarrow> entries_inv (entries_m s) \<and> ae_fits P A s v \<and> v \<in> keys (retry_timers_m s) \<and>
     0 \<le> at0 (nextIndex_m s) v \<and> at0 (nextIndex_m s) v \<le> Entries_size (entries_m s) \<and>
     -1 \<le> commit_index_m s \<and> commit_index_m s < Entries_size (entries_m s)"

lemma AE_total:
  assumes "can_send P A s v" "asio_law A pend" "map_of (retry_timers_m s) v = Some x" "pend x = 0"
  shows "surely (\<lambda>t. True) (AE P A v s)"
proof -
  let ?m = "ae_at s v (at0 (nextIndex_m s) v) (commit_index_m s)"
  have b: "fst (build_rpc_ae v s) = Inr ?m"
    using assms(1) by (subst build_rpc_ae_spec [OF _ refl]) (simp_all add: can_send_def ae_at_def)
  have fits: "address_ok A (ip_of v)" "length (ser_ae P ?m) < 9999"
    using assms(1) unfolding can_send_def ae_fits_def by blast+
  have "map_of (retry_timers_m (snd (build_rpc_ae v s))) v = Some x" using assms(3) by (simp add: build_keeps)
  from send_arm_total [OF fits(1) _ fits(2) this assms(2), of APPEND_ENTRY _ P random_ae_retry_expire] assms(4)
  have "surely (\<lambda>t. \<forall>w. w \<noteq> v \<longrightarrow> map_of (retry_timers_m t) w = map_of (retry_timers_m (snd (build_rpc_ae v s))) w)
      (AE P A v s)"
    unfolding AE_def split_def Let_def b by simp
  then show ?thesis by (rule surely_mono) simp
qed

lemma resend_total:
  assumes "can_send P A s v" "asio_law A pend" "\<And>x. pend (g x) = 0"
  shows "surely (\<lambda>t. True) (case map_of (retry_timers_m s) v of None \<Rightarrow> Throw Null_deref s
      | Some x \<Rightarrow> AE P A v (s\<lparr>retry_timers_m := put v (g x) (retry_timers_m s)\<rparr>))"
proof -
  obtain x where x: "map_of (retry_timers_m s) v = Some x"
    using assms(1) by (auto simp: can_send_def keys_iff_map_of)
  let ?s = "s\<lparr>retry_timers_m := put v (g x) (retry_timers_m s)\<rparr>"
  have "can_send P A ?s v" using assms(1) by (simp add: can_send_def ae_fits_cong [of ?s s])
  from AE_total [OF this assms(2), of "g x"] x assms(3) show ?thesis by simp
qed

lemma primary_deal_total:
  assumes inv: "raft_inv P' m0 s" and p: "state_m s = primary" and v: "v \<in> set (configuration_m s)"
    and three: "3 \<le> length (configuration_m s)" and A: "asio_law A pend" and fits: "ae_fits P A s v"
    and possible: "rae_ok r \<or> 0 < at0 (nextIndex_m s) v"
  shows "surely (\<lambda>t. True) (primary_deal_resp_ae_with_same_term P A v r s)"
proof -
  let ?n = "at0 (nextIndex_m s) v" and ?sz = "Entries_size (entries_m s)"
  define x where "x = s\<lparr>current_rpc_lsn_m := touch v (current_rpc_lsn_m s), nextIndex_m := touch v (nextIndex_m s)\<rparr>"
  have xi: "raft_inv P' m0 x"
    using inv raft_inv_touch [where s = "s\<lparr>current_rpc_lsn_m := touch v (current_rpc_lsn_m s)\<rparr>" and v = v]
    by (simp add: x_def)
  have n: "0 \<le> ?n" "?n \<le> ?sz" using inv p v unfolding raft_inv_def book_inv_def by blast+
  have sz: "0 \<le> ?sz" using inv by (intro entries.log_size_nonneg) (simp add: raft_inv_def log_inv_def)
  have send: "can_send P A t v"
    if t: "raft_inv P' m0 t" "entries_m t = entries_m s" "term_m t = term_m s" "ip_m t = ip_m s" "port_m t = port_m s"
      "configuration_m t = configuration_m s" "at0 (current_rpc_lsn_m t) v = at0 (current_rpc_lsn_m s) v"
      "0 \<le> at0 (nextIndex_m t) v" "at0 (nextIndex_m t) v \<le> ?sz" for t
    using t fits v ae_fits_cong [of t s v P A] by (auto simp: can_send_def raft_inv_def log_inv_def conf_inv_def)
  have whole: "surely (\<lambda>t. True) (primary_update_commit_index v (?n - 1) x)" if "?n = ?sz"
    using that n sz v three p by (intro primary_update_total [OF xi]) (simp_all add: x_def)
  have again: "surely (\<lambda>t. True) (seq (primary_update_commit_index v (m - 1) y)
      (\<lambda>s. case map_of (retry_timers_m s) v of None \<Rightarrow> Throw Null_deref s
         | Some t \<Rightarrow> AE P A v (s\<lparr>retry_timers_m := put v (snd (expires_at_min A t)) (retry_timers_m s)\<rparr>)))"
    if y: "raft_inv P' m0 y" "y = x\<lparr>nextIndex_m := k\<rparr>" "at0 k v = m" "0 \<le> m" "m \<le> ?sz" for m y k
  proof -
    have u: "surely (\<lambda>t. True) (primary_update_commit_index v (m - 1) y)"
      using y p v three by (intro primary_update_total [OF y(1)]) (simp_all add: x_def)
    have i: "okp (raft_inv P' m0) (primary_update_commit_index v (m - 1) y)"
      using y p by (intro primary_update_inv) (simp_all add: x_def)
    have c: "conf_inv y" using y(1) by (simp add: raft_inv_def)
    show ?thesis
      unfolding surely_seq
    proof (rule surely_mono [OF surelyI [OF u]])
      show "okp (\<lambda>t. raft_inv P' m0 t \<and> (\<exists>f k c. t = y\<lparr>Follower_saved_index_m := f, commit_index_m := k, smc_m := c\<rparr>))
          (primary_update_commit_index v (m - 1) y)"
        unfolding okp_conj by (rule conjI [OF i okp_mono [OF primary_update_effect [OF c]]]) blast
      fix t assume t: "raft_inv P' m0 t \<and> (\<exists>f k c. t = y\<lparr>Follower_saved_index_m := f, commit_index_m := k, smc_m := c\<rparr>)"
      then have "can_send P A t v" using y by (intro send) (auto simp: x_def)
      then show "surely (\<lambda>t. True) (case map_of (retry_timers_m t) v of None \<Rightarrow> Throw Null_deref t
         | Some x \<Rightarrow> AE P A v (t\<lparr>retry_timers_m := put v (snd (expires_at_min A x)) (retry_timers_m t)\<rparr>))"
        using A by (intro resend_total [OF _ A]) (simp_all add: asio_lawD)
    qed
  qed
  have put: "raft_inv P' m0 (x\<lparr>nextIndex_m := put v i (nextIndex_m x)\<rparr>)" if "0 \<le> i" "i \<le> ?sz" for i
    using that xi by (intro raft_inv_next) (simp_all add: x_def)
  have refused: "surely (\<lambda>t. True) (case map_of (retry_timers_m y) v of None \<Rightarrow> Throw Null_deref y
         | Some t \<Rightarrow> AE P A v (y\<lparr>retry_timers_m := put v (snd (cancel A t)) (retry_timers_m y)\<rparr>))"
    if "?n \<noteq> 0" "y = x\<lparr>nextIndex_m := put v (?n - 1) (nextIndex_m x)\<rparr>" for y
  proof (rule resend_total [OF _ A])
    have "raft_inv P' m0 y" using that n put [of "?n - 1"] by simp
    then show "can_send P A y v" using that n by (intro send) (simp_all add: x_def)
  qed (use A in \<open>simp add: asio_lawD\<close>)
  have possible': "rae_ok r \<or> ?n \<noteq> 0" using possible by auto
  show ?thesis
    unfolding primary_deal_resp_ae_with_same_term_def Let_def surely_if
    using whole again [OF xi, of "nextIndex_m x" ?n] refused [OF _ refl] put [of "?n + 1"] n possible'
      again [of "x\<lparr>nextIndex_m := put v (?n + 1) (nextIndex_m x)\<rparr>" "put v (?n + 1) (nextIndex_m x)" "?n + 1"]
    by (cases "rae_ok r") (simp_all add: x_def cong: option.case_cong)
qed

section \<open>Clients\<close>

lemma append_client_total:
  assumes "entries_inv (entries_m s)" "has_room s" "\<not> wr_fails (data_m (entries_m s))"
  shows "surely (\<lambda>t. \<exists>es. entries_inv es \<and>
      log_of es = log_of (entries_m s) @ [\<lparr>en_term = term_m s, en_index = Entries_size (entries_m s), en_msg = str\<rparr>] \<and>
      t = s\<lparr>entries_m := es,
            entryIndex_to_socketAddr_map_m := put (Entries_size (entries_m s)) c (entryIndex_to_socketAddr_map_m s),
            Follower_saved_index_m := put (server_m s) (Entries_size (entries_m s)) (Follower_saved_index_m s)\<rparr>)
    (append_client_apply_to_entries P c str s)"
proof -
  let ?n = "Entries_size (entries_m s)"
  let ?s = "s\<lparr>entryIndex_to_socketAddr_map_m := put ?n c (entryIndex_to_socketAddr_map_m s)\<rparr>"
  let ?e = "\<lparr>en_term = term_m s, en_index = ?n, en_msg = str\<rparr>"
  have n: "0 \<le> ?n" "nat ?n = length (log_of (entries_m s))"
    using assms(1) by (simp_all add: entries.size_log)
  have "surely (\<lambda>t. \<exists>es. t = ?s\<lparr>entries_m := es\<rparr> \<and> entries_inv es \<and> log_of es = take (nat ?n) (log_of (entries_m ?s)) @ [?e])
      (insert_entry P ?n ?e ?s)"
    using assms n by (intro surelyI [OF insert_entry_total insert_entry_effect]) simp_all
  then show ?thesis
    using n by (auto simp: append_client_apply_to_entries_def Let_def wp elim!: surely_mono)
qed

end
