(* ===== verification/Raft_Outcomes.thy ===== *)
theory Raft_Outcomes
  imports Raft_Totality Raft_Election
begin

text \<open>
  The three handlers of the protocol, on every branch: \<open>rv_outcome\<close>, \<open>ae_outcome\<close> and \<open>ack_outcome\<close> relate the state
  before a message to the outcome of its handler, which is an exception with the state at the throw, or the whole new
  state, given as one update of the old one, with the message sent. Each branch is guarded by what the message and the
  abstract log say; timers, sequence numbers, votes and the tasks of the state machine are included.
\<close>

section \<open>Steps that the handlers share\<close>

text \<open>What \<open>sent\<close> says depends on the network objects only. One message goes out, and nothing else changes.\<close>

definition net_sent :: "RPC \<Rightarrow> RPC \<Rightarrow> (endpoint \<times> string) list \<Rightarrow> bool" where
  "net_sent r r' ms \<longleftrightarrow> call_extends r r' \<and> calls r r' = ms \<and> (rpc_inv r \<longrightarrow> rpc_inv r')"

lemma sent_net: "sent s t ms \<longleftrightarrow> net_sent (network_m s) (network_m t) ms"
  by (simp add: sent_def net_sent_def)

definition sends_only :: "endpoint \<times> string \<Rightarrow> 't RaftServer \<Rightarrow> 't RaftServer outcome \<Rightarrow> bool" where
  "sends_only x s m \<longleftrightarrow> (\<exists>n. m = Ok (s\<lparr>network_m := n\<rparr>) \<and> net_sent (network_m s) n [x])"

lemma net_call_only:
  assumes "rpc_inv (network_m s)" "address_ok A (ip_of v)" "ty \<noteq> ERROR" "length m < 9999"
  shows "sends_only (v, wire (ty, m)) s (net_call P A ty v m s)"
  using surelyD [OF surelyI [OF net_call_total [OF assms(2-4)] net_call_sends [OF assms(1)]]]
  by (fastforce simp: sends_only_def sent_net)

text \<open>The state of a server that has become a follower of term \<open>T\<close>: all timers are stopped, the election timer is set
  again, and a new term starts with fresh sequence numbers for the members.\<close>

definition stepped_down :: "'t asio \<Rightarrow> int \<Rightarrow> 't RaftServer \<Rightarrow> 't RaftServer" where
  "stepped_down A T s = s\<lparr>
     winned_votes_m := 0, already_voted_m := False, term_m := T, state_m := follower,
     current_rpc_lsn_m := (if term_m s < T then put_all (configuration_m s) 0 (current_rpc_lsn_m s) else current_rpc_lsn_m s),
     follower_rpc_lsn_m := (if term_m s < T then put_all (configuration_m s) (-1) (follower_rpc_lsn_m s) else follower_rpc_lsn_m s),
     candidate_timer_m := async_wait A Trans2F_handler (snd (expires_from_now A (random_candidate_expire (rand_m s 0))
       (snd (expires_at_min A (candidate_timer_m s))))),
     retry_timers_m := map (\<lambda>(k, t). (k, snd (expires_at_min A t))) (retry_timers_m s),
     rand_m := (\<lambda>n. rand_m s (Suc n))\<rparr>"

lemma trans2F_eq:
  assumes "asio_law A pend" "term_m s \<le> T"
  shows "trans2F A T s = Ok (stepped_down A T s)"
  using assms(2)
  by (auto simp: trans2F_def update_term_def reset_both_rpc_lsn_def cancel_all_timers_def arm_candidate_timer_def
      call_rand_def split_def Let_def asio_lawD [OF assms(1)] stepped_down_def)

lemma stepped_down_facts [simp]:
  "term_m (stepped_down A T s) = T" "state_m (stepped_down A T s) = follower" "\<not> already_voted_m (stepped_down A T s)"
  "entries_m (stepped_down A T s) = entries_m s" "smc_m (stepped_down A T s) = smc_m s"
  "commit_index_m (stepped_down A T s) = commit_index_m s" "network_m (stepped_down A T s) = network_m s"
  "ip_m (stepped_down A T s) = ip_m s" "port_m (stepped_down A T s) = port_m s"
  "configuration_m (stepped_down A T s) = configuration_m s"
  by (simp_all add: stepped_down_def)

lemma stepped_down_seen: "term_m s \<le> T \<Longrightarrow> at0 (follower_rpc_lsn_m (stepped_down A T s)) v = seen_lsn s T v"
  by (simp add: stepped_down_def seen_lsn_def at0_put_all)

text \<open>A request with the sequence number \<open>l\<close> from \<open>v\<close> is looked up, and recorded if it is a new one.\<close>

definition looked_up :: "endpoint \<Rightarrow> 't RaftServer \<Rightarrow> 't RaftServer" where
  "looked_up v s = s\<lparr>follower_rpc_lsn_m := touch v (follower_rpc_lsn_m s)\<rparr>"

definition recorded :: "endpoint \<Rightarrow> int \<Rightarrow> 't RaftServer \<Rightarrow> 't RaftServer" where
  "recorded v l s = s\<lparr>follower_rpc_lsn_m := put v l (follower_rpc_lsn_m s)\<rparr>"

lemma put_touch: "put k x (touch k m) = put k x m"
  by (simp add: put_def touch_def)

lemma should_ignore_eq:
  "should_ignore_remote_rpc v l s =
     (if l \<le> at0 (follower_rpc_lsn_m s) v then (True, looked_up v s) else (False, recorded v l s))"
  by (simp add: should_ignore_remote_rpc_def looked_up_def recorded_def put_touch)

section \<open>A vote request\<close>

definition rv_outcome :: "pb \<Rightarrow> 't asio \<Rightarrow> RequestVoteRpc \<Rightarrow> 't RaftServer \<Rightarrow> 't RaftServer outcome \<Rightarrow> bool" where
  "rv_outcome P A rv s m \<longleftrightarrow>
     (let v = (rv_ip rv, rv_port rv);
          u = (if term_m s < rv_term rv then stepped_down A (rv_term rv) s else s) in
      if rv_term rv < term_m s then sends_only (vote_reply P s rv False) s m
      else if rv_lsn rv \<le> seen_lsn s (rv_term rv) v then m = Ok (looked_up v u)
      else if grants rv s then
        (\<exists>n. m = Ok ((recorded v (rv_lsn rv) u)\<lparr>network_m := n, already_voted_m := True\<rparr>) \<and>
           net_sent (network_m s) n [vote_reply P s rv True])
      else sends_only (vote_reply P s rv False) (recorded v (rv_lsn rv) u) m)"

definition rv_reply_fits :: "pb \<Rightarrow> RequestVoteRpc \<Rightarrow> 't RaftServer \<Rightarrow> bool" where
  "rv_reply_fits P rv s \<longleftrightarrow> (\<forall>b. length (ser_resp_rv P \<lparr>rrv_ok = b, rrv_term = max (term_m s) (rv_term rv),
     rrv_lsn = rv_lsn rv, rrv_ip = ip_m s, rrv_port = port_m s\<rparr>) < 9999)"

lemma vote_reply_sent:
  assumes "address_ok A (rv_ip rv)" "rv_reply_fits P rv s" "rpc_inv (network_m t)"
    "term_m t = max (term_m s) (rv_term rv)" "ip_m t = ip_m s" "port_m t = port_m s"
  shows "sends_only (vote_reply P s rv b) t (make_resp_rv P A b (rv_ip rv, rv_port rv) (rv_lsn rv) t)"
proof -
  have "vote_reply P s rv b = ((rv_ip rv, rv_port rv), wire (RESP_VOTE, ser_resp_rv P \<lparr>rrv_ok = b, rrv_term = term_m t,
      rrv_lsn = rv_lsn rv, rrv_ip = ip_m t, rrv_port = port_m t\<rparr>))"
    by (simp add: vote_reply_def assms(4-6))
  then show ?thesis
    using net_call_only [OF assms(3), of A "(rv_ip rv, rv_port rv)" RESP_VOTE] assms by (simp add: make_resp_rv_def rv_reply_fits_def)
qed

lemma rv_body_outcome:
  assumes inv: "entries_inv (entries_m s)" "rpc_inv (network_m s)" and t: "rv_term rv = term_m s"
    and net: "address_ok A (rv_ip rv)" "rv_reply_fits P rv s"
  shows "rv_outcome P A rv s (rv_body P A rv s)"
proof (cases "rv_lsn rv \<le> at0 (follower_rpc_lsn_m s) (rv_ip rv, rv_port rv)")
  case True
  then show ?thesis using t by (simp add: rv_body_def should_ignore_eq rv_outcome_def seen_lsn_def)
next
  case False
  let ?v = "(rv_ip rv, rv_port rv)"
  let ?u = "recorded ?v (rv_lsn rv) s"
  have u: "should_ignore_remote_rpc ?v (rv_lsn rv) s = (False, ?u)" using False by (simp add: should_ignore_eq)
  have f: "term_m ?u = term_m s" "state_m ?u = state_m s" "already_voted_m ?u = already_voted_m s"
    "network_m ?u = network_m s" "ip_m ?u = ip_m s" "port_m ?u = port_m s"
    by (simp_all add: recorded_def)
  have g: "grants rv s \<longleftrightarrow> state_m s = follower \<and> \<not> already_voted_m s \<and> log_acceptable rv (log_of (entries_m s))"
    using False t by (auto simp: grants_def seen_lsn_def)
  have r: "sends_only (vote_reply P s rv b) ?u (make_resp_rv P A b ?v (rv_lsn rv) ?u)" for b
    using inv net t f by (intro vote_reply_sent) simp_all
  show ?thesis
  proof (cases "grants rv s")
    case True
    from r [of True] obtain n where "make_resp_rv P A True ?v (rv_lsn rv) ?u = Ok (?u\<lparr>network_m := n\<rparr>)"
      "net_sent (network_m s) n [vote_reply P s rv True]" unfolding sends_only_def f(4) by blast
    with True g False t show ?thesis by (auto simp: rv_body_eq [OF inv(1) u] f(2,3) rv_outcome_def Let_def seen_lsn_def)
  next
    case no: False
    have "rv_body P A rv s = make_resp_rv P A False ?v (rv_lsn rv) ?u"
      using no unfolding g rv_body_eq [OF inv(1) u] f(2,3) by (subst if_not_P) auto
    with r [of False] no False t show ?thesis by (simp add: rv_outcome_def seen_lsn_def)
  qed
qed

lemma react2rv_outcome:
  assumes inv: "entries_inv (entries_m s)" "rpc_inv (network_m s)" and A: "asio_law A pend"
    and net: "address_ok A (rv_ip rv)" "rv_reply_fits P rv s"
  shows "rv_outcome P A rv s (react2rv P A rv s)"
proof (cases "rv_term rv < term_m s")
  case True
  with vote_reply_sent [OF net inv(2), of False] show ?thesis by (simp add: react2rv_split rv_outcome_def)
next
  case False
  show ?thesis
  proof (cases "term_m s < rv_term rv")
    case True
    let ?u = "stepped_down A (rv_term rv) s"
    have fits: "rv_reply_fits P rv ?u" using net(2) True by (simp add: rv_reply_fits_def)
    have o: "rv_outcome P A rv ?u (rv_body P A rv ?u)"
      using inv net(1) fits by (intro rv_body_outcome) simp_all
    have l: "seen_lsn ?u (rv_term rv) v = seen_lsn s (rv_term rv) v" for v
      using stepped_down_seen [of s "rv_term rv" A v] True by (simp add: seen_lsn_def)
    have g: "grants rv ?u = grants rv s" using True by (simp add: grants_def l)
    have v: "vote_reply P ?u rv b = vote_reply P s rv b" for b using True by (simp add: vote_reply_def)
    have "rv_outcome P A rv s (rv_body P A rv ?u)"
      using o True by (simp add: rv_outcome_def Let_def l g v cong: if_cong)
    with True show ?thesis using trans2F_eq [OF A, of s "rv_term rv"] by (simp add: react2rv_split)
  next
    case same: False
    with False rv_body_outcome [OF inv _ net] show ?thesis by (simp add: react2rv_split)
  qed
qed

section \<open>An AppendEntries\<close>

text \<open>The end of an accepted one: the commit index becomes the smaller of the sender's and the last position, which is
  an error if that is less than it was; entries committed for the first time go to the state machine.\<close>

definition commit_outcome :: "pb \<Rightarrow> AppendEntryRpc \<Rightarrow> 't RaftServer \<Rightarrow> 't RaftServer outcome \<Rightarrow> bool" where
  "commit_outcome P ae s m \<longleftrightarrow>
     (let k = min (ae_commit_index ae) (int (length (log_of (entries_m s))) - 1) in
      if k < commit_index_m s then m = Throw Commit_decreases (s\<lparr>commit_index_m := k\<rparr>)
      else sends_only (ae_reply P s ae True)
        (s\<lparr>commit_index_m := k,
           smc_m := (if k = commit_index_m s then smc_m s else handed_over k (entries_m s) (smc_m s))\<rparr>) m)"

definition accept_outcome :: "pb \<Rightarrow> AppendEntryRpc \<Rightarrow> 't RaftServer \<Rightarrow> 't RaftServer outcome \<Rightarrow> bool" where
  "accept_outcome P ae s m \<longleftrightarrow>
     (case ae_entry ae of
        [] \<Rightarrow> if int (length (log_of (entries_m s))) < ae_commit_index ae then m = Throw Commit_beyond_log s
              else commit_outcome P ae s m
      | e # _ \<Rightarrow> if en_index e \<noteq> ae_prelog_index ae + 1 then m = Throw Bad_entry_index s
              else \<exists>es. entries_inv es \<and> log_of es = take (nat (ae_prelog_index ae + 1)) (log_of (entries_m s)) @ [e] \<and>
                commit_outcome P ae (s\<lparr>entries_m := es\<rparr>) m)"

definition ae_outcome :: "pb \<Rightarrow> 't asio \<Rightarrow> AppendEntryRpc \<Rightarrow> 't RaftServer \<Rightarrow> 't RaftServer outcome \<Rightarrow> bool" where
  "ae_outcome P A ae s m \<longleftrightarrow>
     (let v = (ae_ip ae, ae_port ae);
          u = stepped_down A (ae_term ae) s;
          w = recorded v (ae_lsn ae) u in
      if 1 < length (ae_entry ae) then m = Throw Entry_size_gt_1 s
      else if ae_term ae < term_m s then sends_only (ae_reply P s ae False) s m
      else if state_m s = primary \<and> term_m s = ae_term ae then m = Throw Two_primaries s
      else if ae_lsn ae \<le> seen_lsn s (ae_term ae) v then m = Ok (looked_up v u)
      else if ae_prelog_index ae = -1 \<and> ae_prelog_term ae \<noteq> -1 then m = Throw Bad_prelog_term w
      else if ae_prelog_index ae < -1 then m = Throw Undefined_behaviour w
      else if log_matches ae (log_of (entries_m s)) then accept_outcome P ae w m
      else sends_only (ae_reply P s ae False) w m)"

lemma ae_reply_sent:
  assumes "address_ok A (ae_ip ae)" "reply_fits P ae s" "rpc_inv (network_m t)"
    "term_m t = max (term_m s) (ae_term ae)" "ip_m t = ip_m s" "port_m t = port_m s"
  shows "sends_only (ae_reply P s ae b) t (make_resp_ae P A b (ae_ip ae, ae_port ae) (ae_lsn ae) (ae_entry ae = []) t)"
proof -
  have "ae_reply P s ae b = ((ae_ip ae, ae_port ae), wire (RESP_APPEND, ser_resp_ae P \<lparr>rae_ok = b, rae_term = term_m t,
      rae_lsn = ae_lsn ae, rae_ip = ip_m t, rae_port = port_m t, rae_is_empty_ae = (ae_entry ae = [])\<rparr>))"
    by (simp add: ae_reply_def assms(4-6))
  then show ?thesis
    using net_call_only [OF assms(3), of A "(ae_ip ae, ae_port ae)" RESP_APPEND] assms by (simp add: make_resp_ae_def reply_fits_def)
qed

lemma commit_tail_outcome:
  assumes inv: "entries_inv (entries_m s)" "smc_inv P' m0 fin (smc_m s)" "rpc_inv (network_m s)"
    and t: "term_m s = ae_term ae" and net: "address_ok A (ae_ip ae)" "reply_fits P ae s" and e: "e \<longleftrightarrow> ae_entry ae = []"
  shows "commit_outcome P ae s (seq (follower_update_commit_index (ae_commit_index ae) s)
    (make_resp_ae P A True (ae_ip ae, ae_port ae) (ae_lsn ae) e))"
proof -
  define k where "k = min (ae_commit_index ae) (Entries_size (entries_m s) - 1)"
  have k': "k = min (ae_commit_index ae) (int (length (log_of (entries_m s))) - 1)"
    by (simp add: k_def entries.size_log [OF inv(1)])
  have r: "sends_only (ae_reply P s ae True) (s\<lparr>commit_index_m := i, smc_m := c\<rparr>)
      (make_resp_ae P A True (ae_ip ae, ae_port ae) (ae_lsn ae) e (s\<lparr>commit_index_m := i, smc_m := c\<rparr>))" for i c
    unfolding e using net inv(3) t by (intro ae_reply_sent) simp_all
  show ?thesis
    using r [of "smc_m s" "commit_index_m s"] r [where i = k]
    unfolding follower_update_eq [OF inv(1,2) k_def] commit_outcome_def k' [symmetric] Let_def by simp
qed

lemma accept_ae_outcome:
  assumes inv: "entries_inv (entries_m s)" "smc_inv P' m0 fin (smc_m s)" "rpc_inv (network_m s)" and room: "has_room s"
    and dev: "\<not> wr_fails (data_m (entries_m s))" and m: "log_matches ae (log_of (entries_m s))"
    and t: "term_m s = ae_term ae" and net: "address_ok A (ae_ip ae)" "reply_fits P ae s"
  shows "accept_outcome P ae s (accept_ae P A ae s)"
proof (cases "ae_entry ae")
  case Nil
  then show ?thesis
    using commit_tail_outcome [OF inv t net, of True] entries.size_log [OF inv(1)]
    by (simp add: accept_outcome_def accept_ae_def Let_def)
next
  case (Cons e es)
  let ?i = "ae_prelog_index ae + 1"
  have i: "0 \<le> ?i" "?i \<le> Entries_size (entries_m s)" using m entries.size_log [OF inv(1)] by (auto simp: log_matches_def)
  obtain ws where w: "insert_entry P ?i e s = Ok (s\<lparr>entries_m := ws\<rparr>)" "entries_inv ws"
      "log_of ws = take (nat ?i) (log_of (entries_m s)) @ [e]"
    using surelyD [OF surelyI [OF insert_entry_total [OF inv(1) room i dev] insert_entry_effect [OF inv(1) room i]]] by blast
  have "commit_outcome P ae (s\<lparr>entries_m := ws\<rparr>) (seq (follower_update_commit_index (ae_commit_index ae) (s\<lparr>entries_m := ws\<rparr>))
      (make_resp_ae P A True (ae_ip ae, ae_port ae) (ae_lsn ae) False))"
    using inv t net w(2) Cons by (intro commit_tail_outcome) (simp_all add: reply_fits_def)
  then show ?thesis
    using Cons w by (auto simp: accept_outcome_def accept_ae_def Let_def)
qed

lemma ae_body_outcome:
  assumes inv: "entries_inv (entries_m s)" "smc_inv P' m0 fin (smc_m s)" "rpc_inv (network_m s)" and room: "has_room s"
    and dev: "\<not> wr_fails (data_m (entries_m s))" and t: "term_m s = ae_term ae"
    and net: "address_ok A (ae_ip ae)" "reply_fits P ae s" and l: "at0 (follower_rpc_lsn_m s) v < ae_lsn ae"
    and v: "v = (ae_ip ae, ae_port ae)" "w = recorded v (ae_lsn ae) s"
  shows "if ae_prelog_index ae = -1 \<and> ae_prelog_term ae \<noteq> -1 then ae_body P A ae s = Throw Bad_prelog_term w
      else if ae_prelog_index ae < -1 then ae_body P A ae s = Throw Undefined_behaviour w
      else if log_matches ae (log_of (entries_m s)) then accept_outcome P ae w (ae_body P A ae s)
      else sends_only (ae_reply P s ae False) w (ae_body P A ae s)"
proof -
  let ?p = "ae_prelog_index ae" and ?log = "log_of (entries_m s)"
  have i: "should_ignore_remote_rpc v (ae_lsn ae) s = (False, w)" using l v by (simp add: should_ignore_eq)
  have f: "entries_m w = entries_m s" "smc_m w = smc_m s" "network_m w = network_m s" "term_m w = term_m s"
    "ip_m w = ip_m s" "port_m w = port_m s" by (simp_all add: v(2) recorded_def)
  have fits: "reply_fits P ae w" using net(2) f by (simp add: reply_fits_def)
  have yes: "accept_outcome P ae w (accept_ae P A ae w)" if "log_matches ae ?log"
    using that inv room dev t net(1) fits f by (intro accept_ae_outcome [of _ P' m0 fin]) simp_all
  have no: "sends_only (ae_reply P s ae False) w (make_resp_ae P A False v (ae_lsn ae) (ae_entry ae = []) w)"
    unfolding v(1) using inv(3) net t f by (intro ae_reply_sent) simp_all
  have sz: "Entries_size (entries_m s) = int (length ?log)" using inv(1) by (rule entries.size_log)
  have b: "ae_body P A ae s = (if ?p = -1 then (if ae_prelog_term ae \<noteq> -1 then Throw Bad_prelog_term w else accept_ae P A ae w)
      else if ?p \<ge> int (length ?log) then make_resp_ae P A False v (ae_lsn ae) (ae_entry ae = []) w
      else with_res (Entries_get (entries_m s) ?p) w (\<lambda>prev_entry.
        if ae_prelog_term ae \<noteq> en_term prev_entry then make_resp_ae P A False v (ae_lsn ae) (ae_entry ae = []) w
        else accept_ae P A ae w))"
    using i unfolding v(1) by (simp add: ae_body_def f(1) sz)
  consider "?p < -1" | "?p = -1" | "0 \<le> ?p" "int (length ?log) \<le> ?p" | "0 \<le> ?p" "?p < int (length ?log)" by linarith
  then show ?thesis
  proof cases
    case 1
    then have "Entries_get (entries_m s) ?p = Inl Undefined_behaviour"
      using sz by (simp add: Entries_get_def Entries_size_def)
    with 1 show ?thesis by (simp add: b)
  next
    case 2
    then show ?thesis using yes by (simp add: b log_matches_def)
  next
    case 3
    then show ?thesis using no by (simp add: b log_matches_def)
  next
    case 4
    then have g: "Entries_get (entries_m s) ?p = Inr (?log ! nat ?p)" using sz by (intro entries.get_log [OF inv(1)]) simp_all
    show ?thesis using 4 yes no by (auto simp: b g log_matches_def)
  qed
qed

lemma react2ae_outcome:
  assumes inv: "raft_inv P' m0 s" and room: "has_room s" and A: "asio_law A pend"
    and dev: "\<not> wr_fails (data_m (entries_m s))" and net: "address_ok A (ae_ip ae)" "reply_fits P ae s"
  shows "ae_outcome P A ae s (react2ae P A ae s)"
proof (cases "length (ae_entry ae) > 1 \<or> ae_term ae < term_m s \<or> (state_m s = primary \<and> term_m s = ae_term ae)")
  case True
  have "rpc_inv (network_m s)" using inv by (simp add: raft_inv_def conf_inv_def)
  then show ?thesis using True ae_reply_sent [OF net, of s False] by (auto simp: react2ae_split ae_outcome_def)
next
  case False
  let ?v = "(ae_ip ae, ae_port ae)" and ?u = "stepped_down A (ae_term ae) s"
  obtain fin where c: "entries_inv (entries_m s)" "smc_inv P' m0 fin (smc_m s)" "rpc_inv (network_m s)"
    using inv by (auto simp: raft_inv_def log_inv_def conf_inv_def)
  have eq: "react2ae P A ae s = ae_body P A ae ?u"
    using False trans2F_eq [OF A, of s "ae_term ae"] by (auto simp: react2ae_split)
  have l: "at0 (follower_rpc_lsn_m ?u) ?v = seen_lsn s (ae_term ae) ?v"
    using False by (intro stepped_down_seen) simp
  show ?thesis
  proof (cases "ae_lsn ae \<le> seen_lsn s (ae_term ae) ?v")
    case True
    then have "ae_body P A ae ?u = Ok (looked_up ?v ?u)" using l by (simp add: ae_body_def should_ignore_eq)
    with True False show ?thesis unfolding eq by (auto simp: ae_outcome_def)
  next
    case fresh: False
    have fits: "reply_fits P ae ?u" using net(2) False by (simp add: reply_fits_def)
    have r: "ae_reply P ?u ae b = ae_reply P s ae b" for b using False by (simp add: ae_reply_def)
    show ?thesis
      using ae_body_outcome [of ?u P' m0 fin ae A P ?v, OF _ _ _ _ _ _ net(1) fits _ refl refl] c room dev l fresh False
      unfolding eq r by (auto simp: ae_outcome_def cong: if_cong)
  qed
qed

section \<open>An answer to an AppendEntries\<close>

text \<open>An AppendEntries goes to \<open>v\<close>: the retry timer, which \<open>g\<close> has stopped, is set again and gets the handler that
  sends the next one.\<close>

definition ae_sent :: "pb \<Rightarrow> 't asio \<Rightarrow> ('t \<Rightarrow> 't) \<Rightarrow> endpoint \<Rightarrow> 't RaftServer \<Rightarrow> 't RaftServer outcome \<Rightarrow> bool" where
  "ae_sent P A g v s m \<longleftrightarrow>
     (\<exists>n x. map_of (retry_timers_m s) v = Some x \<and>
        net_sent (network_m s) n [(v, wire (APPEND_ENTRY, ser_ae P (ae_at s v (at0 (nextIndex_m s) v) (commit_index_m s))))] \<and>
        m = Ok (s\<lparr>network_m := n,
          current_rpc_lsn_m := put v (at0 (current_rpc_lsn_m s) v + 1) (current_rpc_lsn_m s),
          nextIndex_m := touch v (nextIndex_m s),
          retry_timers_m := put v (async_wait A (AE_handler v)
            (snd (expires_from_now A (random_ae_retry_expire (rand_m s 0)) (g x)))) (retry_timers_m s),
          rand_m := (\<lambda>n. rand_m s (Suc n))\<rparr>))"

text \<open>The bookkeeping of a primary after a positive answer, when the next position for \<open>v\<close> is \<open>n\<close> and the commit index
  \<open>k\<close>: all entries up to \<open>k\<close> that have not been before are handed over to the state machine.\<close>

definition acknowledged :: "endpoint \<Rightarrow> int \<Rightarrow> int \<Rightarrow> 't RaftServer \<Rightarrow> 't RaftServer" where
  "acknowledged v n k s = s\<lparr>
     current_rpc_lsn_m := touch v (current_rpc_lsn_m s), nextIndex_m := put v n (nextIndex_m s),
     Follower_saved_index_m := put v (n - 1) (Follower_saved_index_m s),
     commit_index_m := k, smc_m := handed_over k (entries_m s) (smc_m s)\<rparr>"

definition ack_outcome :: "pb \<Rightarrow> 't asio \<Rightarrow> Resp_AppendEntryRpc \<Rightarrow> 't RaftServer \<Rightarrow> 't RaftServer outcome \<Rightarrow> bool" where
  "ack_outcome P A r s m \<longleftrightarrow>
     (let v = (rae_ip r, rae_port r); n = at0 (nextIndex_m s) v; size = int (length (log_of (entries_m s)));
          x = s\<lparr>current_rpc_lsn_m := touch v (current_rpc_lsn_m s)\<rparr> in
      if term_m s < rae_term r then m = Ok (stepped_down A (rae_term r) s)
      else if rae_term r < term_m s then m = Ok s
      else if state_m s \<noteq> primary then m = Throw Resp_ae_not_primary s
      else if at0 (current_rpc_lsn_m s) v \<noteq> rae_lsn r + 1 then m = Ok x
      else if rae_ok r then
        \<exists>k. let t = acknowledged v (if n < size \<and> \<not> rae_is_empty_ae r then n + 1 else n) k s in
            quorum_commit t \<and>
            (if n = size then m = Ok t else ae_sent P A (\<lambda>x. snd (expires_at_min A x)) v t m)
      else if n = 0 then m = Throw Refused_at_zero (x\<lparr>nextIndex_m := touch v (nextIndex_m s)\<rparr>)
      else ae_sent P A (\<lambda>x. snd (cancel A x)) v (x\<lparr>nextIndex_m := put v (n - 1) (nextIndex_m s)\<rparr>) m)"

lemma put_put [simp]: "put k x (put k y m) = put k x m"
  by (simp add: put_def)

lemma touch_put [simp]: "touch k (put k y m) = put k y m"
  by (simp add: touch_def)

lemma touch_touch [simp]: "touch k (touch k m) = touch k m"
  by (simp add: touch_def)

lemma build_rpc_ae_state:
  "snd (build_rpc_ae v s) = s\<lparr>current_rpc_lsn_m := put v (at0 (current_rpc_lsn_m s) v + 1) (current_rpc_lsn_m s),
     nextIndex_m := touch v (nextIndex_m s)\<rparr>"
  by (simp add: build_rpc_ae_def Let_def)

lemma resend_outcome:
  assumes "can_send P A s v" "asio_law A pend" "\<And>x. pend (g x) = 0" "rpc_inv (network_m s)"
  shows "ae_sent P A g v s (case map_of (retry_timers_m s) v of None \<Rightarrow> Throw Null_deref s
      | Some x \<Rightarrow> AE P A v (s\<lparr>retry_timers_m := put v (g x) (retry_timers_m s)\<rparr>))"
proof -
  obtain x where x: "map_of (retry_timers_m s) v = Some x"
    using assms(1) by (auto simp: can_send_def keys_iff_map_of)
  let ?m = "ae_at s v (at0 (nextIndex_m s) v) (commit_index_m s)"
  define z where "z = s\<lparr>retry_timers_m := put v (g x) (retry_timers_m s)\<rparr>"
  have z: "entries_m z = entries_m s" "nextIndex_m z = nextIndex_m s" "commit_index_m z = commit_index_m s"
    "network_m z = network_m s" "ae_at z = ae_at s" by (simp_all add: z_def ae_at_def fun_eq_iff)
  have b: "fst (build_rpc_ae v z) = Inr ?m"
    using assms(1) z by (subst build_rpc_ae_spec [OF _ refl]) (simp_all add: can_send_def ae_at_def z_def)
  have fits: "address_ok A (ip_of v)" "length (ser_ae P ?m) < 9999"
    using assms(1) unfolding can_send_def ae_fits_def by blast+
  define y where "y = snd (build_rpc_ae v z)"
  have "sends_only (v, wire (APPEND_ENTRY, ser_ae P ?m)) y (net_call P A APPEND_ENTRY v (ser_ae P ?m) y)"
    using assms(4) fits by (intro net_call_only) (simp_all add: y_def build_rpc_ae_state z)
  then obtain n where n: "net_call P A APPEND_ENTRY v (ser_ae P ?m) y = Ok (y\<lparr>network_m := n\<rparr>)"
      "net_sent (network_m s) n [(v, wire (APPEND_ENTRY, ser_ae P ?m))]"
    by (auto simp: sends_only_def y_def build_rpc_ae_state z)
  have "AE P A v z = arm_retry_timer A random_ae_retry_expire (AE_handler v) (Throw AE_waiting) v (y\<lparr>network_m := n\<rparr>)"
    using n(1) b by (simp add: AE_def split_def Let_def y_def [symmetric])
  with x n(2) show ?thesis
    by (auto simp: ae_sent_def arm_retry_timer_def call_rand_def split_def Let_def asio_lawD [OF assms(2)] assms(3)
        y_def build_rpc_ae_state z_def)
qed

lemma primary_update_outcome:
  assumes "raft_inv P m0 s" "state_m s = primary" "v \<in> set (configuration_m s)" "3 \<le> length (configuration_m s)"
    "-1 \<le> i" "i < Entries_size (entries_m s)"
  shows "\<exists>k t. primary_update_commit_index v i s = Ok t \<and> raft_inv P m0 t \<and> quorum_commit t \<and>
    t = s\<lparr>Follower_saved_index_m := put v i (Follower_saved_index_m s), commit_index_m := k,
          smc_m := handed_over k (entries_m s) (smc_m s)\<rparr>"
proof -
  have ci: "conf_inv s" using assms(1) by (simp add: raft_inv_def)
  obtain fin where c: "entries_inv (entries_m s)" "smc_inv P m0 fin (smc_m s)"
    using assms(1) by (auto simp: raft_inv_def log_inv_def)
  obtain t where t: "primary_update_commit_index v i s = Ok t" "quorum_commit t" "raft_inv P m0 t"
      "\<exists>k c. t = s\<lparr>Follower_saved_index_m := put v i (Follower_saved_index_m s), commit_index_m := k, smc_m := c\<rparr>"
    using surelyD [OF surelyI [OF primary_update_total [OF assms] conjI [OF primary_update_effect [OF ci, of v i]
        primary_update_inv [OF assms(1,2,5,6), of v], folded okp_conj]]] by blast
  let ?s = "s\<lparr>Follower_saved_index_m := put v i (Follower_saved_index_m s)\<rparr>"
  obtain k where k: "apply_to_state_machine k (?s\<lparr>commit_index_m := k\<rparr>) = Ok t"
    using t(1) by (auto simp: primary_update_commit_index_def Let_def split: if_splits)
  then obtain c' where "t = ?s\<lparr>commit_index_m := k, smc_m := c'\<rparr>"
    using okpD [OF apply_frame k] by auto
  then have "k < Entries_size (entries_m s)" using t(3) by (simp add: raft_inv_def log_inv_def)
  then have "t = ?s\<lparr>commit_index_m := k, smc_m := handed_over k (entries_m s) (smc_m s)\<rparr>"
    using apply_eq [of "?s\<lparr>commit_index_m := k\<rparr>" P m0 fin k] c k by simp
  with t show ?thesis by auto
qed

lemma ack_can_send:
  assumes "raft_inv P' m0 t" "v \<in> set (configuration_m t)" "ae_fits P A s v"
    and "entries_m t = entries_m s" "term_m t = term_m s" "ip_m t = ip_m s" "port_m t = port_m s"
    "at0 (current_rpc_lsn_m t) v = at0 (current_rpc_lsn_m s) v"
    "0 \<le> at0 (nextIndex_m t) v" "at0 (nextIndex_m t) v \<le> Entries_size (entries_m s)"
  shows "can_send P A t v"
  using assms ae_fits_cong [of t s v P A] by (auto simp: can_send_def raft_inv_def log_inv_def conf_inv_def)

lemma positive_outcome:
  assumes inv: "raft_inv P' m0 s" "state_m s = primary" and v: "v \<in> set (configuration_m s)"
    and three: "3 \<le> length (configuration_m s)" and A: "asio_law A pend" and fits: "ae_fits P A s v"
    and n: "0 \<le> n" "n \<le> Entries_size (entries_m s)"
    and y: "y = s\<lparr>current_rpc_lsn_m := touch v (current_rpc_lsn_m s), nextIndex_m := put v n (nextIndex_m s)\<rparr>"
  shows "\<exists>k. let t = acknowledged v n k s in
     quorum_commit t \<and> primary_update_commit_index v (n - 1) y = Ok t \<and>
     ae_sent P A (\<lambda>x. snd (expires_at_min A x)) v t (seq (primary_update_commit_index v (n - 1) y)
      (\<lambda>s. case map_of (retry_timers_m s) v of None \<Rightarrow> Throw Null_deref s
         | Some x \<Rightarrow> AE P A v (s\<lparr>retry_timers_m := put v (snd (expires_at_min A x)) (retry_timers_m s)\<rparr>)))"
proof -
  have yi: "raft_inv P' m0 y"
    using inv n raft_inv_next [OF inv(1) n(1)] by (simp add: y raft_inv_def conf_inv_def log_inv_def book_inv_def)
  obtain k t where t: "primary_update_commit_index v (n - 1) y = Ok t" "raft_inv P' m0 t" "quorum_commit t"
      "t = y\<lparr>Follower_saved_index_m := put v (n - 1) (Follower_saved_index_m y), commit_index_m := k,
             smc_m := handed_over k (entries_m y) (smc_m y)\<rparr>"
    using primary_update_outcome [OF yi, of v "n - 1"] inv v three n by (auto simp: y)
  have a: "t = acknowledged v n k s" by (simp add: t(4) y acknowledged_def)
  have "can_send P A t v"
    using t(2,4) v fits n by (intro ack_can_send [where s = s]) (simp_all add: y)
  moreover have "rpc_inv (network_m t)" using t(2) by (simp add: raft_inv_def conf_inv_def)
  ultimately have "ae_sent P A (\<lambda>x. snd (expires_at_min A x)) v t
      (case map_of (retry_timers_m t) v of None \<Rightarrow> Throw Null_deref t
         | Some x \<Rightarrow> AE P A v (t\<lparr>retry_timers_m := put v (snd (expires_at_min A x)) (retry_timers_m t)\<rparr>))"
    using A by (intro resend_outcome [OF _ A]) (simp_all add: asio_lawD)
  with t(1,3) show ?thesis unfolding Let_def a [symmetric] by (intro exI [of _ k]) (simp add: a [symmetric])
qed

lemma react2resp_ae_outcome:
  assumes inv: "raft_inv P' m0 s" and v: "(rae_ip r, rae_port r) \<in> set (configuration_m s)"
    and three: "3 \<le> length (configuration_m s)" and A: "asio_law A pend" and fits: "ae_fits P A s (rae_ip r, rae_port r)"
  shows "ack_outcome P A r s (react2resp_ae P A r s)"
proof (cases "state_m s = primary \<and> rae_term r = term_m s \<and>
    at0 (current_rpc_lsn_m s) (rae_ip r, rae_port r) = rae_lsn r + 1")
  case False
  then show ?thesis
    using trans2F_eq [OF A, of s "rae_term r"]
    by (auto simp: react2resp_ae_def ack_outcome_def primary_deal_resp_ae_with_same_term_def Let_def)
next
  case True
  let ?v = "(rae_ip r, rae_port r)"
  let ?n = "at0 (nextIndex_m s) ?v" and ?l = "touch ?v (current_rpc_lsn_m s)" and ?sz = "Entries_size (entries_m s)"
  have sz: "int (length (log_of (entries_m s))) = ?sz" using inv by (simp add: raft_inv_def log_inv_def entries.size_log)
  have n: "0 \<le> ?n" "?n \<le> ?sz" using inv True v unfolding raft_inv_def book_inv_def by blast+
  note pos = positive_outcome [OF inv _ v three A fits _ _ refl]
  have neg: "ae_sent P A (\<lambda>x. snd (cancel A x)) ?v y (case map_of (retry_timers_m y) ?v of None \<Rightarrow> Throw Null_deref y
         | Some t \<Rightarrow> AE P A ?v (y\<lparr>retry_timers_m := put ?v (snd (cancel A t)) (retry_timers_m y)\<rparr>))"
    if "?n \<noteq> 0" "y = s\<lparr>current_rpc_lsn_m := ?l, nextIndex_m := put ?v (?n - 1) (nextIndex_m s)\<rparr>" for y
  proof (rule resend_outcome [OF _ A])
    have y: "raft_inv P' m0 y"
      using that n raft_inv_next [OF inv, of "?n - 1" ?v] by (simp add: raft_inv_def conf_inv_def log_inv_def book_inv_def)
    then show "can_send P A y ?v" using that n v fits by (intro ack_can_send [where s = s]) simp_all
    show "rpc_inv (network_m y)" using y by (simp add: raft_inv_def conf_inv_def)
  qed (use A in \<open>simp add: asio_lawD\<close>)
  have p: "put ?v ?n (nextIndex_m s) = touch ?v (nextIndex_m s)" by (simp add: touch_def)
  have pt: "put ?v i (touch ?v (nextIndex_m s)) = put ?v i (nextIndex_m s)" for i by (rule put_touch)
  show ?thesis
  proof (cases "rae_ok r")
    case True
    with \<open>state_m s = primary \<and> _\<close> n pos [of ?n] pos [of "?n + 1"] show ?thesis
      unfolding react2resp_ae_def primary_deal_resp_ae_with_same_term_def get_core_def ack_outcome_def Let_def sz
      by (auto simp: p pt cong: option.case_cong)
  next
    case False
    with \<open>state_m s = primary \<and> _\<close> neg [OF _ refl] show ?thesis
      unfolding react2resp_ae_def primary_deal_resp_ae_with_same_term_def get_core_def ack_outcome_def Let_def sz
      by (auto simp: pt cong: option.case_cong)
  qed
qed

end
