(* ===== verification/Raft_Server_Properties.thy ===== *)
theory Raft_Server_Properties
  imports Raft_Example Raft_Outcomes
begin

text \<open>
  The properties of one server's elections: voting, winning, terms and roles, each with a witness on the configuration of \<open>Raft_Example\<close>.
\<close>

section \<open>A primary and a loaded configuration for the witnesses\<close>

text \<open>\<open>node1\<close> with two entries of term 1 in its log.\<close>

definition entry0 :: rpc_Entry where "entry0 = \<lparr>en_term = 1, en_index = 0, en_msg = ''a''\<rparr>"
definition entry1 :: rpc_Entry where "entry1 = \<lparr>en_term = 1, en_index = 1, en_msg = ''b''\<rparr>"

definition log2 :: Entries where
  "log2 = empty_log\<lparr>vec_m := [entry0, entry1], offset_m := [0, 9, 18], size_m := 2\<rparr>"

lemma log2 [simp]: "log_of log2 = [entry0, entry1]" "entries_inv log2" "Entries_size log2 = 2" "entries_room log2"
  by (simp_all add: log2_def empty_log_def log_of_def entries_inv_def Entries_size_def entries_room_def)

definition primary1 :: "(handler list \<times> bool) RaftServer" where
  "primary1 = node1\<lparr>term_m := 1, state_m := primary, entries_m := log2,
     nextIndex_m := put (''10.0.0.2'', 8002) 1 (put_all cfg3 2 []),
     current_rpc_lsn_m := put_all cfg3 1 [],
     Follower_saved_index_m := put (''10.0.0.1'', 8001) 1 (put_all cfg3 (-1) [])\<rparr>"

lemma primary1_inv: "raft_inv codec [] primary1" "state_m primary1 = primary"
proof -
  have "smc_inv codec [] [] fresh_smc"
    by (rule smc_inv_ctor [of _ 2 1]) (simp add: fresh_smc_def SMC_ctor_def)
  moreover have "en_index ([entry0, entry1] ! k) = int k" if "k < 2" for k
    using that by (cases k) (simp_all add: entry0_def entry1_def)
  moreover have "0 \<le> at0 (nextIndex_m primary1) v" for v
    by (simp add: primary1_def at0_put_all) (simp add: at0_def)
  ultimately show "raft_inv codec [] primary1"
    using node1_inv
    by (auto simp: raft_inv_def conf_inv_def log_inv_def book_inv_def primary1_def node1_eq at0_put_all
        keys_put_all distinct_put_all)
qed (simp add: primary1_def)

lemma node1_facts:
  "configuration_m node1 = cfg3" "term_m node1 = 0" "state_m node1 = follower" "entries_m node1 = empty_log"
  "conf_inv node1" "has_room node1" "ip_m node1 = ''10.0.0.1''" "port_m node1 = 8001" "majority_m node1 = 2"
  "winned_votes_m node1 = 0"
  using node1_inv by (simp_all add: node1_eq raft_inv_def)

section \<open>Voting\<close>

text \<open>C16. The complete behaviour of a server asked for its vote, as an equation for the outcome of the handler on every
  branch (\<open>rv_outcome\<close>). It never throws, whatever the fields of the request. A request of an older term is refused and
  changes nothing else. One of a newer term first makes the server a follower of that term (\<open>stepped_down\<close>: timers, vote,
  sequence numbers). A repeated or overtaken one is then ignored, without an answer. Otherwise the sequence number
  is recorded and exactly one answer sent: positive, with the vote flag set, if the server is a follower that has not voted
  in the term and its log is empty or its last entry passes the comparison of the code (\<open>log_acceptable\<close>); negative
  otherwise. No other member of the state changes.\<close>

theorem react2rv_spec:
  assumes "raft_inv P m0 s" "asio_law A pend" "address_ok A (rv_ip rv)" "rv_reply_fits P rv s"
  shows "rv_outcome P A rv s (react2rv P A rv s)"
  using assms by (intro react2rv_outcome) (simp_all add: raft_inv_def log_inv_def conf_inv_def)

text \<open>The witness: a fresh server, with an empty log, votes for server 2.\<close>

theorem react2rv_spec_witness:
  "\<exists>n. react2rv codec counting_asio (rv_from ''10.0.0.2'' 8002) node1 =
       Ok ((recorded (''10.0.0.2'', 8002) 0 (stepped_down counting_asio 1 node1))\<lparr>network_m := n, already_voted_m := True\<rparr>) \<and>
     net_sent (network_m node1) n [vote_reply codec node1 (rv_from ''10.0.0.2'' 8002) True]"
proof -
  let ?rv = "rv_from ''10.0.0.2'' 8002"
  have "grants ?rv node1" by (simp add: grants_def rv_from_def seen_lsn_def log_acceptable_def node1_facts)
  moreover have "rv_reply_fits codec ?rv node1" using reply_length by (simp add: rv_reply_fits_def rv_from_def node1_facts)
  then have "rv_outcome codec counting_asio ?rv node1 (react2rv codec counting_asio ?rv node1)"
    by (intro react2rv_spec [OF node1_inv counting_asio_law]) (simp_all add: counting_asio_def rv_from_def)
  ultimately show ?thesis by (auto simp: rv_outcome_def rv_from_def seen_lsn_def node1_facts)
qed

text \<open>C15. A server that becomes primary has been elected: along a run that starts when it becomes a
  candidate (with its own vote counted) and ends with it primary of the same term, it handled at least
  \<open>majority_ - 1\<close> positive vote replies of that term.\<close>

theorem elected_by_majority:
  assumes "server_run P A s tr t" "state_m s = candidate" "winned_votes_m s \<le> 1"
    and "state_m t = primary" "term_m t = term_m s"
  shows "majority_m s - 1 \<le> int (length (filter (\<lambda>(ev, _). granted P (term_m s) ev) tr))"
  using run_tally [OF assms(1-3)] assms(4,5) by simp

text \<open>The witness: a candidate of term 1 gets the vote of server 2 and has two of three.\<close>

definition candidate1 :: "(handler list \<times> bool) RaftServer" where
  "candidate1 = node1\<lparr>term_m := 1, state_m := candidate, winned_votes_m := 1,
     current_rpc_lsn_m := put_all cfg3 1 []\<rparr>"

lemma candidate1_inv: "raft_inv codec [] candidate1"
  using node1_inv by (auto simp: candidate1_def raft_inv_def conf_inv_def log_inv_def book_inv_def)

lemma length_enc_m1: "length (enc_int (-1)) \<le> 9"
  by (simp add: enc_int_def to_string_def length_enc_str show_nat.simps)

lemma heartbeat_length:
  assumes "v \<in> set cfg3"
  shows "length (ser_ae codec (heartbeat (candidate1\<lparr>winned_votes_m := 2\<rparr>) v)) < 9999"
  using assms length_enc_int [of 0] length_enc_int [of 1] length_enc_int [of 8001] length_enc_m1
  by (auto simp: heartbeat_def candidate1_def node1_facts node1_eq codec_def enc_ae_def enc_list_def length_enc_str at0_put_all)

definition yes_vote :: Resp_RequestVoteRpc where
  "yes_vote = \<lparr>rrv_ok = True, rrv_term = 1, rrv_lsn = 0, rrv_ip = ''10.0.0.2'', rrv_port = 8002\<rparr>"

abbreviation vote_event :: event where
  "vote_event \<equiv> Incoming RESP_VOTE (ser_resp_rv codec yes_vote) (''10.0.0.2'', 8002)"

lemma vote_event_wins:
  "surely (\<lambda>t. state_m t = primary \<and> term_m t = 1) (server_step codec counting_asio vote_event candidate1)"
proof -
  let ?c = "candidate1\<lparr>current_rpc_lsn_m := touch (''10.0.0.2'', 8002) (current_rpc_lsn_m candidate1), winned_votes_m := 2\<rparr>"
  have c: "conf_inv ?c" "entries_inv (entries_m ?c)"
    using candidate1_inv by (simp_all add: raft_inv_def conf_inv_def log_inv_def)
  have hb: "heartbeat ?c v = heartbeat (candidate1\<lparr>winned_votes_m := 2\<rparr>) v" for v
    by (simp add: heartbeat_def)
  have o: "others ?c = [(''10.0.0.2'', 8002), (''10.0.0.3'', 8003)]" by (simp add: candidate1_def node1_facts)
  have "surely (\<lambda>t. True) (trans2P codec counting_asio ?c)"
  proof (rule trans2P_total [OF c counting_asio_law])
    show "\<forall>v \<in> set (others ?c). address_ok counting_asio (ip_of v) \<and> length (ser_ae codec (heartbeat ?c v)) < 9999"
      unfolding o hb using heartbeat_length by (simp add: counting_asio_def)
  qed
  then have "surely (\<lambda>t. state_m t = primary \<and> term_m t = 1) (trans2P codec counting_asio ?c)"
    by (rule surelyI) (rule okp_mono [OF trans2P_quiet], simp add: candidate1_def)
  moreover have "server_step codec counting_asio vote_event candidate1 = trans2P codec counting_asio ?c"
    using codec_law
    by (simp add: reactToIncomingMsg_def react2resp_rv_def candidate_deal_resp_rv_with_same_term_def yes_vote_def
        candidate1_def node1_facts at0_put_all Let_def)
  ultimately show ?thesis by simp
qed

theorem elected_by_majority_witness:
  "\<exists>t. server_run codec counting_asio candidate1 [(vote_event, candidate1)] t \<and> state_m t = primary \<and>
     majority_m candidate1 - 1 \<le>
       int (length (filter (\<lambda>(ev, _). granted codec (term_m candidate1) ev) [(vote_event, candidate1)]))"
proof -
  obtain t where t: "server_step codec counting_asio vote_event candidate1 = Ok t" "state_m t = primary" "term_m t = 1"
    using vote_event_wins by (auto dest: surelyD)
  have c: "has_room candidate1" "state_m candidate1 = candidate" "winned_votes_m candidate1 \<le> 1" "term_m candidate1 = 1"
    by (simp_all add: candidate1_def node1_facts)
  have r: "server_run codec counting_asio candidate1 [(vote_event, candidate1)] t"
    using run_event [OF run_start c(1) t(1)] by simp
  show ?thesis using r t elected_by_majority [OF r c(2,3) t(2)] c(4) by (intro exI [of _ t]) simp
qed

section \<open>Terms and roles\<close>

text \<open>C30. Within a term a primary stays primary, a follower stays a follower, and a candidate becomes
  primary only on a positive vote reply of the term that completes a majority, and a follower only on an
  AppendEntries of the term. The term never decreases.\<close>

theorem role_changes:
  assumes "server_step P A ev s = Ok t"
  shows "term_m s \<le> term_m t \<and>
    (term_m t = term_m s \<longrightarrow>
       (state_m s = primary \<longrightarrow> state_m t = primary) \<and>
       (state_m s = follower \<longrightarrow> state_m t = follower) \<and>
       (state_m s = candidate \<and> state_m t = primary \<longrightarrow>
          granted P (term_m s) ev \<and> majority_m s \<le> winned_votes_m s + 1) \<and>
       (state_m s = candidate \<and> state_m t = follower \<longrightarrow> ae_of_term P (term_m s) ev))"
  using election_stepD [OF assms] by (cases "state_m t") (auto simp: election_step_def)

theorem role_changes_witness:
  "\<exists>t. server_step codec counting_asio vote_event candidate1 = Ok t \<and> granted codec (term_m candidate1) vote_event \<and>
     majority_m candidate1 \<le> winned_votes_m candidate1 + 1"
proof -
  obtain t where t: "server_step codec counting_asio vote_event candidate1 = Ok t" "state_m t = primary" "term_m t = 1"
    using vote_event_wins by (auto dest: surelyD)
  have "term_m t = term_m candidate1" "state_m candidate1 = candidate" using t by (simp_all add: candidate1_def)
  from role_changes [OF t(1)] this t show ?thesis by blast
qed

text \<open>Along every execution of the server process (handlers, worker threads, sockets, clock) the term
  never decreases.\<close>

theorem term_never_decreases:
  assumes "(raft_step P A)\<^sup>*\<^sup>* s t"
  shows "term_m s \<le> term_m t"
  using assms
proof (induction rule: rtranclp_induct)
  case (step t u)
  from step.hyps(2) have "term_m t \<le> term_m u"
  proof cases
    case start
    have "okp (frame (t\<lparr>network_m := startAccept (network_m t)\<rparr>)) (run A t)"
      unfolding run_def by (rule frame_arm)
    from okpD [OF this start] show ?thesis by (simp add: vote_frame_def)
  next
    case (event ev)
    from election_stepD [OF event(2)] show ?thesis by (simp add: election_step_def)
  next
    case other
    from background_keeps(1) [OF other] show ?thesis by (simp add: vote_frame_def)
  qed
  with step.IH show ?case by simp
qed simp

theorem term_never_decreases_witness:
  "\<exists>t. (raft_step codec counting_asio)\<^sup>*\<^sup>* candidate1 t \<and> state_m t = primary \<and> term_m candidate1 \<le> term_m t"
proof -
  obtain t where t: "server_step codec counting_asio vote_event candidate1 = Ok t" "state_m t = primary"
    using vote_event_wins by (auto dest: surelyD)
  have "raft_step codec counting_asio candidate1 t"
    by (rule event [OF _ t(1)]) (simp add: candidate1_def node1_facts)
  then have "(raft_step codec counting_asio)\<^sup>*\<^sup>* candidate1 t" by simp
  with t(2) term_never_decreases [OF this] show ?thesis by blast
qed

text \<open>Starting an election always completes: \<open>trans2C\<close> raises the term by one, makes the server a
  candidate with its own vote, and sends every other member exactly one vote request with the new term,
  the position of its last log entry and sequence number 0, in the order of the configuration; the log
  and everything about replication stay as they are. None of the timer checks can throw.\<close>

theorem trans2C_spec:
  assumes "raft_inv P m0 s" "asio_law A pend" "\<forall>v \<in> set (others s). address_ok A (ip_of v)"
    and "length (ser_rv P (candidate_rv s)) < 9999"
  shows "\<exists>t. trans2C P A s = Ok t \<and> term_m t = term_m s + 1 \<and> state_m t = candidate \<and> winned_votes_m t = 1 \<and>
     log_frame s t \<and> sent s t (map (\<lambda>v. (v, wire (REQUEST_VOTE, ser_rv P (candidate_rv s)))) (others s))"
proof -
  have c: "conf_inv s" "rpc_inv (network_m s)" "distinct (configuration_m s)"
    using assms(1) by (simp_all add: raft_inv_def conf_inv_def)
  from surelyI [OF trans2C_total [OF c(1) assms(2-4)]
      conjI [OF trans2C_effect [of s P A] trans2C_sends [OF c(2,3), of P A], folded okp_conj]]
  show ?thesis by (blast dest: surelyD)
qed

theorem trans2C_spec_witness:
  "\<exists>t. trans2C codec counting_asio node1 = Ok t \<and> term_m t = 1 \<and> state_m t = candidate"
proof -
  have "length (ser_rv codec (candidate_rv node1)) < 9999"
    using length_enc_int [of 0] length_enc_int [of 1] length_enc_int [of 8001] length_enc_m1
    by (simp add: candidate_rv_def node1_facts codec_def enc_rv_def length_enc_str)
  from trans2C_spec [OF node1_inv counting_asio_law _ this] show ?thesis
    by (auto simp: node1_facts counting_asio_def)
qed

text \<open>Winning always completes: \<open>trans2P\<close> makes the server primary of the same term, expects every
  member to need the entry after its own last one, forgets what it knew the others to have saved, knows
  its own log saved, and sends every other member exactly one empty AppendEntries that names its last
  entry. The timers it has just reset make the \<open>throw_line\<close> of \<open>AE\<close> unreachable here.\<close>

theorem trans2P_spec:
  assumes "raft_inv P m0 s" "asio_law A pend"
    and "\<forall>v \<in> set (others s). address_ok A (ip_of v) \<and> length (ser_ae P (heartbeat s v)) < 9999"
  shows "\<exists>t. trans2P P A s = Ok t \<and> term_m t = term_m s \<and> state_m t = primary \<and>
     entries_m t = entries_m s \<and> commit_index_m t = commit_index_m s \<and>
     (\<forall>v \<in> set (configuration_m s). at0 (nextIndex_m t) v = Entries_size (entries_m s) \<and>
        at0 (Follower_saved_index_m t) v = (if v = server_m s then Entries_size (entries_m s) - 1 else -1)) \<and>
     sent s t (map (\<lambda>v. (v, wire (APPEND_ENTRY, ser_ae P (heartbeat s v)))) (others s))"
proof -
  have c: "conf_inv s" "rpc_inv (network_m s)" "distinct (configuration_m s)" "entries_inv (entries_m s)"
    using assms(1) by (simp_all add: raft_inv_def conf_inv_def log_inv_def)
  have f: "okp (frame (primary_state A s)) (trans2P P A s)"
    unfolding trans2P_eq by (intro frame_for_others frame_AE)
  obtain t where t: "trans2P P A s = Ok t" "frame (primary_state A s) t"
    "sent s t (map (\<lambda>v. (v, wire (APPEND_ENTRY, ser_ae P (heartbeat s v)))) (others s))"
    using surelyD [OF surelyI [OF trans2P_total [OF c(1,4) assms(2,3)]
      conjI [OF f trans2P_sends [OF c(2,3,4), of P A], folded okp_conj]]] by blast
  then show ?thesis
    by (intro exI [of _ t])
      (auto simp: primary_state_def cancel_all_timers_def log_frame_def vote_frame_def at0_put_all)
qed

theorem trans2P_spec_witness:
  "\<exists>t. trans2P codec counting_asio (candidate1\<lparr>winned_votes_m := 2\<rparr>) = Ok t \<and> state_m t = primary"
proof -
  let ?c = "candidate1\<lparr>winned_votes_m := 2\<rparr>"
  have i: "raft_inv codec [] ?c" using candidate1_inv by simp
  have o: "others ?c = [(''10.0.0.2'', 8002), (''10.0.0.3'', 8003)]" by (simp add: candidate1_def node1_facts)
  have "\<forall>v \<in> set (others ?c). address_ok counting_asio (ip_of v) \<and> length (ser_ae codec (heartbeat ?c v)) < 9999"
    unfolding o using heartbeat_length by (simp add: counting_asio_def)
  from trans2P_spec [OF i counting_asio_law this] show ?thesis by blast
qed

text \<open>Falling back to follower completes for every term not below the server's own, with the log
  untouched and nothing sent; for a smaller term it throws after having reset the timers and the votes.\<close>

theorem trans2F_spec:
  assumes "asio_law A pend"
  shows "(term_m s \<le> T \<longrightarrow> (\<exists>t. trans2F A T s = Ok t \<and> term_m t = T \<and> state_m t = follower \<and>
             \<not> already_voted_m t \<and> winned_votes_m t = 0 \<and> log_frame s t \<and> network_m t = network_m s)) \<and>
    (T < term_m s \<longrightarrow> (\<exists>t. trans2F A T s = Throw Term_decreases t \<and> term_m t = term_m s))"
proof (intro conjI impI)
  assume "term_m s \<le> T"
  from surelyI [OF trans2F_total [OF assms this] conjI [OF trans2F_effect [of s T A] trans2F_keeps [of s T A], folded okp_conj]]
  show "\<exists>t. trans2F A T s = Ok t \<and> term_m t = T \<and> state_m t = follower \<and>
      \<not> already_voted_m t \<and> winned_votes_m t = 0 \<and> log_frame s t \<and> network_m t = network_m s"
    by (blast dest: surelyD)
next
  assume "T < term_m s"
  then show "\<exists>t. trans2F A T s = Throw Term_decreases t \<and> term_m t = term_m s"
    by (simp add: trans2F_def update_term_def cancel_all_timers_def)
qed

theorem trans2F_spec_witness:
  "(\<exists>t. trans2F counting_asio 3 node1 = Ok t \<and> term_m t = 3) \<and>
   (\<exists>t. trans2F counting_asio 0 candidate1 = Throw Term_decreases t)"
proof
  show "\<exists>t. trans2F counting_asio 3 node1 = Ok t \<and> term_m t = 3"
    using trans2F_spec [OF counting_asio_law, of node1 3] by (auto simp: node1_facts)
  show "\<exists>t. trans2F counting_asio 0 candidate1 = Throw Term_decreases t"
    using trans2F_spec [OF counting_asio_law, of candidate1 0] by (auto simp: candidate1_def)
qed

end
