(* ===== verification/Raft_Log_Properties.thy ===== *)
theory Raft_Log_Properties
  imports Raft_Server_Properties Raft_Totality
begin

text \<open>
  The properties of log replication at one server: the receiver of an AppendEntries, the primary's reaction to
  the answers, the commit index on both sides, and the clients' commands.
\<close>

section \<open>Lengths for the witnesses\<close>

lemma length_enc_bool: "length (enc_bool b) = 3"
  by (simp add: enc_bool_def show_bool_def length_enc_str)

lemma length_small_int: "-1 \<le> i \<Longrightarrow> i < 10000 \<Longrightarrow> length (enc_int i) \<le> 9"
  using length_enc_int [of i] length_enc_m1 by (cases "i = -1") simp_all

lemma node_reply_length:
  "length (ser_resp_ae codec \<lparr>rae_ok = b, rae_term = 1, rae_lsn = 1, rae_ip = ''10.0.0.1'', rae_port = 8001,
     rae_is_empty_ae = e\<rparr>) < 9999"
  using length_small_int [of 1] length_small_int [of 8001]
  by (simp add: codec_def enc_resp_ae_def length_enc_bool length_enc_str)

section \<open>The receiver of an AppendEntries\<close>

text \<open>C13. The complete behaviour of a server that gets an AppendEntries, whatever its role and whatever the fields
  of the message, as an equation for the outcome of the handler on every branch (\<open>ae_outcome\<close>): either
  the exception with the state at the throw, or the whole new state with the message sent. More than one entry, and an
  equal term at a primary, are exceptions. A message of an older term is refused and changes nothing else. Otherwise the
  server becomes (or stays) a follower of the message's term, ignores a repeated or overtaken message without an answer,
  records the sequence number of any other, throws on a malformed position, refuses if its log has no entry of the named
  term at the named position, and else cuts its log there and appends the entry. The commit index then becomes the smaller
  of the primary's and the last position; if that is smaller than it was, the server throws; if it is larger, exactly the
  entries not handed over before are handed to the state machine (\<open>handed_over\<close>); and one positive answer is sent.\<close>

theorem react2ae_spec:
  assumes "raft_inv P m0 s" "has_room s" "asio_law A pend" "\<not> wr_fails (data_m (entries_m s))"
    and "address_ok A (ae_ip ae)" "reply_fits P ae s"
  shows "ae_outcome P A ae s (react2ae P A ae s)"
  using assms by (rule react2ae_outcome)

text \<open>The witness: server 2, primary of term 1, sends \<open>node1\<close> its first entry, already committed.\<close>

definition first_entry_ae :: AppendEntryRpc where
  "first_entry_ae = \<lparr>ae_term = 1, ae_prelog_term = -1, ae_commit_index = 0, ae_lsn = 1,
     ae_ip = ''10.0.0.2'', ae_port = 8002, ae_entry = [entry0], ae_prelog_index = -1\<rparr>"

lemma node1_device: "\<not> wr_fails (data_m (entries_m node1))"
  by (simp add: node1_facts empty_log_def)

lemma node1_log: "log_of (entries_m node1) = []" "commit_index_m node1 = -1"
  by (simp_all add: node1_facts) (simp add: node1_eq)

theorem react2ae_spec_witness:
  "\<exists>t. react2ae codec counting_asio first_entry_ae node1 = Ok t \<and> log_of (entries_m t) = [entry0] \<and>
     commit_index_m t = 0 \<and> tasks_m (write_pool_m (smc_m t)) = [Apply_task ''a'' 0] \<and>
     sent node1 t [ae_reply codec node1 first_entry_ae True]"
proof -
  let ?w = "recorded (''10.0.0.2'', 8002) 1 (stepped_down counting_asio 1 node1)"
  have "reply_fits codec first_entry_ae node1"
    using node_reply_length by (simp add: reply_fits_def first_entry_ae_def node1_facts)
  then have "ae_outcome codec counting_asio first_entry_ae node1 (react2ae codec counting_asio first_entry_ae node1)"
    by (intro react2ae_spec [OF node1_inv node1_facts(6) counting_asio_law node1_device])
      (simp_all add: counting_asio_def first_entry_ae_def)
  then have "accept_outcome codec first_entry_ae ?w (react2ae codec counting_asio first_entry_ae node1)"
    by (simp add: ae_outcome_def first_entry_ae_def seen_lsn_def log_matches_def node1_facts Let_def)
  then obtain es where es: "log_of es = [entry0]"
      "commit_outcome codec first_entry_ae (?w\<lparr>entries_m := es\<rparr>) (react2ae codec counting_asio first_entry_ae node1)"
    by (auto simp: accept_outcome_def first_entry_ae_def entry0_def recorded_def node1_log)
  have f: "smc_m node1 = fresh_smc" "applied_index_m fresh_smc = -1" "tasks_m (write_pool_m fresh_smc) = []"
    by (simp add: node1_eq) (simp_all add: fresh_smc_def SMC_ctor_def ThreadPool_ctor_def)
  have r: "ae_reply codec (?w\<lparr>entries_m := es\<rparr>) first_entry_ae True = ae_reply codec node1 first_entry_ae True"
    by (simp add: ae_reply_def recorded_def first_entry_ae_def node1_facts)
  from es(2) show ?thesis
    using es(1) f r
    by (auto simp: commit_outcome_def first_entry_ae_def recorded_def node1_log sends_only_def sent_net
        handed_over_def apply_tasks_def entry0_def)
qed

text \<open>C24. If an accepted entry would leave the server with a smaller commit index than it has, the
  server throws, and it does so after the entry has been written: its log is then already the cut one.\<close>

theorem react2ae_commit_decreases:
  assumes "raft_inv P m0 s" "has_room s" "asio_law A pend" "\<not> wr_fails (data_m (entries_m s))"
    and "ae_wf ae" "ae_entry ae \<noteq> []" "state_m s \<noteq> primary" "term_m s \<le> ae_term ae"
    and "seen_lsn s (ae_term ae) (ae_ip ae, ae_port ae) < ae_lsn ae"
    and "log_matches ae (log_of (entries_m s))"
    and "min (ae_commit_index ae) (ae_prelog_index ae + 1) < commit_index_m s"
  shows "\<exists>t. react2ae P A ae s = Throw Commit_decreases t \<and>
     log_of (entries_m t) = take (nat (ae_prelog_index ae + 1)) (log_of (entries_m s)) @ ae_entry ae"
proof -
  let ?i = "ae_prelog_index ae + 1"
  obtain e where e: "ae_entry ae = [e]" "en_index e = ?i"
    using assms(5,6) by (cases "ae_entry ae") (auto simp: ae_wf_def)
  obtain fin where c: "entries_inv (entries_m s)" "smc_inv P m0 fin (smc_m s)"
    using assms(1) by (auto simp: raft_inv_def log_inv_def)
  have i: "0 \<le> ?i" "?i \<le> Entries_size (entries_m s)"
    using assms(10) entries.size_log [OF c(1)] by (auto simp: log_matches_def)
  obtain u where u: "react2ae P A ae s = accept_ae P A ae u" "entries_m u = entries_m s" "smc_m u = smc_m s"
      "commit_index_m u = commit_index_m s"
    using react2ae_accepts [OF c(1) assms(3,5,7-10)] by blast
  then show ?thesis
    using accept_ae_decreases [of u P m0 fin ae e P A] c assms(2,4,11) i e by simp
qed

text \<open>The witness: a follower of term 1 that has committed both entries of its log, and the first entry sent
  again by a primary that counts only itself.\<close>

definition follower1 :: "(handler list \<times> bool) RaftServer" where
  "follower1 = node1\<lparr>term_m := 1, entries_m := log2, commit_index_m := 1\<rparr>"

lemma log2_indexed: "k < 2 \<Longrightarrow> en_index ([entry0, entry1] ! k) = int k"
  by (cases k) (simp_all add: entry0_def entry1_def)

lemma fresh_smc_inv: "smc_inv codec [] [] fresh_smc"
  by (rule smc_inv_ctor [of _ 2 1]) (simp add: fresh_smc_def SMC_ctor_def)

lemma follower1_inv: "raft_inv codec [] follower1"
  using node1_inv fresh_smc_inv log2_indexed
  by (auto simp: raft_inv_def conf_inv_def log_inv_def book_inv_def follower1_def node1_eq)

theorem react2ae_commit_decreases_witness:
  "\<exists>t. react2ae codec counting_asio first_entry_ae follower1 = Throw Commit_decreases t \<and>
     log_of (entries_m t) = [entry0]"
proof -
  have f: "has_room follower1" "\<not> wr_fails (data_m (entries_m follower1))" "state_m follower1 \<noteq> primary"
    "term_m follower1 = 1" "commit_index_m follower1 = 1" "log_of (entries_m follower1) = [entry0, entry1]"
    by (simp_all add: follower1_def node1_facts) (simp add: log2_def empty_log_def)
  have a: "ae_wf first_entry_ae" "ae_entry first_entry_ae = [entry0]" "ae_term first_entry_ae = 1"
    "ae_commit_index first_entry_ae = 0" "ae_prelog_index first_entry_ae = -1"
    "log_matches first_entry_ae l" for l
    by (simp_all add: ae_wf_def first_entry_ae_def entry0_def log_matches_def)
  have "seen_lsn follower1 1 (''10.0.0.2'', 8002) = -1"
    by (simp add: seen_lsn_def follower1_def node1_eq at0_put_all)
  then have l: "seen_lsn follower1 (ae_term first_entry_ae) (ae_ip first_entry_ae, ae_port first_entry_ae) < ae_lsn first_entry_ae"
    by (simp add: first_entry_ae_def)
  from react2ae_commit_decreases [OF follower1_inv f(1) counting_asio_law f(2) a(1) _ f(3) _ l a(6)] f a
  show ?thesis by simp
qed

section \<open>Commit index of a follower\<close>

text \<open>C25. A follower never moves its commit index back: with \<open>k\<close> the smaller of the primary's commit
  index and the last position of its log, it keeps its commit index if \<open>k\<close> is the same, throws if \<open>k\<close> is smaller, and
  otherwise commits up to \<open>k\<close>, handing exactly the entries not handed over before to the state machine, in
  the order of the log.\<close>

theorem follower_commit_spec:
  assumes "raft_inv P m0 s" "k = min n (Entries_size (entries_m s) - 1)"
  shows "follower_update_commit_index n s =
    (if k < commit_index_m s then Throw Commit_decreases (s\<lparr>commit_index_m := k\<rparr>)
     else if k = commit_index_m s then Ok s
     else Ok (s\<lparr>commit_index_m := k, smc_m := handed_over k (entries_m s) (smc_m s)\<rparr>))"
proof -
  obtain fin where "entries_inv (entries_m s)" "smc_inv P m0 fin (smc_m s)"
    using assms(1) by (auto simp: raft_inv_def log_inv_def)
  from follower_update_eq [OF this assms(2)] show ?thesis .
qed

theorem follower_commit_spec_witness:
  "\<exists>t. follower_update_commit_index 9 primary1 = Ok t \<and> commit_index_m t = 1 \<and>
     tasks_m (write_pool_m (smc_m t)) = [Apply_task ''a'' 0, Apply_task ''b'' 1]"
proof -
  have c: "commit_index_m primary1 = -1" "smc_m primary1 = fresh_smc" "entries_m primary1 = log2"
    by (simp_all add: primary1_def node1_eq)
  have f: "applied_index_m fresh_smc = -1" "tasks_m (write_pool_m fresh_smc) = []"
    by (simp_all add: fresh_smc_def SMC_ctor_def ThreadPool_ctor_def)
  have u: "[0..1] = [0, 1 :: int]" by (simp add: upto.simps)
  from follower_commit_spec [OF primary1_inv(1) refl, of 9] show ?thesis
    by (simp add: c f handed_over_def apply_tasks_def u entry0_def entry1_def)
qed

section \<open>The primary's reaction to an answer\<close>

text \<open>C14. The complete behaviour of a server of a cluster of at least three that gets an answer to an AppendEntries
  from a member, as an equation for the outcome of the handler on every branch (\<open>ack_outcome\<close>). An answer of a newer
  term makes the server a follower of that term; one of an older term changes nothing; one of the server's term is an
  exception unless it is primary. A primary ignores an answer that is not to its last message to that member. On a
  positive one it moves \<open>nextIndex_\<close> past an entry that was sent, records what the member has saved, sets the commit
  index to the largest position saved by a majority (\<open>quorum_commit\<close>), hands exactly the entries up to it that were not
  handed over before to the state machine (\<open>handed_over\<close>), and sends the next AppendEntries at once if there is something
  to send, setting its retry timer. On a negative one it moves \<open>nextIndex_\<close> back by one and sends again, or throws if it
  was 0. No other member of the state changes: role, term, log and what is noted of the other members stay.\<close>

theorem react2resp_ae_spec:
  assumes "raft_inv P m0 s" "(rae_ip r, rae_port r) \<in> set (configuration_m s)" "3 \<le> length (configuration_m s)"
    and "asio_law A pend" "ae_fits P A s (rae_ip r, rae_port r)"
  shows "ack_outcome P A r s (react2resp_ae P A r s)"
  using assms by (rule react2resp_ae_outcome)

text \<open>The witness: server 2 acknowledges the second entry of \<open>primary1\<close>.\<close>

lemma member_ae_length:
  assumes "0 \<le> n" "n \<le> 2" "-1 \<le> c" "c < 2" "v \<in> set cfg3"
  shows "length (ser_ae codec (ae_at primary1 v n c)) < 9999"
proof -
  have t: "en_term ([entry0, entry1] ! nat (n - 1)) = 1" if "n \<noteq> 0"
    using that assms(1,2) by (cases "n = 1") (auto simp: entry0_def entry1_def)
  have e: "length (enc_list enc_entry (if n < 2 then [[entry0, entry1] ! nat n] else [])) \<le> 40"
    using assms(1,2) length_small_int [of 0] length_small_int [of 1]
    by (cases "n = 0"; cases "n = 1") (auto simp: enc_list_def enc_entry_def entry0_def entry1_def length_enc_str)
  have l: "at0 (current_rpc_lsn_m primary1) v = 1" using assms(5) by (auto simp: primary1_def at0_put_all)
  show ?thesis
    using e t assms(1-4) length_small_int [of "n - 1"] length_small_int [of c] length_small_int [of 1]
      length_small_int [of "-1"] length_small_int [of 8001] l
    by (auto simp: ae_at_def codec_def enc_ae_def length_enc_str primary1_def node1_facts)
qed

definition ack1 :: Resp_AppendEntryRpc where
  "ack1 = \<lparr>rae_ok = True, rae_term = 1, rae_lsn = 0, rae_ip = ''10.0.0.2'', rae_port = 8002, rae_is_empty_ae = False\<rparr>"

lemma primary1_facts:
  "configuration_m primary1 = cfg3" "term_m primary1 = 1" "entries_m primary1 = log2"
  "at0 (nextIndex_m primary1) (''10.0.0.2'', 8002) = 1"
  "at0 (current_rpc_lsn_m primary1) (''10.0.0.2'', 8002) = 1" "commit_index_m primary1 = -1"
  by (simp_all add: primary1_def node1_facts at0_put_all) (simp add: node1_eq)

lemma ack1_facts: "(rae_ip ack1, rae_port ack1) = (''10.0.0.2'', 8002)" "rae_ok ack1" "rae_term ack1 = 1"
  "rae_lsn ack1 = 0" "\<not> rae_is_empty_ae ack1"
  by (simp_all add: ack1_def)

lemma primary1_fits: "v \<in> set cfg3 \<Longrightarrow> ae_fits codec counting_asio primary1 v"
  using member_ae_length by (auto simp: ae_fits_def counting_asio_def primary1_facts)

lemma ack1_commit:
  assumes "quorum_commit (acknowledged (''10.0.0.2'', 8002) 2 k primary1)"
  shows "k = 1"
proof -
  let ?x = "acknowledged (''10.0.0.2'', 8002) 2 k primary1"
  have c: "majority_m ?x = 2" "commit_index_m ?x = k" "configuration_m ?x = cfg3"
    by (simp_all add: acknowledged_def primary1_facts) (simp add: primary1_def node1_facts)
  have at: "at0 (Follower_saved_index_m ?x) (''10.0.0.1'', 8001) = 1" "at0 (Follower_saved_index_m ?x) (''10.0.0.2'', 8002) = 1"
    "at0 (Follower_saved_index_m ?x) (''10.0.0.3'', 8003) = -1"
    by (simp_all add: acknowledged_def primary1_def at0_put_all)
  have "\<not> 1 < k"
  proof
    assume "1 < k"
    then have "savers ?x k = {}" using c(3) at by (auto simp: savers_def)
    then show False using assms c by (simp add: quorum_commit_def)
  qed
  moreover have "\<not> k < 1"
  proof
    assume "k < 1"
    then have "card (savers ?x 1) < 2" using assms c by (simp add: quorum_commit_def)
    moreover have "savers ?x 1 = {(''10.0.0.1'', 8001), (''10.0.0.2'', 8002)}" using c(3) at by (auto simp: savers_def)
    ultimately show False by simp
  qed
  ultimately show ?thesis by simp
qed

theorem react2resp_ae_spec_witness:
  "\<exists>t. react2resp_ae codec counting_asio ack1 primary1 = Ok t \<and> at0 (nextIndex_m t) (''10.0.0.2'', 8002) = 2 \<and>
     at0 (Follower_saved_index_m t) (''10.0.0.2'', 8002) = 1 \<and> commit_index_m t = 1 \<and>
     tasks_m (write_pool_m (smc_m t)) = [Apply_task ''a'' 0, Apply_task ''b'' 1] \<and>
     calls (network_m primary1) (network_m t) = [((''10.0.0.2'', 8002), wire (APPEND_ENTRY, ser_ae codec
       \<lparr>ae_term = 1, ae_prelog_term = 1, ae_commit_index = 1, ae_lsn = 1, ae_ip = ''10.0.0.1'', ae_port = 8001,
        ae_entry = [], ae_prelog_index = 1\<rparr>))]"
proof -
  let ?v = "(''10.0.0.2'', 8002)"
  have "ae_fits codec counting_asio primary1 (rae_ip ack1, rae_port ack1)"
    unfolding ack1_facts by (rule primary1_fits) simp
  then have "ack_outcome codec counting_asio ack1 primary1 (react2resp_ae codec counting_asio ack1 primary1)"
    by (intro react2resp_ae_spec [OF primary1_inv(1) _ _ counting_asio_law]) (simp_all add: ack1_facts primary1_facts)
  then obtain k where k: "quorum_commit (acknowledged ?v 2 k primary1)"
      "ae_sent codec counting_asio (\<lambda>x. snd (expires_at_min counting_asio x)) ?v (acknowledged ?v 2 k primary1)
        (react2resp_ae codec counting_asio ack1 primary1)"
    using primary1_inv(2) by (auto simp: ack_outcome_def Let_def ack1_facts primary1_facts)
  have f: "applied_index_m (smc_m primary1) = -1" "tasks_m (write_pool_m (smc_m primary1)) = []" "[0..1] = [0, 1 :: int]"
    by (simp_all add: primary1_def node1_eq fresh_smc_def SMC_ctor_def ThreadPool_ctor_def upto.simps)
  have a: "ip_m primary1 = ''10.0.0.1''" "port_m primary1 = 8001" "en_term entry1 = 1"
    by (simp_all add: primary1_def node1_facts entry1_def)
  show ?thesis
    using k(2) unfolding ack1_commit [OF k(1)]
    by (auto simp: ae_sent_def acknowledged_def net_sent_def ae_at_def handed_over_def apply_tasks_def f a primary1_facts
        entry0_def) (simp_all add: entry1_def)
qed

section \<open>Commit index of a primary\<close>

text \<open>C18. Updating the commit index on an answer finds the largest position that a majority has saved, and any
  majority of the cluster, in particular the voters of a later primary, has a member that has saved it.\<close>

theorem commit_reaches_every_majority:
  assumes "raft_inv P m0 s" "primary_update_commit_index v i s = Ok t"
    and "Q \<subseteq> set (configuration_m t)" "majority_m t \<le> int (card Q)"
  shows "v \<in> set (configuration_m s) \<and> at0 (Follower_saved_index_m t) v = i \<and>
     (\<exists>w \<in> Q. commit_index_m t \<le> at0 (Follower_saved_index_m t) w) \<and>
     (\<forall>c > commit_index_m t. int (card (savers t c)) < majority_m t)"
proof -
  have c: "conf_inv s" using assms(1) by (simp add: raft_inv_def)
  from okpD [OF primary_update_effect [OF c] assms(2)]
  have q: "quorum_commit t" "v \<in> set (configuration_m s)" "at0 (Follower_saved_index_m t) v = i"
    and e: "configuration_m t = configuration_m s" "majority_m t = majority_m s" by auto
  have "conf_inv (s\<lparr>Follower_saved_index_m := Follower_saved_index_m s\<rparr>)" using c by simp
  have sub: "savers t (commit_index_m t) \<subseteq> set (configuration_m s)" by (auto simp: savers_def e)
  have "savers t (commit_index_m t) \<inter> Q \<noteq> {}"
    using q(1) assms(3,4) e sub by (intro majorities_meet [OF c]) (simp_all add: quorum_commit_def)
  then obtain w where "w \<in> Q" "w \<in> savers t (commit_index_m t)" by blast
  with q show ?thesis by (auto simp: savers_def quorum_commit_def)
qed

theorem commit_reaches_every_majority_witness:
  "\<exists>t. primary_update_commit_index (''10.0.0.2'', 8002) 1 primary1 = Ok t \<and>
     (\<exists>w \<in> {(''10.0.0.2'', 8002), (''10.0.0.3'', 8003)}. commit_index_m t \<le> at0 (Follower_saved_index_m t) w)"
proof -
  have "surely (\<lambda>t. True) (primary_update_commit_index (''10.0.0.2'', 8002) 1 primary1)"
    by (rule primary_update_total [OF primary1_inv]) (simp_all add: primary1_facts)
  then obtain t where t: "primary_update_commit_index (''10.0.0.2'', 8002) 1 primary1 = Ok t" by (auto dest: surelyD)
  have c: "conf_inv primary1" using primary1_inv by (simp add: raft_inv_def)
  from okpD [OF primary_update_effect [OF c] t] have e: "configuration_m t = cfg3" "majority_m t = 2"
    using node1_facts by (auto simp: primary1_def)
  from commit_reaches_every_majority [OF primary1_inv(1) t, of "{(''10.0.0.2'', 8002), (''10.0.0.3'', 8003)}"] t
  show ?thesis by (auto simp: e)
qed

text \<open>The update itself, when server 2 has saved one entry and server 3 nothing.\<close>

lemma second_of_three:
  assumes "Follower_saved_index_m s = Follower_saved_index_m primary1" "configuration_m s = cfg3" "majority_m s = 2"
  shows "okp (\<lambda>t. commit_index_m t = 0) (primary_update_commit_index (''10.0.0.2'', 8002) 0 s)"
proof -
  have f: "put (''10.0.0.2'', 8002) 0 (Follower_saved_index_m s) =
      [((''10.0.0.1'', 8001), 1), ((''10.0.0.2'', 8002), 0), ((''10.0.0.3'', 8003), -1)]"
    unfolding assms(1) by (simp add: primary1_def put_all_def put_def)
  have "okp (\<lambda>t. commit_index_m t = 0) (apply_to_state_machine n
      (s\<lparr>Follower_saved_index_m := f, commit_index_m := 0\<rparr>))" for n f
    by (rule okp_mono [OF apply_frame]) auto
  then show ?thesis
    using assms(2,3) by (simp add: primary_update_commit_index_def f temp_sort_def Let_def)
qed

lemma resend_keeps_commit:
  "okp (\<lambda>t. commit_index_m t = commit_index_m s) (case map_of (retry_timers_m s) v of None \<Rightarrow> Throw Null_deref s
     | Some x \<Rightarrow> AE P A v (s\<lparr>retry_timers_m := put v (g x) (retry_timers_m s)\<rparr>))"
proof (cases "map_of (retry_timers_m s) v")
  case (Some x)
  have "okp (\<lambda>t. commit_index_m t = commit_index_m s) (AE P A v (s\<lparr>retry_timers_m := put v (g x) (retry_timers_m s)\<rparr>))"
    by (rule okp_mono [OF frame_AE]) (simp add: log_frame_def)
  with Some show ?thesis by simp
qed simp

text \<open>C22. The commit index of a primary can move back: a primary that has committed both entries of its log and
  is just bringing a new member up to date takes the member's first acknowledgement as the largest
  position saved by a majority, because it has forgotten what the others had saved when it was elected.\<close>

definition primary2 :: "(handler list \<times> bool) RaftServer" where
  "primary2 = primary1\<lparr>commit_index_m := 1, nextIndex_m := put (''10.0.0.2'', 8002) 0 (nextIndex_m primary1)\<rparr>"

lemma primary2_inv: "raft_inv codec [] primary2" "state_m primary2 = primary"
proof -
  have "0 \<le> at0 (nextIndex_m primary1) v" for v
    using primary1_inv(1) unfolding raft_inv_def book_inv_def by blast
  then show "raft_inv codec [] primary2"
    using primary1_inv
    by (auto simp: raft_inv_def conf_inv_def log_inv_def book_inv_def primary2_def primary1_facts)
qed (simp add: primary2_def primary1_def)

theorem primary_commit_moves_back:
  "\<exists>t. react2resp_ae codec counting_asio ack1 primary2 = Ok t \<and> raft_inv codec [] t \<and>
     state_m primary2 = primary \<and> commit_index_m primary2 = 1 \<and> commit_index_m t = 0"
proof -
  have p: "state_m primary2 = primary" "rae_term ack1 = term_m primary2" "configuration_m primary2 = cfg3"
    "at0 (nextIndex_m primary2) (''10.0.0.2'', 8002) = 0" "at0 (current_rpc_lsn_m primary2) (''10.0.0.2'', 8002) = 1"
    "entries_m primary2 = log2" "majority_m primary2 = 2"
    by (simp_all add: primary2_def primary1_facts ack1_facts) (simp_all add: primary1_def node1_facts)
  have "ae_at primary2 v n c = ae_at primary1 v n c" for v n c by (simp add: ae_at_def primary2_def)
  then have fits: "ae_fits codec counting_asio primary2 (''10.0.0.2'', 8002)"
    using primary1_fits [of "(''10.0.0.2'', 8002)"] by (simp add: ae_fits_def primary2_def)
  have eq: "react2resp_ae codec counting_asio ack1 primary2 =
      primary_deal_resp_ae_with_same_term codec counting_asio (''10.0.0.2'', 8002) ack1 primary2"
    using p ack1_facts by (simp add: react2resp_ae_def Let_def)
  have "surely (\<lambda>t. ack_effect codec (''10.0.0.2'', 8002) ack1 primary2 t \<and> raft_inv codec [] t)
      (react2resp_ae codec counting_asio ack1 primary2)"
    unfolding eq
  proof (rule surelyI [OF primary_deal_total [OF primary2_inv _ _ counting_asio_law fits]])
    show "okp (\<lambda>t. ack_effect codec (''10.0.0.2'', 8002) ack1 primary2 t \<and> raft_inv codec [] t)
        (primary_deal_resp_ae_with_same_term codec counting_asio (''10.0.0.2'', 8002) ack1 primary2)"
      using primary_deal_effect [OF primary2_inv] primary_deal_inv [OF primary2_inv] by (simp add: okp_conj)
  qed (simp_all add: p ack1_facts)
  then obtain t where t: "react2resp_ae codec counting_asio ack1 primary2 = Ok t"
      "ack_effect codec (''10.0.0.2'', 8002) ack1 primary2 t" "raft_inv codec [] t" by (auto dest: surelyD)
  have "okp (\<lambda>t. commit_index_m t = 0) (seq (primary_update_commit_index (''10.0.0.2'', 8002) 0 y)
      (\<lambda>s. case map_of (retry_timers_m s) (''10.0.0.2'', 8002) of None \<Rightarrow> Throw Null_deref s
         | Some x \<Rightarrow> AE codec counting_asio (''10.0.0.2'', 8002)
             (s\<lparr>retry_timers_m := put (''10.0.0.2'', 8002) (snd (expires_at_min counting_asio (get_core x))) (retry_timers_m s)\<rparr>)))"
    if "Follower_saved_index_m y = Follower_saved_index_m primary1" "configuration_m y = cfg3" "majority_m y = 2" for y
    unfolding okp_seq get_core_def
    by (rule okp_mono [OF second_of_three [OF that]]) (rule okp_mono [OF resend_keeps_commit], simp)
  then have "okp (\<lambda>t. commit_index_m t = 0) (react2resp_ae codec counting_asio ack1 primary2)"
    unfolding eq primary_deal_resp_ae_with_same_term_def using p ack1_facts
    by (simp add: Let_def primary2_def)
  then have "commit_index_m t = 0" using t(1) by simp
  with t p show ?thesis by (simp add: primary2_def)
qed

section \<open>What a primary sends\<close>

text \<open>C26. The AppendEntries of a primary never reads outside its log: for a member of the cluster it names the
  position before \<open>nextIndex_\<close> and the term of the entry there (-1 and -1 at the start of the log), carries
  the entry at \<open>nextIndex_\<close> if there is one, the commit index, and a sequence number that the next message to
  that member will not have again. So the receiver finds it well-formed.\<close>

theorem primary_message:
  assumes "raft_inv P m0 s" "state_m s = primary" "v \<in> set (configuration_m s)"
  shows "fst (build_rpc_ae v s) = Inr (ae_at s v (at0 (nextIndex_m s) v) (commit_index_m s)) \<and>
     ae_wf (ae_at s v (at0 (nextIndex_m s) v) (commit_index_m s)) \<and>
     at0 (current_rpc_lsn_m (snd (build_rpc_ae v s))) v = at0 (current_rpc_lsn_m s) v + 1"
proof -
  let ?n = "at0 (nextIndex_m s) v" and ?log = "log_of (entries_m s)"
  have inv: "entries_inv (entries_m s)" "\<forall>k < length ?log. en_index (?log ! k) = int k"
    using assms(1) by (simp_all add: raft_inv_def log_inv_def)
  have n: "0 \<le> ?n" "?n \<le> Entries_size (entries_m s)"
    using assms unfolding raft_inv_def book_inv_def by blast+
  have "en_index (?log ! nat ?n) = ?n" if "?n < Entries_size (entries_m s)"
    using that n inv(2) entries.size_log [OF inv(1)] by simp
  then have "ae_wf (ae_at s v ?n (commit_index_m s))" using n by (simp add: ae_wf_def ae_at_def)
  moreover have "fst (build_rpc_ae v s) = Inr (ae_at s v ?n (commit_index_m s))"
    by (subst build_rpc_ae_spec [OF inv(1) refl n]) (simp add: ae_at_def)
  ultimately show ?thesis by (simp add: build_rpc_ae_def Let_def)
qed

theorem primary_message_witness:
  "fst (build_rpc_ae (''10.0.0.2'', 8002) primary1) = Inr \<lparr>ae_term = 1, ae_prelog_term = 1, ae_commit_index = -1,
     ae_lsn = 1, ae_ip = ''10.0.0.1'', ae_port = 8001, ae_entry = [entry1], ae_prelog_index = 0\<rparr>"
proof -
  have a: "ip_m primary1 = ''10.0.0.1''" "port_m primary1 = 8001" by (simp_all add: primary1_def node1_facts)
  have e: "en_term entry0 = 1" by (simp add: entry0_def)
  from primary_message [OF primary1_inv, of "(''10.0.0.2'', 8002)"] show ?thesis
    by (simp add: primary1_facts ae_at_def a e)
qed

section \<open>Clients\<close>

text \<open>C27. A client's command becomes the last entry of the log, with the current term and its position, and the
  server remembers where to send the answer and that it has the entry saved itself. This holds in
  every role: the handler does not look at \<open>state_\<close>, so a follower takes commands too.\<close>

theorem client_command_appended:
  assumes "raft_inv P m0 s" "has_room s" "\<not> wr_fails (data_m (entries_m s))"
  shows "\<exists>t es. server_step P A (Incoming CLIENT_APPLY str c) s = Ok t \<and> raft_inv P m0 t \<and>
     log_of es = log_of (entries_m s) @ [\<lparr>en_term = term_m s, en_index = Entries_size (entries_m s), en_msg = str\<rparr>] \<and>
     t = s\<lparr>entries_m := es,
           entryIndex_to_socketAddr_map_m := put (Entries_size (entries_m s)) c (entryIndex_to_socketAddr_map_m s),
           Follower_saved_index_m := put (server_m s) (Entries_size (entries_m s)) (Follower_saved_index_m s)\<rparr>"
proof -
  have e: "entries_inv (entries_m s)" using assms(1) by (simp add: raft_inv_def log_inv_def)
  have eq: "server_step P A (Incoming CLIENT_APPLY str c) s = append_client_apply_to_entries P c str s"
    by (simp add: reactToIncomingMsg_def)
  from surelyD [OF append_client_total [OF e assms(2,3), of str c P]]
    append_client_inv [OF assms(1,2), of c str]
  show ?thesis unfolding eq by auto
qed

theorem client_command_appended_witness:
  "state_m node1 = follower \<and>
   (\<exists>t. server_step codec counting_asio (Incoming CLIENT_APPLY ''x=1'' (''127.0.0.1'', 50000)) node1 = Ok t \<and>
      log_of (entries_m t) = [\<lparr>en_term = 0, en_index = 0, en_msg = ''x=1''\<rparr>])"
proof -
  from client_command_appended [OF node1_inv node1_facts(6) node1_device, of counting_asio "''x=1''" "(''127.0.0.1'', 50000)"]
  show ?thesis by (auto simp: node1_log node1_facts)
qed

end
