(* ===== verification/Raft_CatchUp.thy ===== *)
theory Raft_CatchUp
  imports Raft_Log_Properties
begin

text \<open>
  A primary and one member, alone on their connection: the member handles the AppendEntries in flight
  and answers, the primary handles the answer and sends the next one, until it has nothing to send.
  Every message travels as bytes through the reading side of the other server. From a state in which
  the logs match, this ends after at most twice as many exchanges as the primary has entries, and
  then the member's log begins with the primary's.
\<close>

section \<open>One exchange\<close>

text \<open>The bytes \<open>b\<close> arrive at a server in one piece and hold one message, which it handles.\<close>

definition handles :: "pb \<Rightarrow> 't asio \<Rightarrow> string \<Rightarrow> string \<Rightarrow> 't RaftServer \<Rightarrow> 't RaftServer \<Rightarrow> bool" where
  "handles P A junk b s t \<longleftrightarrow> has_room s \<and>
     (\<exists>conn ty m. recv_stream P junk conn b = ([(ty, m, remote_peer_m conn)], Inr []) \<and>
        server_step P A (Incoming ty m (remote_peer_m conn)) s = Ok t)"

lemma recv_wire:
  assumes "wire_fits m" "clean junk"
  shows "recv_stream P junk conn (wire m) = ([(fst m, snd m, remote_peer_m conn)], Inr [])"
  using tcp.stream_all [of "[m]" junk P conn "[]"] assms by (simp add: recv_one_def)

lemma handles_ae:
  assumes "pb_law P" "wire_fits (APPEND_ENTRY, ser_ae P ae)" "clean junk"
  shows "handles P A junk (wire (APPEND_ENTRY, ser_ae P ae)) s t \<longleftrightarrow> has_room s \<and> react2ae P A ae s = Ok t"
  using recv_wire [OF assms(2,3)] assms(1) by (simp add: handles_def reactToIncomingMsg_def)

lemma handles_resp_ae:
  assumes "pb_law P" "wire_fits (RESP_APPEND, ser_resp_ae P r)" "clean junk"
  shows "handles P A junk (wire (RESP_APPEND, ser_resp_ae P r)) s t \<longleftrightarrow> has_room s \<and> react2resp_ae P A r s = Ok t"
  using recv_wire [OF assms(2,3)] assms(1) by (simp add: handles_def reactToIncomingMsg_def)

abbreviation addr_of :: "'t RaftServer \<Rightarrow> endpoint" where
  "addr_of s \<equiv> (ip_m s, port_m s)"

text \<open>The primary, the member, and the bytes on their way to the member.\<close>

type_synonym 't link = "'t RaftServer \<times> 't RaftServer \<times> string"

inductive exchange :: "pb \<Rightarrow> 't asio \<Rightarrow> string \<Rightarrow> 't link \<Rightarrow> 't link \<Rightarrow> bool" for P A junk where
  exchange: "handles P A junk b f f' \<Longrightarrow> sent f f' [(addr_of s, r)] \<Longrightarrow>
    handles P A junk r s s' \<Longrightarrow> sent s s' [(addr_of f, b')] \<Longrightarrow>
    exchange P A junk (s, f, b) (s', f', b')"

text \<open>The last answer: the primary sends nothing more.\<close>

inductive last_exchange :: "pb \<Rightarrow> 't asio \<Rightarrow> string \<Rightarrow> 't link \<Rightarrow> 't RaftServer \<Rightarrow> 't RaftServer \<Rightarrow> bool" for P A junk where
  last_exchange: "handles P A junk b f f' \<Longrightarrow> sent f f' [(addr_of s, r)] \<Longrightarrow>
    handles P A junk r s s' \<Longrightarrow> sent s s' [] \<Longrightarrow>
    last_exchange P A junk (s, f, b) s' f'"

inductive_cases exchangeE: "exchange P A junk (s, f, b) x"
inductive_cases last_exchangeE: "last_exchange P A junk (s, f, b) s' f'"

text \<open>The message the primary has last sent to a member.\<close>

definition in_flight :: "'t RaftServer \<Rightarrow> endpoint \<Rightarrow> AppendEntryRpc" where
  "in_flight s v = (ae_at s v (at0 (nextIndex_m s) v) (commit_index_m s))\<lparr>ae_lsn := at0 (current_rpc_lsn_m s) v - 1\<rparr>"

lemma sends_in_flight:
  assumes "sends_ae P v (at0 (nextIndex_m t) v) (commit_index_m t) s t" "entries_m t = entries_m s"
    "term_m t = term_m s" "addr_of t = addr_of s"
  shows "sent s t [(v, wire (APPEND_ENTRY, ser_ae P (in_flight t v)))]"
proof -
  have "in_flight t v = ae_at s v (at0 (nextIndex_m t) v) (commit_index_m t)"
    using assms by (simp add: sends_ae_def in_flight_def ae_at_def)
  then show ?thesis using assms(1) by (simp add: sends_ae_def)
qed

section \<open>Frames of the two handlers\<close>

text \<open>The member's device keeps working.\<close>

definition device_ok :: "'t RaftServer \<Rightarrow> bool" where
  "device_ok s \<longleftrightarrow> \<not> wr_fails (data_m (entries_m s))"

lemma device_log: "device_ok s \<Longrightarrow> okp (\<lambda>t. entries_m t = entries_m s) m \<Longrightarrow> okp device_ok m"
  by (erule okp_mono) (simp add: device_ok_def)

lemma device_frame: "device_ok s \<Longrightarrow> okp (frame s) m \<Longrightarrow> okp device_ok m"
  by (rule device_log) (auto simp: log_frame_def elim: okp_mono)

lemma insert_device: "okp device_ok (insert_entry P i e s)"
proof -
  have w: "okp (\<lambda>es. \<not> wr_fails (data_m es)) (insert_in_memory j x es)" if "\<not> wr_fails (data_m es)" for j x es
    using that by (simp add: insert_in_memory_def Let_def)
  have m: "okp (\<lambda>es. \<not> wr_fails (data_m es)) (modify_offset_vector_after_insert j x es)"
    if "\<not> wr_fails (data_m es)" for j x es
    using that by (simp add: modify_offset_vector_after_insert_def Let_def)
  have r: "okp (\<lambda>es. \<not> wr_fails (data_m es))
      (seq (modify_offset_vector_after_insert j x es) (\<lambda>es. insert_in_memory k y (write_offset_to_file P es)))"
    if "\<not> wr_fails (data_m es)" for j k x y es
    unfolding okp_seq by (rule okp_mono [OF m [OF that]]) (simp add: w write_offset_to_file_def)
  show ?thesis
    unfolding insert_entry_def Entries_insert_def okp_map_outcome okp_if okp_with_res okp_seq Let_def
    by (auto simp: device_ok_def intro!: okp_mono [OF write_from_offset_wr_fails] r [unfolded okp_seq])
qed

lemma tail_device:
  assumes "device_ok s"
  shows "okp device_ok (seq (follower_update_commit_index c s) (make_resp_ae P A b v l e))"
  unfolding okp_seq
proof (rule okp_mono [OF device_log [OF assms]])
  show "okp (\<lambda>t. entries_m t = entries_m s) (follower_update_commit_index c s)"
    by (rule okp_mono [OF follower_update_effect]) auto
qed (auto intro: device_frame frame_make_resp_ae)

lemma accept_device: "device_ok s \<Longrightarrow> okp device_ok (accept_ae P A ae s)"
  unfolding accept_ae_def Let_def
  by (auto simp: okp_if okp_seq tail_device [unfolded okp_seq] intro!: okp_mono [OF insert_device] split: list.splits)

lemma body_device:
  assumes "device_ok s"
  shows "okp device_ok (ae_body P A ae s)"
proof -
  have "frame s (snd (should_ignore_remote_rpc (ae_ip ae, ae_port ae) (ae_lsn ae) s))" by (rule frame_should_ignore)
  then have "device_ok (snd (should_ignore_remote_rpc (ae_ip ae, ae_port ae) (ae_lsn ae) s))"
    using assms by (simp add: device_ok_def log_frame_def)
  then show ?thesis
    unfolding ae_body_def split_def Let_def okp_if okp_with_res
    by (auto intro: accept_device device_frame [OF _ frame_make_resp_ae])
qed

lemma react2ae_device: "device_ok s \<Longrightarrow> okp device_ok (react2ae P A ae s)"
  unfolding react2ae_split okp_if okp_seq
  by (auto intro!: device_frame [OF _ frame_make_resp_ae] okp_mono [OF trans2F_effect] body_device
      simp: log_frame_def device_ok_def)

text \<open>What an answer does not change at the primary.\<close>

definition deal_frame :: "endpoint \<Rightarrow> bool \<Rightarrow> 't RaftServer \<Rightarrow> 't RaftServer \<Rightarrow> bool" where
  "deal_frame v ok s t \<longleftrightarrow> vote_frame s t \<and> configuration_m t = configuration_m s \<and> majority_m t = majority_m s \<and>
     addr_of t = addr_of s \<and> entries_m t = entries_m s \<and>
     (\<forall>w. w \<noteq> v \<longrightarrow> at0 (Follower_saved_index_m t) w = at0 (Follower_saved_index_m s) w) \<and>
     (\<not> ok \<longrightarrow> Follower_saved_index_m t = Follower_saved_index_m s)"

lemma deal_frame_frame: "deal_frame v ok s t \<Longrightarrow> frame t u \<Longrightarrow> deal_frame v ok s u"
  by (auto simp: deal_frame_def log_frame_def vote_frame_def)

lemma deal_update:
  assumes "deal_frame v True s t"
  shows "okp (deal_frame v True s) (primary_update_commit_index v i t)"
proof -
  have "okp (\<lambda>u. \<exists>k c. u = t\<lparr>Follower_saved_index_m := put v i (Follower_saved_index_m t), commit_index_m := k, smc_m := c\<rparr>)
      (primary_update_commit_index v i t)"
    unfolding primary_update_commit_index_def Let_def okp_if
    by (auto intro!: okp_mono [OF apply_frame] simp: fun_eq_iff)
  then show ?thesis
    by (rule okp_mono) (use assms in \<open>auto simp: deal_frame_def vote_frame_def\<close>)
qed

lemma deal_resend:
  assumes "deal_frame v ok s t"
  shows "okp (deal_frame v ok s) (case map_of (retry_timers_m t) v of None \<Rightarrow> Throw Null_deref t
      | Some x \<Rightarrow> AE P A v (t\<lparr>retry_timers_m := g t x\<rparr>))"
proof -
  have "deal_frame v ok s (t\<lparr>retry_timers_m := y\<rparr>)" for y
    using assms by (simp add: deal_frame_def vote_frame_def)
  then have "okp (deal_frame v ok s) (AE P A v (t\<lparr>retry_timers_m := y\<rparr>))" for y
    by (intro okp_mono [OF frame_AE]) (rule deal_frame_frame)
  then show ?thesis by (simp split: option.split)
qed

lemma deal_frame_effect: "okp (deal_frame v (rae_ok r) s) (primary_deal_resp_ae_with_same_term P A v r s)"
proof -
  have touch: "deal_frame v ok s (s\<lparr>current_rpc_lsn_m := m\<rparr>)"
    "deal_frame v ok s (s\<lparr>current_rpc_lsn_m := m, nextIndex_m := n\<rparr>)" for ok m n
    by (simp_all add: deal_frame_def vote_frame_def)
  have u: "okp (deal_frame v True s) (seq (primary_update_commit_index v i t)
      (\<lambda>t. case map_of (retry_timers_m t) v of None \<Rightarrow> Throw Null_deref t
         | Some x \<Rightarrow> AE P A v (t\<lparr>retry_timers_m := g t x\<rparr>)))" if "deal_frame v True s t" for i t g
    unfolding okp_seq by (rule okp_mono [OF deal_update [OF that]]) (rule deal_resend)
  have w: "okp (deal_frame v True s) (primary_update_commit_index v i t)" if "deal_frame v True s t" for i t
    using that by (rule deal_update)
  have r: "okp (deal_frame v ok s) (case map_of (retry_timers_m s) v of None \<Rightarrow> Throw Null_deref t
      | Some x \<Rightarrow> AE P A v (t\<lparr>retry_timers_m := g x\<rparr>))"
    if "deal_frame v ok s t" "retry_timers_m t = retry_timers_m s" for ok t g
    using deal_resend [OF that(1), of P A "\<lambda>t. g"] that(2) by simp
  show ?thesis
    unfolding primary_deal_resp_ae_with_same_term_def Let_def okp_if
    by (cases "rae_ok r") (auto intro!: touch u w r)
qed

section \<open>What the two servers agree on\<close>

text \<open>The log up to what the primary believes saved at the member, and up to what the member has
  committed, is the same on both.\<close>

definition agreed :: "'t RaftServer \<Rightarrow> 't RaftServer \<Rightarrow> int \<Rightarrow> bool" where
  "agreed s f d \<longleftrightarrow> d \<le> at0 (nextIndex_m s) (addr_of f) \<and>
     take (nat (d + 1)) (log_of (entries_m f)) = take (nat (d + 1)) (log_of (entries_m s))"

definition in_step :: "pb \<Rightarrow> mock_state_machine \<Rightarrow> 't RaftServer \<Rightarrow> 't RaftServer \<Rightarrow> bool" where
  "in_step P m0 s f \<longleftrightarrow>
     raft_inv P m0 s \<and> state_m s = primary \<and> has_room s \<and> addr_of f \<in> set (configuration_m s) \<and>
     3 \<le> length (configuration_m s) \<and> quorum_commit s \<and>
     raft_inv P m0 f \<and> has_room f \<and> device_ok f \<and> term_m f \<le> term_m s \<and>
     (state_m f = primary \<longrightarrow> term_m f \<noteq> term_m s) \<and>
     seen_lsn f (term_m s) (addr_of s) < at0 (current_rpc_lsn_m s) (addr_of f) - 1 \<and>
     log_matching (log_of (entries_m s)) (log_of (entries_m f)) \<and> commit_index_m f \<le> commit_index_m s \<and>
     agreed s f (commit_index_m f) \<and> agreed s f (at0 (Follower_saved_index_m s) (addr_of f))"

text \<open>The messages of the next \<open>K\<close> exchanges fit into the receive buffer.\<close>

definition link_fits :: "pb \<Rightarrow> 't asio \<Rightarrow> 't RaftServer \<Rightarrow> 't RaftServer \<Rightarrow> nat \<Rightarrow> bool" where
  "link_fits P A s f K \<longleftrightarrow> address_ok A (ip_m s) \<and> address_ok A (ip_m f) \<and>
     (\<forall>l. at0 (current_rpc_lsn_m s) (addr_of f) - 1 \<le> l \<longrightarrow> l \<le> at0 (current_rpc_lsn_m s) (addr_of f) + int K \<longrightarrow>
        (\<forall>n c. 0 \<le> n \<longrightarrow> n \<le> Entries_size (entries_m s) \<longrightarrow> -1 \<le> c \<longrightarrow> c < Entries_size (entries_m s) \<longrightarrow>
           length (ser_ae P ((ae_at s (addr_of f) n c)\<lparr>ae_lsn := l\<rparr>)) < 5120) \<and>
        (\<forall>ok e. length (ser_resp_ae P \<lparr>rae_ok = ok, rae_term = term_m s, rae_lsn = l, rae_ip = ip_m f,
           rae_port = port_m f, rae_is_empty_ae = e\<rparr>) < 5120))"

lemma link_fits_ae:
  assumes "link_fits P A s f K" "at0 (current_rpc_lsn_m s) (addr_of f) - 1 \<le> l"
    "l \<le> at0 (current_rpc_lsn_m s) (addr_of f) + int K"
    "0 \<le> n" "n \<le> Entries_size (entries_m s)" "-1 \<le> c" "c < Entries_size (entries_m s)"
  shows "length (ser_ae P ((ae_at s (addr_of f) n c)\<lparr>ae_lsn := l\<rparr>)) < 5120"
  using assms unfolding link_fits_def by blast

lemma link_fits_resp:
  assumes "link_fits P A s f K" "at0 (current_rpc_lsn_m s) (addr_of f) - 1 \<le> l"
    "l \<le> at0 (current_rpc_lsn_m s) (addr_of f) + int K"
  shows "length (ser_resp_ae P \<lparr>rae_ok = ok, rae_term = term_m s, rae_lsn = l, rae_ip = ip_m f,
           rae_port = port_m f, rae_is_empty_ae = e\<rparr>) < 5120"
  using assms unfolding link_fits_def by blast

text \<open>The member's answer to the message in flight.\<close>

definition answer :: "'t RaftServer \<Rightarrow> 't RaftServer \<Rightarrow> Resp_AppendEntryRpc" where
  "answer s f = \<lparr>rae_ok = log_matches (in_flight s (addr_of f)) (log_of (entries_m f)), rae_term = term_m s,
     rae_lsn = at0 (current_rpc_lsn_m s) (addr_of f) - 1, rae_ip = ip_m f, rae_port = port_m f,
     rae_is_empty_ae = (Entries_size (entries_m s) \<le> at0 (nextIndex_m s) (addr_of f))\<rparr>"

lemma raft_inv_log:
  assumes "raft_inv P m0 s"
  shows "entries_inv (entries_m s)" "Entries_size (entries_m s) = int (length (log_of (entries_m s)))"
    "-1 \<le> commit_index_m s" "commit_index_m s < int (length (log_of (entries_m s)))" "rpc_inv (network_m s)"
proof -
  show e: "entries_inv (entries_m s)" using assms by (simp add: raft_inv_def log_inv_def)
  show "Entries_size (entries_m s) = int (length (log_of (entries_m s)))" using e by (rule entries.size_log)
  then show "-1 \<le> commit_index_m s" "commit_index_m s < int (length (log_of (entries_m s)))"
    using assms by (simp_all add: raft_inv_def log_inv_def)
  show "rpc_inv (network_m s)" using assms by (simp add: raft_inv_def conf_inv_def)
qed

text \<open>The fields of the message in flight.\<close>

lemma in_flight_fields:
  assumes "raft_inv P m0 s" "state_m s = primary" "v \<in> set (configuration_m s)"
    "n = at0 (nextIndex_m s) v" "xs = log_of (entries_m s)"
  shows "0 \<le> n" "n \<le> int (length xs)" "Entries_size (entries_m s) = int (length xs)"
    "ae_prelog_index (in_flight s v) = n - 1" "ae_term (in_flight s v) = term_m s"
    "ae_commit_index (in_flight s v) = commit_index_m s"
    "ae_ip (in_flight s v) = ip_m s" "ae_port (in_flight s v) = port_m s"
    "ae_lsn (in_flight s v) = at0 (current_rpc_lsn_m s) v - 1"
    "nat n = nat (ae_prelog_index (in_flight s v) + 1)" "nat n \<le> length xs"
    "ae_prelog_term (in_flight s v) = (if nat n = 0 then -1 else en_term (xs ! (nat n - 1)))"
    "ae_entry (in_flight s v) = (if nat n < length xs then [xs ! nat n] else [])"
    "ae_wf (in_flight s v)"
proof -
  have e: "entries_inv (entries_m s)" using assms(1) by (simp add: raft_inv_def log_inv_def)
  show n: "0 \<le> n" using assms(1) unfolding assms(4) raft_inv_def book_inv_def by blast
  show sz: "Entries_size (entries_m s) = int (length xs)" unfolding assms(5) using e by (rule entries.size_log)
  show le: "n \<le> int (length xs)" using assms(1-3) unfolding assms(4) sz [symmetric] raft_inv_def book_inv_def by blast
  have le': "n \<le> Entries_size (entries_m s)" using le sz by simp
  note a = ae_at_fields [where s = s and v = v and n = n and c = "commit_index_m s", OF e n le' refl]
  show "ae_prelog_index (in_flight s v) = n - 1" "ae_term (in_flight s v) = term_m s"
    "ae_commit_index (in_flight s v) = commit_index_m s"
    "ae_ip (in_flight s v) = ip_m s" "ae_port (in_flight s v) = port_m s"
    "ae_lsn (in_flight s v) = at0 (current_rpc_lsn_m s) v - 1"
    "nat n = nat (ae_prelog_index (in_flight s v) + 1)" "nat n \<le> length xs"
    using n le by (simp_all add: in_flight_def assms(4) [symmetric]) (simp_all add: ae_at_def)
  show p: "ae_prelog_term (in_flight s v) = (if nat n = 0 then -1 else en_term (xs ! (nat n - 1)))"
    and en: "ae_entry (in_flight s v) = (if nat n < length xs then [xs ! nat n] else [])"
    using a by (simp_all add: in_flight_def assms(4,5) [symmetric])
  have "en_index (xs ! nat n) = n" if "nat n < length xs"
    using assms(1,5) that n by (simp add: raft_inv_def log_inv_def)
  then show "ae_wf (in_flight s v)"
    using n p en \<open>ae_prelog_index (in_flight s v) = n - 1\<close> by (auto simp: ae_wf_def)
qed

text \<open>What an accepting member is asked to do does not touch what is agreed.\<close>

lemma agreed_length:
  assumes "agreed s f d" "-1 \<le> d" "d < int (length (log_of (entries_m s)))"
  shows "d < int (length (log_of (entries_m f)))"
proof -
  have "min (nat (d + 1)) (length (log_of (entries_m f))) = nat (d + 1)"
    using arg_cong [where f = length, OF conjunct2 [OF assms(1) [unfolded agreed_def]]] assms(3) by simp
  then show ?thesis using assms(2) by linarith
qed

lemma in_step_safe:
  assumes "in_step P m0 s f"
  shows "ae_safe (in_flight s (addr_of f)) f"
proof -
  let ?v = "addr_of f" and ?xs = "log_of (entries_m s)" and ?ys = "log_of (entries_m f)"
  define n where "n = at0 (nextIndex_m s) ?v"
  have i: "raft_inv P m0 s" "state_m s = primary" "?v \<in> set (configuration_m s)" "raft_inv P m0 f"
    "commit_index_m f \<le> commit_index_m s" "commit_index_m f \<le> n"
    using assms by (simp_all add: in_step_def agreed_def n_def)
  note a = in_flight_fields [OF i(1-3) n_def refl]
  have cf: "commit_index_m f < int (length ?ys)" and cs: "commit_index_m s < int (length ?xs)"
    using raft_inv_log(4) [OF i(4)] raft_inv_log(4) [OF i(1)] by blast+
  have len: "nat n \<le> length ?ys" if "log_matches (in_flight s ?v) ?ys"
    using that a(4) by (auto simp: log_matches_def)
  show ?thesis
  proof (cases "nat n < length ?xs")
    case True
    have "length (log_after (in_flight s ?v) ?ys) = nat n + 1" if "log_matches (in_flight s ?v) ?ys"
      using True a(13) a(10) len [OF that] by (simp add: log_after_def)
    then show ?thesis using True a(1,6,13) i(5,6) by (auto simp: ae_safe_def Let_def)
  next
    case False
    then show ?thesis using a(1,2,6,13) i(5) cf cs len by (auto simp: ae_safe_def Let_def log_after_def)
  qed
qed

lemma member_turn:
  assumes step: "in_step P m0 s f" and fits: "link_fits P A s f K" and A: "asio_law A pend"
  shows "surely (\<lambda>t. ae_effect P (in_flight s (addr_of f)) f t \<and> raft_inv P m0 t \<and> device_ok t)
    (react2ae P A (in_flight s (addr_of f)) f)"
proof -
  let ?v = "addr_of f"
  have i: "raft_inv P m0 s" "state_m s = primary" "?v \<in> set (configuration_m s)" "raft_inv P m0 f" "has_room f"
    "device_ok f" "term_m f \<le> term_m s" "state_m f = primary \<longrightarrow> term_m f \<noteq> term_m s"
    using step by (simp_all add: in_step_def)
  note a = in_flight_fields [OF i(1-3) refl refl]
  have "max (term_m f) (term_m s) = term_m s" using i(7) by simp
  then have "reply_fits P (in_flight s ?v) f"
    using fits by (simp add: reply_fits_def a(5,9)) (rule allI, rule less_trans [of _ 5120], simp_all add: link_fits_def)
  moreover have "address_ok A (ae_ip (in_flight s ?v))" using fits a(7) by (simp add: link_fits_def)
  ultimately have "surely (\<lambda>t. True) (react2ae P A (in_flight s ?v) f)"
    using i a(5) by (intro react2ae_total [OF i(4,5) A _ a(14) in_step_safe [OF step]]) (simp_all add: device_ok_def)
  moreover have "okp (\<lambda>t. ae_effect P (in_flight s ?v) f t \<and> raft_inv P m0 t \<and> device_ok t)
      (react2ae P A (in_flight s ?v) f)"
    unfolding okp_conj
    by (intro conjI react2ae_effect raft_inv_log [OF i(4)] i react2ae_inv react2ae_device)
  ultimately show ?thesis by (rule surelyI)
qed

lemma primary_turn:
  assumes step: "in_step P m0 s f" and fits: "link_fits P A s f K" and A: "asio_law A pend"
  shows "surely (\<lambda>t. ack_effect P (addr_of f) (answer s f) s t \<and> raft_inv P m0 t \<and>
      deal_frame (addr_of f) (rae_ok (answer s f)) s t) (react2resp_ae P A (answer s f) s)"
proof -
  let ?v = "addr_of f" and ?r = "answer s f"
  have i: "raft_inv P m0 s" "state_m s = primary" "?v \<in> set (configuration_m s)" "3 \<le> length (configuration_m s)"
    using step by (simp_all add: in_step_def)
  note a = in_flight_fields [OF i(1-3) refl refl]
  have eq: "react2resp_ae P A ?r s = primary_deal_resp_ae_with_same_term P A ?v ?r s"
    using i(2) by (simp add: react2resp_ae_def answer_def Let_def)
  have "(ae_at s ?v n c)\<lparr>ae_lsn := at0 (current_rpc_lsn_m s) ?v\<rparr> = ae_at s ?v n c" for n c
    by (simp add: ae_at_def)
  then have "length (ser_ae P (ae_at s ?v n c)) < 5120"
    if "0 \<le> n" "n \<le> Entries_size (entries_m s)" "-1 \<le> c" "c < Entries_size (entries_m s)" for n c
    using link_fits_ae [OF fits _ _ that, of "at0 (current_rpc_lsn_m s) ?v"] by simp
  then have "ae_fits P A s ?v"
    using fits unfolding ae_fits_def link_fits_def by fastforce
  moreover have "rae_ok ?r \<or> 0 < at0 (nextIndex_m s) ?v"
    using a(1,4) by (auto simp: answer_def log_matches_def)
  ultimately show ?thesis
    unfolding eq
    by (intro surelyI [OF primary_deal_total [OF i A]])
      (simp_all add: okp_conj primary_deal_effect [OF i(1,2)] primary_deal_inv [OF i(1,2)] deal_frame_effect)
qed

section \<open>After the turn of the member\<close>

lemma room_log: "entries_inv es \<Longrightarrow> entries_room es \<longleftrightarrow> int (length (log_of es)) < 2 ^ 31 - 1"
  by (simp add: entries_room_def length_log_of)

lemma member_after:
  assumes step: "in_step P m0 s f" and e: "ae_effect P (in_flight s (addr_of f)) f t" and inv: "raft_inv P m0 t"
  shows "term_m t = term_m s" "state_m t = follower" "addr_of t = addr_of f" "has_room t"
    "seen_lsn t (term_m s) (addr_of s) = at0 (current_rpc_lsn_m s) (addr_of f) - 1"
    "sent f t [(addr_of s, wire (RESP_APPEND, ser_resp_ae P (answer s f)))]"
    "log_matches (in_flight s (addr_of f)) (log_of (entries_m f)) \<Longrightarrow>
       log_of (entries_m t) = log_after (in_flight s (addr_of f)) (log_of (entries_m f)) \<and>
       commit_index_m t = min (commit_index_m s) (int (length (log_of (entries_m t))) - 1)"
    "\<not> log_matches (in_flight s (addr_of f)) (log_of (entries_m f)) \<Longrightarrow>
       log_of (entries_m t) = log_of (entries_m f) \<and> commit_index_m t = commit_index_m f"
proof -
  let ?v = "addr_of f" and ?xs = "log_of (entries_m s)" and ?ys = "log_of (entries_m f)" and ?ae = "in_flight s (addr_of f)"
  have i: "raft_inv P m0 s" "state_m s = primary" "?v \<in> set (configuration_m s)" "raft_inv P m0 f" "has_room s"
    "has_room f" "term_m f \<le> term_m s" "seen_lsn f (term_m s) (addr_of s) < at0 (current_rpc_lsn_m s) ?v - 1"
    using step by (simp_all add: in_step_def)
  note a = in_flight_fields [OF i(1-3) refl refl]
  have new: "\<not> ae_lsn ?ae \<le> seen_lsn f (ae_term ?ae) (ae_ip ?ae, ae_port ?ae)" "\<not> ae_term ?ae < term_m f"
    using i(7,8) by (simp_all add: a(5,7-9))
  have reply: "ae_reply P f ?ae (log_matches ?ae ?ys) = (addr_of s, wire (RESP_APPEND, ser_resp_ae P (answer s f)))"
  proof -
    have "(ae_entry ?ae = []) = (Entries_size (entries_m s) \<le> at0 (nextIndex_m s) ?v)"
      unfolding a(3,13) using a(1) by auto
    then show ?thesis using i(7) by (simp add: ae_reply_def answer_def a(5,7-9) max_def)
  qed
  have lsn: "at0 (follower_rpc_lsn_m t) (addr_of s) = at0 (current_rpc_lsn_m s) ?v - 1"
    using e new i(8) by (simp add: ae_effect_def lsn_after_def a(5,7-9) max_def)
  show t: "term_m t = term_m s" "state_m t = follower"
    using e new a(5) by (simp_all add: ae_effect_def)
  then show "seen_lsn t (term_m s) (addr_of s) = at0 (current_rpc_lsn_m s) (addr_of f) - 1"
    using lsn by (simp add: seen_lsn_def)
  show "addr_of t = addr_of f" "sent f t [(addr_of s, wire (RESP_APPEND, ser_resp_ae P (answer s f)))]"
    using e new reply by (cases "log_matches ?ae ?ys"; simp add: ae_effect_def accepted_def log_frame_def)+
  show yes: "log_of (entries_m t) = log_after ?ae ?ys \<and>
       commit_index_m t = min (commit_index_m s) (int (length (log_of (entries_m t))) - 1)" if "log_matches ?ae ?ys"
    using e new that a(6) by (simp add: ae_effect_def accepted_def)
  show no: "log_of (entries_m t) = ?ys \<and> commit_index_m t = commit_index_m f" if "\<not> log_matches ?ae ?ys"
    using e new that by (simp add: ae_effect_def log_frame_def)
  have "int (length (log_of (entries_m t))) < 2 ^ 31 - 1"
  proof (cases "log_matches ?ae ?ys \<and> ae_entry ?ae \<noteq> []")
    case True
    then have "length (log_of (entries_m t)) \<le> length ?xs"
      using yes a(10,11,13) by (auto simp: log_after_def split: if_splits)
    then show ?thesis using i(5) room_log [OF raft_inv_log(1) [OF i(1)]] by simp
  next
    case False
    then have "log_of (entries_m t) = ?ys" using yes no by (cases "log_matches ?ae ?ys") (auto simp: log_after_def)
    then show ?thesis using i(6) room_log [OF raft_inv_log(1) [OF i(4)]] by simp
  qed
  then show "has_room t" using room_log [OF raft_inv_log(1) [OF inv]] by simp
qed

section \<open>After the turn of the primary\<close>

text \<open>Its commit index never moves back as long as what is saved only grows.\<close>

lemma quorum_commit_mono:
  assumes "quorum_commit s" "quorum_commit t" "configuration_m t = configuration_m s" "majority_m t = majority_m s"
    and "\<And>w. at0 (Follower_saved_index_m s) w \<le> at0 (Follower_saved_index_m t) w"
  shows "commit_index_m s \<le> commit_index_m t"
proof (rule ccontr)
  assume "\<not> commit_index_m s \<le> commit_index_m t"
  then have "int (card (savers t (commit_index_m s))) < majority_m s"
    using assms(2,4) by (simp add: quorum_commit_def)
  moreover have "savers s (commit_index_m s) \<subseteq> savers t (commit_index_m s)"
    using assms(3,5) by (auto simp: savers_def intro: order_trans)
  then have "card (savers s (commit_index_m s)) \<le> card (savers t (commit_index_m s))"
    by (rule card_mono [rotated]) (simp add: savers_def)
  ultimately show False using assms(1) by (simp add: quorum_commit_def)
qed

lemma quorum_commit_same:
  assumes "quorum_commit s" "configuration_m t = configuration_m s" "majority_m t = majority_m s"
    "Follower_saved_index_m t = Follower_saved_index_m s" "commit_index_m t = commit_index_m s"
  shows "quorum_commit t"
  using assms by (simp add: quorum_commit_def savers_def)

lemma primary_after:
  assumes step: "in_step P m0 s f" and e: "ack_effect P (addr_of f) (answer s f) s t"
    and d: "deal_frame (addr_of f) (rae_ok (answer s f)) s t" and n: "n = at0 (nextIndex_m s) (addr_of f)"
  shows "quorum_commit t" "commit_index_m s \<le> commit_index_m t"
    "rae_ok (answer s f) \<Longrightarrow> n < int (length (log_of (entries_m s))) \<Longrightarrow>
       at0 (nextIndex_m t) (addr_of f) = n + 1 \<and> at0 (Follower_saved_index_m t) (addr_of f) = n"
    "rae_ok (answer s f) \<Longrightarrow> n = int (length (log_of (entries_m s))) \<Longrightarrow>
       sent s t [] \<and> at0 (Follower_saved_index_m t) (addr_of f) = n - 1"
    "\<not> rae_ok (answer s f) \<Longrightarrow> 0 < n \<and> at0 (nextIndex_m t) (addr_of f) = n - 1 \<and>
       at0 (Follower_saved_index_m t) = at0 (Follower_saved_index_m s) \<and> commit_index_m t = commit_index_m s"
    "\<not> (rae_ok (answer s f) \<and> n = int (length (log_of (entries_m s)))) \<Longrightarrow>
       at0 (current_rpc_lsn_m t) (addr_of f) = at0 (current_rpc_lsn_m s) (addr_of f) + 1 \<and>
       sent s t [(addr_of f, wire (APPEND_ENTRY, ser_ae P (in_flight t (addr_of f))))]"
proof -
  let ?v = "addr_of f" and ?r = "answer s f" and ?xs = "log_of (entries_m s)"
  have i: "raft_inv P m0 s" "state_m s = primary" "?v \<in> set (configuration_m s)" "quorum_commit s"
    "at0 (Follower_saved_index_m s) ?v \<le> n" using step n by (simp_all add: in_step_def agreed_def)
  note a = in_flight_fields [OF i(1-3) n refl]
  have lsn: "at0 (current_rpc_lsn_m s) ?v = rae_lsn ?r + 1" by (simp add: answer_def)
  have empty: "rae_is_empty_ae ?r \<longleftrightarrow> int (length ?xs) \<le> n" by (simp add: answer_def n a(3))
  have f: "configuration_m t = configuration_m s" "majority_m t = majority_m s" "addr_of t = addr_of s"
    "entries_m t = entries_m s" "term_m t = term_m s"
    using d by (simp_all add: deal_frame_def vote_frame_def)
  have other: "w \<noteq> ?v \<Longrightarrow> at0 (Follower_saved_index_m t) w = at0 (Follower_saved_index_m s) w" for w
    using d unfolding deal_frame_def by blast
  note eff = e [unfolded ack_effect_def Let_def, folded n, unfolded a(3) empty]
  have sent: "at0 (current_rpc_lsn_m t) ?v = at0 (current_rpc_lsn_m s) ?v + 1 \<and>
       sent s t [(?v, wire (APPEND_ENTRY, ser_ae P (in_flight t ?v)))]"
    if "sends_ae P ?v (at0 (nextIndex_m t) ?v) (commit_index_m t) s t"
    using sends_in_flight [OF that f(4,5,3)] that by (simp add: sends_ae_def)
  show yes: "at0 (nextIndex_m t) ?v = n + 1 \<and> at0 (Follower_saved_index_m t) ?v = n"
    if "rae_ok ?r" "n < int (length ?xs)" using eff lsn that by simp
  show last: "sent s t [] \<and> at0 (Follower_saved_index_m t) ?v = n - 1"
    if "rae_ok ?r" "n = int (length ?xs)" using eff lsn that by simp
  show no: "0 < n \<and> at0 (nextIndex_m t) ?v = n - 1 \<and>
       at0 (Follower_saved_index_m t) = at0 (Follower_saved_index_m s) \<and> commit_index_m t = commit_index_m s"
    if "\<not> rae_ok ?r" using eff lsn that d by (simp add: deal_frame_def)
  show "at0 (current_rpc_lsn_m t) ?v = at0 (current_rpc_lsn_m s) ?v + 1 \<and>
       sent s t [(?v, wire (APPEND_ENTRY, ser_ae P (in_flight t ?v)))]"
    if "\<not> (rae_ok ?r \<and> n = int (length ?xs))"
    by (rule sent) (use eff lsn that a(2) in \<open>auto split: if_splits\<close>)
  show q: "quorum_commit t"
  proof (cases "rae_ok ?r")
    case True
    then show ?thesis using eff lsn by simp
  next
    case False
    then show ?thesis using quorum_commit_same [OF i(4) f(1,2)] no d by (simp add: deal_frame_def)
  qed
  show "commit_index_m s \<le> commit_index_m t"
  proof (cases "rae_ok ?r")
    case True
    have "at0 (Follower_saved_index_m s) ?v < int (length ?xs)"
      using i(1-3) unfolding raft_inv_def book_inv_def a(3) by blast
    then have "at0 (Follower_saved_index_m s) ?v \<le> at0 (Follower_saved_index_m t) ?v"
      using yes [OF True] last [OF True] i(5) a(2) by linarith
    then have "at0 (Follower_saved_index_m s) w \<le> at0 (Follower_saved_index_m t) w" for w
      using other [of w] by (cases "w = ?v") auto
    then show ?thesis by (rule quorum_commit_mono [OF i(4) q f(1,2)])
  qed (simp add: no)
qed

section \<open>A whole exchange\<close>

text \<open>How many more exchanges there can be: while the member refuses, \<open>nextIndex_\<close> goes back; once it
  accepts, \<open>nextIndex_\<close> goes up to the end of the log.\<close>

definition todo :: "'t RaftServer \<Rightarrow> 't RaftServer \<Rightarrow> nat" where
  "todo s f = (let n = nat (at0 (nextIndex_m s) (addr_of f)); size = length (log_of (entries_m s)) in
     if log_matches (in_flight s (addr_of f)) (log_of (entries_m f)) then size - n else size + n)"

text \<open>The member has the whole log, and there is nothing to send.\<close>

definition complete :: "'t RaftServer \<Rightarrow> 't RaftServer \<Rightarrow> bool" where
  "complete s f \<longleftrightarrow> log_matches (in_flight s (addr_of f)) (log_of (entries_m f)) \<and>
     at0 (nextIndex_m s) (addr_of f) = int (length (log_of (entries_m s)))"

lemma agreed_matches:
  assumes step: "in_step P m0 s f" and d: "agreed s f d" "at0 (nextIndex_m s) (addr_of f) - 1 \<le> d"
    "d < int (length (log_of (entries_m s)))"
  shows "log_matches (in_flight s (addr_of f)) (log_of (entries_m f))"
proof -
  let ?xs = "log_of (entries_m s)" and ?ys = "log_of (entries_m f)" and ?n = "at0 (nextIndex_m s) (addr_of f)"
  have i: "raft_inv P m0 s" "state_m s = primary" "addr_of f \<in> set (configuration_m s)"
    using step by (simp_all add: in_step_def)
  note a = in_flight_fields [OF i refl refl]
  show ?thesis
  proof (cases "?n = 0")
    case True
    then show ?thesis using a(4) by (simp add: log_matches_def)
  next
    case False
    then have n: "0 < ?n" "nat (?n - 1) < nat (d + 1)" "nat (?n - 1) = nat ?n - 1" "nat ?n \<noteq> 0"
      using a(1) d(2) by simp_all
    have "d < int (length ?ys)" using agreed_length [OF d(1) _ d(3)] d(2) n(1) by simp
    moreover have "?ys ! nat (?n - 1) = ?xs ! nat (?n - 1)"
      using d(1) n(2) nth_take unfolding agreed_def by metis
    ultimately show ?thesis
      using n d(2) by (simp add: log_matches_def a(4,12))
  qed
qed

lemma saved_range:
  assumes "in_step P m0 s f"
  shows "-1 \<le> at0 (Follower_saved_index_m s) (addr_of f)"
    "at0 (Follower_saved_index_m s) (addr_of f) < int (length (log_of (entries_m s)))"
proof -
  have i: "raft_inv P m0 s" "state_m s = primary" "addr_of f \<in> set (configuration_m s)"
    using assms by (simp_all add: in_step_def)
  then show "-1 \<le> at0 (Follower_saved_index_m s) (addr_of f)"
    "at0 (Follower_saved_index_m s) (addr_of f) < int (length (log_of (entries_m s)))"
    unfolding raft_inv_log(2) [OF i(1), symmetric] raft_inv_def book_inv_def by blast+
qed

lemma refused_beyond:
  assumes "in_step P m0 s f" "\<not> log_matches (in_flight s (addr_of f)) (log_of (entries_m f))"
  shows "commit_index_m f < at0 (nextIndex_m s) (addr_of f) - 1"
    "at0 (Follower_saved_index_m s) (addr_of f) < at0 (nextIndex_m s) (addr_of f) - 1"
proof -
  have i: "raft_inv P m0 s" "commit_index_m f \<le> commit_index_m s" "agreed s f (commit_index_m f)"
    "agreed s f (at0 (Follower_saved_index_m s) (addr_of f))"
    using assms(1) by (simp_all add: in_step_def)
  show "commit_index_m f < at0 (nextIndex_m s) (addr_of f) - 1"
    using agreed_matches [OF assms(1) i(3)] assms(2) i(2) raft_inv_log(4) [OF i(1)] by fastforce
  show "at0 (Follower_saved_index_m s) (addr_of f) < at0 (nextIndex_m s) (addr_of f) - 1"
    using agreed_matches [OF assms(1) i(4)] assms(2) saved_range(2) [OF assms(1)] by fastforce
qed

text \<open>The facts about one exchange, collected.\<close>

definition exchanged :: "pb \<Rightarrow> mock_state_machine \<Rightarrow> 't RaftServer \<Rightarrow> 't RaftServer \<Rightarrow> 't RaftServer \<Rightarrow> 't RaftServer \<Rightarrow> bool" where
  "exchanged P m0 s f s' f' \<longleftrightarrow>
     ae_effect P (in_flight s (addr_of f)) f f' \<and> raft_inv P m0 f' \<and> device_ok f' \<and>
     ack_effect P (addr_of f) (answer s f) s s' \<and> raft_inv P m0 s' \<and> deal_frame (addr_of f) (rae_ok (answer s f)) s s'"

lemma exchanged_logs:
  assumes step: "in_step P m0 s f" and x: "exchanged P m0 s f s' f'" and n: "n = nat (at0 (nextIndex_m s) (addr_of f))"
  shows "log_matching (log_of (entries_m s)) (log_of (entries_m f'))"
    "log_matches (in_flight s (addr_of f)) (log_of (entries_m f)) \<Longrightarrow> n < length (log_of (entries_m s)) \<Longrightarrow>
       log_of (entries_m f') = take (Suc n) (log_of (entries_m s))"
    "complete s f \<Longrightarrow> take (length (log_of (entries_m s))) (log_of (entries_m f')) = log_of (entries_m s)"
proof -
  let ?ae = "in_flight s (addr_of f)" and ?xs = "log_of (entries_m s)" and ?ys = "log_of (entries_m f)"
  have i: "raft_inv P m0 s" "state_m s = primary" "addr_of f \<in> set (configuration_m s)" "log_matching ?xs ?ys"
    using step by (simp_all add: in_step_def)
  note a = in_flight_fields [OF i(1-3) refl refl, folded n]
  have e: "ae_effect P ?ae f f'" "raft_inv P m0 f'" using x by (simp_all add: exchanged_def)
  note m = member_after [OF step e]
  have acc: "log_matching ?xs (log_after ?ae ?ys) \<and>
      take (n + length (ae_entry ?ae)) (log_after ?ae ?ys) = take (n + length (ae_entry ?ae)) ?xs"
    if "log_matches ?ae ?ys" using accepted_matching [OF i(4) that a(10-13)] .
  show "log_matching ?xs (log_of (entries_m f'))"
    using m(7,8) acc i(4) by (cases "log_matches ?ae ?ys") simp_all
  show "log_of (entries_m f') = take (Suc n) ?xs" if "log_matches ?ae ?ys" "n < length ?xs"
    using m(7) [OF that(1)] accepted_prefix(2) [OF i(4) that(1) a(10-13) that(2)] by simp
  show "take (length ?xs) (log_of (entries_m f')) = ?xs" if "complete s f"
    using that m(7) acc a(13) n by (simp add: complete_def)
qed

lemma exchanged_in_step:
  assumes step: "in_step P m0 s f" and x: "exchanged P m0 s f s' f'" and more: "\<not> complete s f"
  shows "in_step P m0 s' f'"
proof -
  let ?ae = "in_flight s (addr_of f)" and ?xs = "log_of (entries_m s)" and ?ys = "log_of (entries_m f)"
  define n where "n = at0 (nextIndex_m s) (addr_of f)"
  have i: "raft_inv P m0 s" "state_m s = primary" "addr_of f \<in> set (configuration_m s)" "has_room s"
    "3 \<le> length (configuration_m s)" "commit_index_m f \<le> commit_index_m s"
    "agreed s f (commit_index_m f)" "agreed s f (at0 (Follower_saved_index_m s) (addr_of f))"
    using step by (simp_all add: in_step_def)
  note a = in_flight_fields [OF i(1-3) n_def refl]
  have e: "ae_effect P ?ae f f'" "raft_inv P m0 f'" "device_ok f'"
    and k: "ack_effect P (addr_of f) (answer s f) s s'" "raft_inv P m0 s'" "deal_frame (addr_of f) (rae_ok (answer s f)) s s'"
    using x by (simp_all add: exchanged_def)
  have fr: "configuration_m s' = configuration_m s" "addr_of s' = addr_of s" "entries_m s' = entries_m s"
    "term_m s' = term_m s" "state_m s' = primary"
    using k(3) i(2) by (simp_all add: deal_frame_def vote_frame_def)
  note m = member_after [OF step e(1,2)]
  note p = primary_after [OF step k(1,3) n_def]
  have ok: "rae_ok (answer s f) = log_matches ?ae ?ys" by (simp add: answer_def)
  have lsn: "at0 (current_rpc_lsn_m s') (addr_of f) = at0 (current_rpc_lsn_m s) (addr_of f) + 1"
    using p(6) more ok by (auto simp: complete_def n_def)
  have ag: "commit_index_m f' \<le> commit_index_m s' \<and> agreed s' f' (commit_index_m f') \<and>
      agreed s' f' (at0 (Follower_saved_index_m s') (addr_of f'))"
  proof (cases "log_matches ?ae ?ys")
    case True
    then have lt: "n < int (length ?xs)" using more a(2) by (auto simp: complete_def n_def)
    then have l: "log_of (entries_m f') = take (Suc (nat n)) ?xs"
      using exchanged_logs(2) [OF step x refl True] a(1) by (simp add: n_def)
    then have c: "commit_index_m f' = min (commit_index_m s) n" using m(7) [OF True] lt a(1) by simp
    have t: "take (nat (d + 1)) (take (Suc (nat n)) ?xs) = take (nat (d + 1)) ?xs" if "d \<le> n" for d
    proof -
      have "nat (d + 1) \<le> Suc (nat n)" using that by linarith
      then show ?thesis by (simp add: min_def)
    qed
    show ?thesis
      using p(2,3) True lt ok l c t m(3) fr(3) by (simp add: agreed_def min_def)
  next
    case False
    then show ?thesis
      using p(2,5) ok m(3,8) fr(3) i(6-8) refused_beyond [OF step False] by (simp add: agreed_def n_def)
  qed
  have "seen_lsn f' (term_m s') (addr_of s') < at0 (current_rpc_lsn_m s') (addr_of f') - 1"
    unfolding fr(2,4) m(3,5) lsn by simp
  then show ?thesis
    unfolding in_step_def fr m(1-3)
    using ag i(3-5) p(1) k(2) e(2,3) m(4) exchanged_logs(1) [OF step x refl] by (simp add: m(1-3) fr)
qed

lemma exchanged_todo:
  assumes step: "in_step P m0 s f" and x: "exchanged P m0 s f s' f'" and more: "\<not> complete s f"
  shows "todo s' f' < todo s f"
proof -
  let ?ae = "in_flight s (addr_of f)" and ?xs = "log_of (entries_m s)" and ?ys = "log_of (entries_m f)"
  define n where "n = at0 (nextIndex_m s) (addr_of f)"
  have i: "raft_inv P m0 s" "state_m s = primary" "addr_of f \<in> set (configuration_m s)"
    using step by (simp_all add: in_step_def)
  note a = in_flight_fields [OF i n_def refl]
  have step': "in_step P m0 s' f'" using exchanged_in_step [OF step x more] .
  then have i': "raft_inv P m0 s'" "state_m s' = primary" "addr_of f' \<in> set (configuration_m s')"
    by (simp_all add: in_step_def)
  note a' = in_flight_fields [OF i' refl refl]
  have e: "ae_effect P ?ae f f'" "raft_inv P m0 f'"
    and k: "ack_effect P (addr_of f) (answer s f) s s'" "deal_frame (addr_of f) (rae_ok (answer s f)) s s'"
    using x by (simp_all add: exchanged_def)
  have en: "entries_m s' = entries_m s" using k(2) by (simp add: deal_frame_def)
  note m = member_after [OF step e]
  note p = primary_after [OF step k n_def]
  have ok: "rae_ok (answer s f) = log_matches ?ae ?ys" by (simp add: answer_def)
  show ?thesis
  proof (cases "log_matches ?ae ?ys")
    case True
    then have lt: "n < int (length ?xs)" using more a(2) by (auto simp: complete_def n_def)
    then have l: "log_of (entries_m f') = take (Suc (nat n)) ?xs" and nx: "at0 (nextIndex_m s') (addr_of f') = n + 1"
      using exchanged_logs(2) [OF step x refl True] a(1) p(3) True ok m(3) by (simp_all add: n_def)
    have "log_matches (in_flight s' (addr_of f')) (log_of (entries_m f'))"
      using a(1) lt l nx en by (simp add: log_matches_def a'(4,12) nat_add_distrib)
    then show ?thesis
      using True lt nx en a(1) by (simp add: todo_def Let_def n_def [symmetric] nat_add_distrib)
  next
    case False
    then have "0 < n" "at0 (nextIndex_m s') (addr_of f') = n - 1" using p(5) ok m(3) by simp_all
    moreover have "0 < nat n" "nat n \<le> length ?xs" "nat (n - 1) = nat n - 1" using \<open>0 < n\<close> a(2) by linarith+
    ultimately show ?thesis
      using False en by (simp add: todo_def Let_def n_def [symmetric]) linarith
  qed
qed

lemma exchanged_fits:
  assumes step: "in_step P m0 s f" and x: "exchanged P m0 s f s' f'" and more: "\<not> complete s f"
    and fits: "link_fits P A s f (Suc K)"
  shows "link_fits P A s' f' K"
proof -
  have e: "ae_effect P (in_flight s (addr_of f)) f f'" "raft_inv P m0 f'"
    and k: "ack_effect P (addr_of f) (answer s f) s s'" "deal_frame (addr_of f) (rae_ok (answer s f)) s s'"
    using x by (simp_all add: exchanged_def)
  have fr: "ip_m s' = ip_m s" "port_m s' = port_m s" "entries_m s' = entries_m s" "term_m s' = term_m s"
    using k(2) by (simp_all add: deal_frame_def vote_frame_def)
  have ff: "ip_m f' = ip_m f" "port_m f' = port_m f" using member_after(3) [OF step e] by simp_all
  have lsn: "at0 (current_rpc_lsn_m s') (addr_of f) = at0 (current_rpc_lsn_m s) (addr_of f) + 1"
    using primary_after(6) [OF step k refl] more by (auto simp: complete_def answer_def)
  have at: "(ae_at s' (addr_of f) n c)\<lparr>ae_lsn := l\<rparr> = (ae_at s (addr_of f) n c)\<lparr>ae_lsn := l\<rparr>" for n c l
    using fr by (simp add: ae_at_def)
  show ?thesis
    using fits unfolding link_fits_def ff fr lsn at by auto
qed

section \<open>Runs\<close>

lemma sent_unique: "sent s t xs \<Longrightarrow> sent s t ys \<Longrightarrow> xs = ys"
  by (simp add: sent_def)

text \<open>The states in which the two servers wait for the message in flight.\<close>

definition link_ok :: "pb \<Rightarrow> mock_state_machine \<Rightarrow> 't asio \<Rightarrow> nat \<Rightarrow> 't link \<Rightarrow> bool" where
  "link_ok P m0 A K x = (case x of (s, f, b) \<Rightarrow>
     in_step P m0 s f \<and> link_fits P A s f K \<and> b = wire (APPEND_ENTRY, ser_ae P (in_flight s (addr_of f))))"

lemma link_wire:
  assumes "in_step P m0 s f" "link_fits P A s f K"
  shows "wire_fits (APPEND_ENTRY, ser_ae P (in_flight s (addr_of f)))"
    "wire_fits (RESP_APPEND, ser_resp_ae P (answer s f))"
proof -
  have i: "raft_inv P m0 s" "state_m s = primary" "addr_of f \<in> set (configuration_m s)"
    using assms(1) by (simp_all add: in_step_def)
  note a = in_flight_fields [OF i refl refl]
  have "length (ser_ae P (in_flight s (addr_of f))) < 5120"
    unfolding in_flight_def
    using a(1-3) raft_inv_log(3,4) [OF i(1)] by (intro link_fits_ae [OF assms(2)]) simp_all
  moreover have "length (ser_resp_ae P (answer s f)) < 5120"
    unfolding answer_def by (intro link_fits_resp [OF assms(2)]) simp_all
  ultimately show "wire_fits (APPEND_ENTRY, ser_ae P (in_flight s (addr_of f)))"
    "wire_fits (RESP_APPEND, ser_resp_ae P (answer s f))" by (simp_all add: wire_fits_def)
qed

text \<open>The two turns happen, and only in this way.\<close>

lemma turns_exist:
  assumes P: "pb_law P" and A: "asio_law A pend" and j: "clean junk"
    and x: "link_ok P m0 A K (s, f, b)"
  obtains s' f' r where "handles P A junk b f f'" "sent f f' [(addr_of s, r)]" "handles P A junk r s s'"
    "exchanged P m0 s f s' f'"
proof -
  have l: "in_step P m0 s f" "link_fits P A s f K" and b: "b = wire (APPEND_ENTRY, ser_ae P (in_flight s (addr_of f)))"
    using x by (simp_all add: link_ok_def)
  obtain f' where f': "react2ae P A (in_flight s (addr_of f)) f = Ok f'" "ae_effect P (in_flight s (addr_of f)) f f'"
      "raft_inv P m0 f'" "device_ok f'" using surelyD [OF member_turn [OF l A]] by blast
  obtain s' where s': "react2resp_ae P A (answer s f) s = Ok s'" "ack_effect P (addr_of f) (answer s f) s s'"
      "raft_inv P m0 s'" "deal_frame (addr_of f) (rae_ok (answer s f)) s s'"
    using surelyD [OF primary_turn [OF l A]] by blast
  show thesis
  proof
    show "handles P A junk b f f'" "handles P A junk (wire (RESP_APPEND, ser_resp_ae P (answer s f))) s s'"
      using l f'(1) s'(1) by (simp_all add: b handles_ae [OF P link_wire(1) [OF l] j] handles_resp_ae [OF P link_wire(2) [OF l] j] in_step_def)
    show "sent f f' [(addr_of s, wire (RESP_APPEND, ser_resp_ae P (answer s f)))]"
      using member_after(6) [OF l(1) f'(2,3)] .
    show "exchanged P m0 s f s' f'" using f' s' by (simp add: exchanged_def)
  qed
qed

lemma turns_unique:
  assumes P: "pb_law P" and A: "asio_law A pend" and j: "clean junk"
    and x: "link_ok P m0 A K (s, f, b)"
    and h: "handles P A junk b f f'" "sent f f' [(addr_of s, r)]" "handles P A junk r s s'"
  shows "exchanged P m0 s f s' f'"
proof -
  have l: "in_step P m0 s f" "link_fits P A s f K" and b: "b = wire (APPEND_ENTRY, ser_ae P (in_flight s (addr_of f)))"
    using x by (simp_all add: link_ok_def)
  have "react2ae P A (in_flight s (addr_of f)) f = Ok f'"
    using h(1) by (simp add: b handles_ae [OF P link_wire(1) [OF l] j])
  then have e: "ae_effect P (in_flight s (addr_of f)) f f'" "raft_inv P m0 f'" "device_ok f'"
    using surelyD [OF member_turn [OF l A]] by auto
  have "r = wire (RESP_APPEND, ser_resp_ae P (answer s f))"
    using sent_unique [OF h(2) member_after(6) [OF l(1) e(1,2)]] by simp
  then have "react2resp_ae P A (answer s f) s = Ok s'"
    using h(3) by (simp add: handles_resp_ae [OF P link_wire(2) [OF l] j])
  then show ?thesis
    using surelyD [OF primary_turn [OF l A]] e by (auto simp: exchanged_def)
qed

lemma complete_sent:
  assumes "in_step P m0 s f" "exchanged P m0 s f s' f'"
  shows "complete s f \<Longrightarrow> sent s s' [] \<and>
      at0 (Follower_saved_index_m s') (addr_of f) = int (length (log_of (entries_m s))) - 1"
    "\<not> complete s f \<Longrightarrow> sent s s' [(addr_of f, wire (APPEND_ENTRY, ser_ae P (in_flight s' (addr_of f))))]"
proof -
  have k: "ack_effect P (addr_of f) (answer s f) s s'" "deal_frame (addr_of f) (rae_ok (answer s f)) s s'"
    using assms(2) by (simp_all add: exchanged_def)
  note p = primary_after [OF assms(1) k refl]
  show "sent s s' [] \<and> at0 (Follower_saved_index_m s') (addr_of f) = int (length (log_of (entries_m s))) - 1"
    if "complete s f" using p(4) that by (simp add: complete_def answer_def)
  show "sent s s' [(addr_of f, wire (APPEND_ENTRY, ser_ae P (in_flight s' (addr_of f))))]"
    if "\<not> complete s f" using p(6) that by (auto simp: complete_def answer_def)
qed

lemma link_exchange:
  assumes "pb_law P" "asio_law A pend" "clean junk" "link_ok P m0 A K (s, f, b)"
    and "exchange P A junk (s, f, b) (s', f', b')"
  shows "todo s' f' < todo s f" "entries_m s' = entries_m s" "addr_of f' = addr_of f"
    "K = Suc L \<Longrightarrow> link_ok P m0 A L (s', f', b')"
proof -
  obtain r where h: "handles P A junk b f f'" "sent f f' [(addr_of s, r)]" "handles P A junk r s s'"
    "sent s s' [(addr_of f, b')]" using assms(5) by (auto elim: exchangeE)
  have x: "exchanged P m0 s f s' f'" by (rule turns_unique [OF assms(1-4) h(1-3)])
  have l: "in_step P m0 s f" "link_fits P A s f K" using assms(4) by (simp_all add: link_ok_def)
  have more: "\<not> complete s f"
  proof
    assume "complete s f"
    then have "sent s s' []" using complete_sent(1) [OF l(1) x] by simp
    from sent_unique [OF h(4) this] show False by simp
  qed
  then have b': "b' = wire (APPEND_ENTRY, ser_ae P (in_flight s' (addr_of f)))"
    using sent_unique [OF h(4) complete_sent(2) [OF l(1) x more]] by simp
  show a: "addr_of f' = addr_of f" and "entries_m s' = entries_m s"
    using x member_after(3) [where P = P and t = f', OF l(1)] by (auto simp: exchanged_def deal_frame_def)
  show "todo s' f' < todo s f" by (rule exchanged_todo [OF l(1) x more])
  show "link_ok P m0 A L (s', f', b')" if "K = Suc L"
    using exchanged_in_step [OF l(1) x more] exchanged_fits [where K = L, OF l(1) x more] l(2) b' a that by (simp add: link_ok_def)
qed

lemma link_last:
  assumes "pb_law P" "asio_law A pend" "clean junk" "link_ok P m0 A K (s, f, b)"
    and "last_exchange P A junk (s, f, b) s' f'"
  shows "entries_m s' = entries_m s \<and>
    take (length (log_of (entries_m s))) (log_of (entries_m f')) = log_of (entries_m s) \<and>
    at0 (Follower_saved_index_m s') (addr_of f) = int (length (log_of (entries_m s))) - 1"
proof -
  obtain r where h: "handles P A junk b f f'" "sent f f' [(addr_of s, r)]" "handles P A junk r s s'"
    "sent s s' []" using assms(5) by (auto elim: last_exchangeE)
  have x: "exchanged P m0 s f s' f'" by (rule turns_unique [OF assms(1-4) h(1-3)])
  have l: "in_step P m0 s f" using assms(4) by (simp add: link_ok_def)
  have "complete s f"
  proof (rule ccontr)
    assume "\<not> complete s f"
    from sent_unique [OF h(4) complete_sent(2) [OF l x this]] show False by simp
  qed
  then show ?thesis
    using complete_sent(1) [OF l x] exchanged_logs(3) [OF l x refl] x by (simp add: exchanged_def deal_frame_def)
qed

lemma todo_bound: "in_step P m0 s f \<Longrightarrow> todo s f \<le> 2 * length (log_of (entries_m s))"
proof -
  assume "in_step P m0 s f"
  then have i: "raft_inv P m0 s" "state_m s = primary" "addr_of f \<in> set (configuration_m s)" by (simp_all add: in_step_def)
  have "nat (at0 (nextIndex_m s) (addr_of f)) \<le> length (log_of (entries_m s))" by (rule in_flight_fields(11) [OF i refl refl])
  then show ?thesis by (auto simp: todo_def Let_def)
qed

text \<open>Any run, as far as it goes.\<close>

lemma runs_bounded:
  assumes "pb_law P" "asio_law A pend" "clean junk"
  shows "(exchange P A junk ^^ k) (s, f, b) (s', f', b') \<Longrightarrow> link_ok P m0 A K (s, f, b) \<Longrightarrow> todo s f \<le> K \<Longrightarrow>
    k \<le> todo s f \<and> link_ok P m0 A (K - k) (s', f', b') \<and> entries_m s' = entries_m s \<and> addr_of f' = addr_of f"
proof (induction k arbitrary: s f b K)
  case (Suc k)
  obtain x where x: "exchange P A junk (s, f, b) x" "(exchange P A junk ^^ k) x (s', f', b')"
    using relpowp_Suc_D2 [OF Suc.prems(1)] by blast
  obtain t g c where "x = (t, g, c)" by (cases x)
  with x have e: "exchange P A junk (s, f, b) (t, g, c)" "(exchange P A junk ^^ k) (t, g, c) (s', f', b')" by simp_all
  note l = link_exchange [OF assms Suc.prems(2) e(1)]
  obtain L where L: "K = Suc L" using l(1) Suc.prems(3) by (cases K) auto
  have "k \<le> todo t g \<and> link_ok P m0 A (L - k) (s', f', b') \<and> entries_m s' = entries_m t \<and> addr_of f' = addr_of g"
    by (rule Suc.IH [OF e(2) l(4) [OF L]]) (use l(1) L Suc.prems(3) in simp)
  with l(1-3) L show ?case by auto
qed simp

text \<open>And it goes to the end.\<close>

lemma run_completes:
  assumes "pb_law P" "asio_law A pend" "clean junk"
  shows "link_ok P m0 A K (s, f, b) \<Longrightarrow> todo s f \<le> K \<Longrightarrow>
    \<exists>k y s' f'. k \<le> todo s f \<and> (exchange P A junk ^^ k) (s, f, b) y \<and> last_exchange P A junk y s' f'"
proof (induction K arbitrary: s f b)
  case 0
  obtain s' f' r where h: "handles P A junk b f f'" "sent f f' [(addr_of s, r)]" "handles P A junk r s s'"
    "exchanged P m0 s f s' f'" by (rule turns_exist [OF assms 0(1)])
  have l: "in_step P m0 s f" using 0(1) by (simp add: link_ok_def)
  have "complete s f" using exchanged_todo [OF l h(4)] 0(2) by auto
  then have "last_exchange P A junk (s, f, b) s' f'"
    using h complete_sent(1) [OF l h(4)] by (intro last_exchange.intros) auto
  then show ?case by (intro exI [of _ 0]) auto
next
  case (Suc K)
  obtain s' f' r where h: "handles P A junk b f f'" "sent f f' [(addr_of s, r)]" "handles P A junk r s s'"
    "exchanged P m0 s f s' f'" by (rule turns_exist [OF assms Suc.prems(1)])
  have l: "in_step P m0 s f" using Suc.prems(1) by (simp add: link_ok_def)
  show ?case
  proof (cases "complete s f")
    case True
    then have "last_exchange P A junk (s, f, b) s' f'"
      using h complete_sent(1) [OF l h(4)] by (intro last_exchange.intros) auto
    then show ?thesis by (intro exI [of _ 0]) auto
  next
    case False
    define b' where "b' = wire (APPEND_ENTRY, ser_ae P (in_flight s' (addr_of f)))"
    have e: "exchange P A junk (s, f, b) (s', f', b')"
      using h complete_sent(2) [OF l h(4) False] by (intro exchange.intros) (auto simp: b'_def)
    note n = link_exchange(4) [OF assms Suc.prems(1) this refl] link_exchange(1) [OF assms Suc.prems(1) this]
    obtain k y t g where "k \<le> todo s' f'" "(exchange P A junk ^^ k) (s', f', b') y" "last_exchange P A junk y t g"
      using Suc.IH [OF n(1)] n(2) Suc.prems(2) by auto
    moreover from this(2) have "(exchange P A junk ^^ Suc k) (s, f, b) y" using e by (rule relpowp_Suc_I2 [rotated])
    ultimately show ?thesis using n(2) by (intro exI [of _ "Suc k"] exI [of _ y]) auto
  qed
qed

section \<open>The member catches up\<close>

text \<open>C3. A primary and one of its members, left alone on their connection while an AppendEntries of the
  primary is on its way, always finish: the member catches up. If their logs match, agree up to what either has recorded as saved or
  committed, and the primary's commit index is the one its bookkeeping justifies, then member and primary keep
  exchanging AppendEntries and answers, each message read from the bytes the other has sent, without an
  exception; the primary falls silent after at most twice as many exchanges as its log has entries; and when it does,
  the member's log begins with the whole log of the primary, which has recorded that.\<close>

theorem member_catches_up:
  assumes "pb_law P" "asio_law A pend" "clean junk" "in_step P m0 s f"
    and "N = length (log_of (entries_m s))" "link_fits P A s f (2 * N)"
    and "b = wire (APPEND_ENTRY, ser_ae P (in_flight s (addr_of f)))"
  shows "(\<exists>k y s' f'. (exchange P A junk ^^ k) (s, f, b) y \<and> last_exchange P A junk y s' f') \<and>
    (\<forall>k y. (exchange P A junk ^^ k) (s, f, b) y \<longrightarrow> k \<le> 2 * N \<and>
       (\<forall>s' f'. last_exchange P A junk y s' f' \<longrightarrow> entries_m s' = entries_m s \<and>
          take N (log_of (entries_m f')) = log_of (entries_m s) \<and>
          at0 (Follower_saved_index_m s') (addr_of f) = int N - 1))"
proof -
  have l: "link_ok P m0 A (2 * N) (s, f, b)" using assms(4,6,7) by (simp add: link_ok_def)
  have t: "todo s f \<le> 2 * N" using todo_bound [OF assms(4)] assms(5) by simp
  have fin: "k \<le> 2 * N \<and> (\<forall>s' f'. last_exchange P A junk y s' f' \<longrightarrow> entries_m s' = entries_m s \<and>
      take N (log_of (entries_m f')) = log_of (entries_m s) \<and>
      at0 (Follower_saved_index_m s') (addr_of f) = int N - 1)"
    if "(exchange P A junk ^^ k) (s, f, b) y" for k y
  proof -
    obtain u g c where y: "y = (u, g, c)" by (cases y)
    have r: "k \<le> todo s f \<and> link_ok P m0 A (2 * N - k) (u, g, c) \<and> entries_m u = entries_m s \<and> addr_of g = addr_of f"
      using runs_bounded [OF assms(1-3) that [unfolded y] l t] .
    have q: "entries_m s' = entries_m s \<and> take N (log_of (entries_m f')) = log_of (entries_m s) \<and>
        at0 (Follower_saved_index_m s') (addr_of f) = int N - 1" if h: "last_exchange P A junk y s' f'" for s' f'
      using link_last [OF assms(1-3) conjunct1 [OF conjunct2 [OF r]] h [unfolded y]] r assms(5) by simp
    show ?thesis using r t q by simp
  qed
  obtain k y s' f' where "(exchange P A junk ^^ k) (s, f, b) y" "last_exchange P A junk y s' f'"
    using run_completes [OF assms(1-3) l t] by blast
  with fin show ?thesis by blast
qed

text \<open>The witness: \<open>primary1\<close>, with two entries, and the freshly started second server, with none. The
  primary has just offered the second entry.\<close>

definition node2 :: "(handler list \<times> bool) RaftServer" where
  "node2 = projr (RaftServer_ctor counting_asio (split_chars []) ''10.0.0.2'' 8002 (Some conf3) empty_log
     fresh_smc (\<lambda>n. 0))"

lemmas node2_eq = node2_def [unfolded RaftServer_ctor_def load_conf3, simplified]

lemma node2_inv: "raft_inv codec [] node2"
proof (rule raft_init_inv)
  show "raft_init counting_asio [] node2"
    unfolding raft_init_def
  proof (intro exI conjI)
    show "RaftServer_ctor counting_asio (split_chars []) ''10.0.0.2'' 8002 (Some conf3) empty_log fresh_smc (\<lambda>n. 0) =
        Inr node2"
      by (simp add: node2_eq RaftServer_ctor_def load_conf3)
    show "SMC_ctor [] 2 1 = Inr fresh_smc" by (simp add: fresh_smc_def SMC_ctor_def)
  qed (simp_all add: node2_eq)
qed

lemma node2_facts:
  "term_m node2 = 0" "state_m node2 = follower" "entries_m node2 = empty_log" "ip_m node2 = ''10.0.0.2''"
  "port_m node2 = 8002" "commit_index_m node2 = -1" "configuration_m node2 = cfg3"
  by (simp_all add: node2_eq)

lemma primary1_addr: "ip_m primary1 = ''10.0.0.1''" "port_m primary1 = 8001"
  by (simp_all add: primary1_def node1_facts)

lemma primary1_saved:
  "at0 (Follower_saved_index_m primary1) v = (if v = (''10.0.0.1'', 8001) then 1 else if v \<in> set cfg3 then -1 else 0)"
  by (auto simp: primary1_def at0_put_all) (simp add: at0_def)

lemma primary1_quorum: "quorum_commit primary1"
proof -
  have "savers primary1 c \<subseteq> {(''10.0.0.1'', 8001)}" if "-1 < c" for c
    using that by (auto simp: savers_def primary1_facts primary1_saved)
  then have "card (savers primary1 c) \<le> 1" if "-1 < c" for c
    using card_mono [of "{(''10.0.0.1'', 8001)}" "savers primary1 c"] that by simp
  moreover have "savers primary1 (-1) = set cfg3"
    by (auto simp: savers_def primary1_facts primary1_saved)
  moreover have "majority_m primary1 = 2" by (simp add: primary1_def node1_facts)
  ultimately show ?thesis by (fastforce simp: quorum_commit_def primary1_facts)
qed

lemma primary1_in_step: "in_step codec [] primary1 node2"
  using primary1_inv node2_inv primary1_quorum
  by (simp add: in_step_def agreed_def primary1_facts node2_facts primary1_addr primary1_saved log_matching_def
      seen_lsn_def device_ok_def) (simp add: empty_log_def)

lemma primary1_link_fits: "link_fits codec counting_asio primary1 node2 4"
proof -
  have ae: "length (ser_ae codec ((ae_at primary1 (''10.0.0.2'', 8002) n c)\<lparr>ae_lsn := l\<rparr>)) < 5120"
    if r: "0 \<le> n" "n \<le> 2" "-1 \<le> c" "c < 2" "0 \<le> l" "l \<le> 5" for n c l
  proof -
    have t: "en_term ([entry0, entry1] ! nat (n - 1)) = 1" if "n \<noteq> 0"
      using that r(1,2) by (cases "n = 1") (auto simp: entry0_def entry1_def)
    have e: "length (enc_list enc_entry (if n < 2 then [[entry0, entry1] ! nat n] else [])) \<le> 40"
      using r(1,2) length_small_int [of 0] length_small_int [of 1]
      by (cases "n = 0"; cases "n = 1") (auto simp: enc_list_def enc_entry_def entry0_def entry1_def length_enc_str)
    show ?thesis
      using e t r length_small_int [of "n - 1"] length_small_int [of c] length_small_int [of 1]
        length_small_int [of "-1"] length_small_int [of 8001] length_small_int [of l]
      by (auto simp: ae_at_def codec_def enc_ae_def length_enc_str primary1_addr primary1_facts)
  qed
  have "length (ser_resp_ae codec \<lparr>rae_ok = ok, rae_term = 1, rae_lsn = l, rae_ip = ''10.0.0.2'',
      rae_port = 8002, rae_is_empty_ae = e\<rparr>) < 5120" if "0 \<le> l" "l \<le> 5" for ok l e
    using that length_small_int [of 1] length_small_int [of l] length_small_int [of 8002]
    by (simp add: codec_def enc_resp_ae_def length_enc_bool length_enc_str)
  then show ?thesis
    using ae by (simp add: link_fits_def primary1_facts primary1_addr node2_facts counting_asio_def)
qed

theorem member_catches_up_witness:
  "\<exists>k y s' f'. k \<le> 4 \<and> (exchange codec counting_asio [] ^^ k)
       (primary1, node2, wire (APPEND_ENTRY, ser_ae codec (in_flight primary1 (addr_of node2)))) y \<and>
     last_exchange codec counting_asio [] y s' f' \<and> take 2 (log_of (entries_m f')) = [entry0, entry1]"
proof -
  have c: "clean []" and n: "2 = length (log_of (entries_m primary1))"
    and f: "link_fits codec counting_asio primary1 node2 (2 * 2)"
    using primary1_link_fits by (simp_all add: clean_def primary1_facts)
  note m = member_catches_up [OF codec_law counting_asio_law c primary1_in_step n f refl]
  obtain k y s' f' where x: "(exchange codec counting_asio [] ^^ k)
       (primary1, node2, wire (APPEND_ENTRY, ser_ae codec (in_flight primary1 (addr_of node2)))) y"
     "last_exchange codec counting_asio [] y s' f'" using m by blast
  then have "k \<le> 2 * 2" "take 2 (log_of (entries_m f')) = log_of (entries_m primary1)" using m by blast+
  with x show ?thesis by (intro exI [of _ k] exI [of _ y] exI [of _ s'] exI [of _ f']) (simp add: primary1_facts)
qed

end
