(* ===== verification/Raft_Cluster.thy ===== *)
theory Raft_Cluster
  imports Raft_CatchUp
begin

text \<open>
  The whole cluster: every member's server process, and between each two of them the messages under
  way, which arrive in the order they were sent (one TCP connection), any time later or never. The
  locale \<open>invariant_system\<close> is interpreted once more, on the invariant that every member satisfies
  \<open>raft_inv\<close> and that every message under way is one its sender could have built.
\<close>

section \<open>Messages of a server\<close>

text \<open>What a server may say in term \<open>T\<close>: requests and answers that bear its address and no later term;
  the AppendEntries are well-formed.\<close>

fun msg_typed :: "pb \<Rightarrow> endpoint \<Rightarrow> int \<Rightarrow> RPC_TYPE \<times> string \<Rightarrow> bool" where
  "msg_typed P v T (REQUEST_VOTE, m) = (\<exists>r. m = ser_rv P r \<and> (rv_ip r, rv_port r) = v \<and> rv_term r \<le> T)"
| "msg_typed P v T (APPEND_ENTRY, m) = (\<exists>r. m = ser_ae P r \<and> (ae_ip r, ae_port r) = v \<and> ae_term r \<le> T \<and> ae_wf r)"
| "msg_typed P v T (RESP_VOTE, m) = (\<exists>r. m = ser_resp_rv P r \<and> (rrv_ip r, rrv_port r) = v \<and> rrv_term r \<le> T)"
| "msg_typed P v T (RESP_APPEND, m) = (\<exists>r. m = ser_resp_ae P r \<and> (rae_ip r, rae_port r) = v \<and> rae_term r \<le> T)"
| "msg_typed P v T (RESP_CLIENT_APPLY, m) = True"
| "msg_typed P v T (RESP_CLIENT_QUERY, m) = True"
| "msg_typed P v T (ty, m) = False"

lemma msg_typedI:
  "(rv_ip rv, rv_port rv) = v \<Longrightarrow> rv_term rv \<le> T \<Longrightarrow> msg_typed P v T (REQUEST_VOTE, ser_rv P rv)"
  "(ae_ip ae, ae_port ae) = v \<Longrightarrow> ae_term ae \<le> T \<Longrightarrow> ae_wf ae \<Longrightarrow> msg_typed P v T (APPEND_ENTRY, ser_ae P ae)"
  "(rrv_ip r, rrv_port r) = v \<Longrightarrow> rrv_term r \<le> T \<Longrightarrow> msg_typed P v T (RESP_VOTE, ser_resp_rv P r)"
  "(rae_ip a, rae_port a) = v \<Longrightarrow> rae_term a \<le> T \<Longrightarrow> msg_typed P v T (RESP_APPEND, ser_resp_ae P a)"
  by auto

lemma msg_typed_mono: "msg_typed P v T x \<Longrightarrow> T \<le> U \<Longrightarrow> msg_typed P v U x"
  by (induction P v T x rule: msg_typed.induct) auto

text \<open>A handler that says only such things, and does not change the server's identity.\<close>

definition typed_sends :: "pb \<Rightarrow> 't RaftServer \<Rightarrow> 't RaftServer \<Rightarrow> bool" where
  "typed_sends P s t \<longleftrightarrow> configuration_m t = configuration_m s \<and> addr_of t = addr_of s \<and>
     (\<exists>xs. sent s t (map (\<lambda>(w, x). (w, wire x)) xs) \<and> (\<forall>(w, x) \<in> set xs. msg_typed P (addr_of t) (term_m t) x))"

lemma typed_quiet:
  "configuration_m t = configuration_m s \<Longrightarrow> addr_of t = addr_of s \<Longrightarrow> sent s t [] \<Longrightarrow> typed_sends P s t"
  unfolding typed_sends_def by (intro conjI exI [of _ "[]"]) simp_all

lemma typed_one:
  "configuration_m t = configuration_m s \<Longrightarrow> addr_of t = addr_of s \<Longrightarrow> sent s t [(w, wire x)] \<Longrightarrow>
   msg_typed P (addr_of t) (term_m t) x \<Longrightarrow> typed_sends P s t"
  unfolding typed_sends_def by (intro conjI exI [of _ "[(w, x)]"]) simp_all

lemma typed_round:
  assumes "configuration_m t = configuration_m s" "addr_of t = addr_of s" "sent s t (map (\<lambda>v. (v, wire (f v))) vs)"
    and "\<And>v. v \<in> set vs \<Longrightarrow> msg_typed P (addr_of t) (term_m t) (f v)"
  shows "typed_sends P s t"
proof -
  have "sent s t (map (\<lambda>(w, x). (w, wire x)) (map (\<lambda>v. (v, f v)) vs))" using assms(3) by (simp add: comp_def)
  then show ?thesis
    using assms(1,2,4) unfolding typed_sends_def by (intro conjI exI [of _ "map (\<lambda>v. (v, f v)) vs"]) auto
qed

lemma typed_cong:
  assumes "typed_sends P s t" "configuration_m s = configuration_m r" "addr_of s = addr_of r" "network_m s = network_m r"
  shows "typed_sends P r t"
  using assms sent_cong [of s r t t] unfolding typed_sends_def by auto

section \<open>Every handler\<close>

lemma ae_at_wf:
  assumes "raft_inv P m0 s" "0 \<le> n"
  shows "ae_wf (ae_at s v n c)"
proof -
  have "en_index (log_of (entries_m s) ! nat n) = n" if "n < Entries_size (entries_m s)"
    using assms that raft_inv_log(2) [OF assms(1)] by (simp add: raft_inv_def log_inv_def)
  then show ?thesis using assms(2) by (auto simp: ae_wf_def ae_at_def)
qed

lemma build_ae_at:
  assumes "raft_inv P m0 s" "fst (build_rpc_ae v s) = Inr ae"
  shows "0 \<le> at0 (nextIndex_m s) v" "at0 (nextIndex_m s) v \<le> Entries_size (entries_m s)"
    "ae = ae_at s v (at0 (nextIndex_m s) v) (commit_index_m s)" "ae_to s v = ae"
proof -
  let ?n = "at0 (nextIndex_m s) v"
  note l = raft_inv_log [OF assms(1)]
  show n0: "0 \<le> ?n" using assms(1) unfolding raft_inv_def book_inv_def by blast
  show n: "?n \<le> Entries_size (entries_m s)"
  proof (rule ccontr)
    assume "\<not> ?n \<le> Entries_size (entries_m s)"
    then have "0 < ?n" "Entries_get (entries_m s) (?n - 1) = Inl Entries_get_range"
      using n0 by (simp_all add: Entries_get_def Entries_size_def) (use l(2) in \<open>simp add: Entries_size_def\<close>)
    then show False using assms(2) by (simp add: build_rpc_ae_def Let_def)
  qed
  show "ae = ae_at s v ?n (commit_index_m s)"
    using build_rpc_ae_spec [OF l(1) refl n0 n] assms(2) by (simp add: ae_at_def)
  show "ae_to s v = ae" using assms(2) by (simp add: ae_to_def)
qed

lemma build_ae_wf:
  assumes "raft_inv P m0 s" "fst (build_rpc_ae v s) = Inr ae"
  shows "ae_wf ae" "(ae_ip ae, ae_port ae) = addr_of s" "ae_term ae = term_m s" "ae_to s v = ae"
  using build_ae_at [OF assms] ae_at_wf [OF assms(1)] by (simp_all add: ae_at_def)

lemma AE_typed:
  assumes "raft_inv P m0 s"
  shows "okp (typed_sends P s) (AE P A v s)"
proof (cases "fst (build_rpc_ae v s)")
  case (Inl e)
  then show ?thesis by (simp add: AE_def split_def Let_def)
next
  case (Inr ae)
  note b = build_ae_wf [OF assms Inr]
  have "okp (\<lambda>t. frame s t \<and> sent s t [(v, wire (APPEND_ENTRY, ser_ae P ae))]) (AE P A v s)"
    unfolding okp_conj using AE_sends [OF raft_inv_log(5) [OF assms], of v P A] frame_AE [of s P A v] b(4)
    by (simp add: okp_conj)
  then show ?thesis
    by (rule okp_mono) (rule typed_one, use b in \<open>auto intro!: msg_typedI simp del: msg_typed.simps simp: log_frame_def vote_frame_def\<close>)
qed

lemma RV_typed:
  assumes "raft_inv P m0 s"
  shows "okp (typed_sends P s) (RV P A v s)"
proof -
  have "okp (\<lambda>t. frame s t \<and> sent s t [(v, wire (REQUEST_VOTE, ser_rv P (rv_to s v)))]) (RV P A v s)"
    unfolding okp_conj using RV_sends [OF raft_inv_log(5) [OF assms], of v P A] frame_RV [of s P A v]
    by (simp add: okp_conj)
  then show ?thesis
    by (rule okp_mono) (rule typed_one, auto intro!: msg_typedI simp del: msg_typed.simps simp: log_frame_def vote_frame_def rv_to_def build_rpc_rv_def Let_def)
qed

lemma trans2F_typed: "okp (typed_sends P s) (trans2F A T s)"
  using conjI [OF trans2F_effect [of s T A] trans2F_keeps [of s T A], folded okp_conj]
  by (rule okp_mono) (auto intro!: typed_quiet sent_same simp: log_frame_def)

lemma trans2C_typed:
  assumes "raft_inv P m0 s"
  shows "okp (typed_sends P s) (trans2C P A s)"
proof -
  have c: "rpc_inv (network_m s)" "distinct (configuration_m s)"
    using assms by (simp_all add: raft_inv_def conf_inv_def)
  show ?thesis
    using conjI [OF trans2C_effect [of s P A] trans2C_sends [OF c, of P A], folded okp_conj]
    by (rule okp_mono) (rule typed_round [where vs = "others s"], auto intro!: msg_typedI simp del: msg_typed.simps simp: log_frame_def candidate_rv_def)
qed

lemma heartbeat_wf: "ae_wf (heartbeat s v)" if "entries_inv (entries_m s)"
  using entries.size_log [OF that] by (auto simp: ae_wf_def heartbeat_def)

lemma trans2P_typed:
  assumes "raft_inv P m0 s"
  shows "okp (typed_sends P s) (trans2P P A s)"
proof -
  have c: "rpc_inv (network_m s)" "distinct (configuration_m s)" "entries_inv (entries_m s)"
    using assms by (simp_all add: raft_inv_def conf_inv_def log_inv_def)
  have f: "okp (frame (primary_state A s)) (trans2P P A s)"
    unfolding trans2P_eq by (intro frame_for_others frame_AE)
  show ?thesis
    using conjI [OF f trans2P_sends [OF c, of P A], folded okp_conj]
  proof (rule okp_mono)
    fix t assume t: "frame (primary_state A s) t \<and> sent s t (map (\<lambda>v. (v, wire (APPEND_ENTRY, ser_ae P (heartbeat s v)))) (others s))"
    then have "configuration_m t = configuration_m s" "addr_of t = addr_of s" "term_m t = term_m s"
      by (simp_all add: log_frame_def vote_frame_def primary_state_def cancel_all_timers_def)
    then show "typed_sends P s t"
      using t by (intro typed_round [where vs = "others s" and f = "\<lambda>v. (APPEND_ENTRY, ser_ae P (heartbeat s v))"] msg_typedI heartbeat_wf [OF c(3)])
        (simp_all add: heartbeat_def)
  qed
qed

lemma react2ae_typed:
  assumes "raft_inv P m0 s" "has_room s"
  shows "okp (typed_sends P s) (react2ae P A ae s)"
proof (rule okp_mono [OF react2ae_effect [OF raft_inv_log(1) [OF assms(1)] assms(2) raft_inv_log(5) [OF assms(1)]]])
  fix t assume e: "ae_effect P ae s t"
  have "typed_sends P s t" if "sent s t [ae_reply P s ae b]" "configuration_m t = configuration_m s" "addr_of t = addr_of s"
    "term_m t = max (term_m s) (ae_term ae)" for b
    using that by (intro typed_one [where w = "(ae_ip ae, ae_port ae)"]) (auto intro!: msg_typedI simp del: msg_typed.simps simp: ae_reply_def)
  then show "typed_sends P s t"
    using e by (auto simp: ae_effect_def log_frame_def vote_frame_def accepted_def intro: typed_quiet split: if_splits)
qed

lemma react2rv_typed:
  assumes "raft_inv P m0 s"
  shows "okp (typed_sends P s) (react2rv P A rv s)"
proof (rule okp_mono [OF react2rv_effect [OF raft_inv_log(1,5) [OF assms]]])
  fix t assume e: "vote_effect P rv s t"
  have "typed_sends P s t" if "sent s t [vote_reply P s rv b]" for b
    using that e by (intro typed_one [where w = "(rv_ip rv, rv_port rv)"]) (auto intro!: msg_typedI simp del: msg_typed.simps simp: vote_reply_def vote_effect_def log_frame_def)
  then show "typed_sends P s t"
    using e by (auto simp: vote_effect_def vote_replies_def log_frame_def intro: typed_quiet split: if_splits)
qed

lemma react2resp_ae_typed:
  assumes "raft_inv P m0 s"
  shows "okp (typed_sends P s) (react2resp_ae P A r s)"
proof -
  let ?v = "(rae_ip r, rae_port r)"
  have deal: "okp (typed_sends P s) (primary_deal_resp_ae_with_same_term P A ?v r s)" if p: "state_m s = primary"
  proof (rule okp_mono)
    show "okp (\<lambda>t. ack_effect P ?v r s t \<and> deal_frame ?v (rae_ok r) s t) (primary_deal_resp_ae_with_same_term P A ?v r s)"
      unfolding okp_conj using primary_deal_effect [OF assms p] deal_frame_effect by blast
    fix t assume t: "ack_effect P ?v r s t \<and> deal_frame ?v (rae_ok r) s t"
    then have d: "configuration_m t = configuration_m s" "addr_of t = addr_of s" "term_m t = term_m s"
      by (simp_all add: deal_frame_def vote_frame_def)
    have "0 \<le> at0 (nextIndex_m s) ?v" using assms unfolding raft_inv_def book_inv_def by blast
    moreover have "typed_sends P s t" if x: "sends_ae P ?v n c s t" "0 \<le> n" for n c
      using x(1) d by (intro typed_one [where w = ?v and x = "(APPEND_ENTRY, ser_ae P (ae_at s ?v n c))"] msg_typedI ae_at_wf [OF assms x(2)])
        (simp_all add: sends_ae_def ae_at_def)
    ultimately show "typed_sends P s t"
      using t d by (auto simp: ack_effect_def Let_def intro: typed_quiet split: if_splits)
  qed
  show ?thesis
    using trans2F_typed [of P s A "rae_term r"] deal
    by (auto simp: react2resp_ae_def Let_def intro: typed_quiet sent_same)
qed

lemma react2resp_rv_typed:
  assumes "raft_inv P m0 s"
  shows "okp (typed_sends P s) (react2resp_rv P A r s)"
proof -
  let ?v = "(rrv_ip r, rrv_port r)"
  have win: "okp (typed_sends P s) (trans2P P A (s\<lparr>current_rpc_lsn_m := l, winned_votes_m := w\<rparr>))" for l w
  proof -
    have "raft_inv P m0 (s\<lparr>current_rpc_lsn_m := l, winned_votes_m := w\<rparr>)"
      using assms by (simp add: raft_inv_def conf_inv_def log_inv_def book_inv_def)
    from trans2P_typed [OF this, of A] show ?thesis by (rule okp_mono) (erule typed_cong, simp_all)
  qed
  have "okp (typed_sends P s) (candidate_deal_resp_rv_with_same_term P A ?v r s)"
    unfolding candidate_deal_resp_rv_with_same_term_def Let_def okp_if
    using win by (auto intro!: typed_quiet sent_same split: option.splits)
  then show ?thesis
    using trans2F_typed [of P s A "rrv_term r"]
    by (auto simp: react2resp_rv_def Let_def intro: typed_quiet sent_same)
qed

lemma client_typed:
  assumes "raft_inv P m0 s" "has_room s"
  shows "okp (typed_sends P s) (append_client_apply_to_entries P c str s)"
    "okp (typed_sends P s) (get_from_state_machine c str s)"
proof -
  show "okp (typed_sends P s) (get_from_state_machine c str s)"
    by (auto simp: get_from_state_machine_def okp_map_outcome intro!: okpI typed_quiet sent_same)
  have "okp (\<lambda>t. typed_sends P s (t\<lparr>Follower_saved_index_m := f t\<rparr>)) (insert_entry P i e (s\<lparr>entryIndex_to_socketAddr_map_m := m\<rparr>))"
    for i e m f
    by (auto simp: insert_entry_def okp_map_outcome intro!: okpI typed_quiet sent_same)
  then show "okp (typed_sends P s) (append_client_apply_to_entries P c str s)"
    by (simp add: append_client_apply_to_entries_def Let_def wp)
qed

lemma timer_typed:
  assumes "raft_inv P m0 s"
  shows "okp (typed_sends P s) (timer_handler P A h err s)"
proof -
  have "typed_sends P s s" by (intro typed_quiet sent_same) simp_all
  then show ?thesis
    using trans2C_typed [OF assms, of A] AE_typed [OF assms] RV_typed [OF assms]
    by (cases h) (simp_all add: run_handler_def trans2F_handler_def trans2C_handler_def AE_retry_handler_def
        RV_retry_handler_def wp split: error_code.splits option.splits)
qed

lemma posted_typed:
  assumes "raft_inv P m0 s"
  shows "okp (typed_sends P s) (server_step P A (Posted p) s)"
proof -
  have "typed_sends P s s" by (intro typed_quiet sent_same) simp_all
  moreover have "okp (typed_sends P s) (net_call P A ty v m s)" if "ty = RESP_CLIENT_APPLY \<or> ty = RESP_CLIENT_QUERY" for ty v m
    by (rule okp_mono [OF net_call_sends [OF raft_inv_log(5) [OF assms]]])
      (rule typed_one [where w = v and x = "(ty, m)"], use that in auto)
  ultimately show ?thesis
    by (auto simp: write_resp_apply_call_def write_resp_query_call_def split: post.splits option.splits)
qed

theorem server_step_typed:
  assumes "raft_inv P m0 s" "has_room s"
  shows "okp (typed_sends P s) (server_step P A ev s)"
proof (cases ev)
  case (Incoming ty m peer)
  have "typed_sends P s s" by (intro typed_quiet sent_same) simp_all
  then show ?thesis
    using react2ae_typed [OF assms] react2rv_typed [OF assms(1)] react2resp_ae_typed [OF assms(1)]
      react2resp_rv_typed [OF assms(1)] client_typed [OF assms] Incoming
    by (simp add: reactToIncomingMsg_def)
next
  case (Timer_event h err)
  then show ?thesis using timer_typed [OF assms(1)] by simp
next
  case (Posted p)
  then show ?thesis using posted_typed [OF assms(1)] by simp
qed

section \<open>The cluster\<close>

text \<open>The members' states, and the messages under way with sender and receiver, oldest first.\<close>

type_synonym 't cluster = "(endpoint \<Rightarrow> 't RaftServer) \<times> (endpoint \<times> endpoint \<times> string) list"

definition outgoing :: "endpoint \<Rightarrow> (endpoint \<times> string) list \<Rightarrow> (endpoint \<times> endpoint \<times> string) list" where
  "outgoing v ms = map (\<lambda>(w, b). (v, w, b)) ms"

text \<open>The next message from \<open>v\<close> to \<open>w\<close> is the first one with these two addresses.\<close>

definition next_message :: "endpoint \<Rightarrow> endpoint \<Rightarrow> string \<Rightarrow> (endpoint \<times> endpoint \<times> string) list \<Rightarrow>
    (endpoint \<times> endpoint \<times> string) list \<Rightarrow> bool" where
  "next_message v w b net rest \<longleftrightarrow>
     (\<exists>xs ys. net = xs @ (v, w, b) # ys \<and> rest = xs @ ys \<and> (\<forall>(v', w', b') \<in> set xs. (v', w') \<noteq> (v, w)))"

fun from_network :: "event \<Rightarrow> bool" where
  "from_network (Incoming ty m peer) = (ty \<notin> {CLIENT_APPLY, CLIENT_QUERY})"
| "from_network ev = False"

text \<open>A member receives a message of another one, or handles something else (a client's message, a timer,
  a posted call), or starts, or its other threads and sockets make a step; or a message is lost. The label
  names the events that do not come from another member. A handler that throws ends its process; the
  messages it has handed to its sockets before are taken to be lost.\<close>

inductive cluster_move :: "pb \<Rightarrow> 't asio \<Rightarrow> string \<Rightarrow> endpoint list \<Rightarrow> (endpoint \<times> event) option \<Rightarrow>
    't cluster \<Rightarrow> 't cluster \<Rightarrow> bool" for P A junk cfg where
  receive: "w \<in> set cfg \<Longrightarrow> next_message v w b net rest \<Longrightarrow> handles P A junk b (\<sigma> w) t \<Longrightarrow> sent (\<sigma> w) t ms \<Longrightarrow>
    cluster_move P A junk cfg None (\<sigma>, net) (\<sigma>(w := t), rest @ outgoing w ms)"
| local_event: "w \<in> set cfg \<Longrightarrow> \<not> from_network ev \<Longrightarrow> has_room (\<sigma> w) \<Longrightarrow> server_step P A ev (\<sigma> w) = Ok t \<Longrightarrow>
    sent (\<sigma> w) t ms \<Longrightarrow> cluster_move P A junk cfg (Some (w, ev)) (\<sigma>, net) (\<sigma>(w := t), net @ outgoing w ms)"
| start: "w \<in> set cfg \<Longrightarrow> run A (\<sigma> w) = Ok t \<Longrightarrow> cluster_move P A junk cfg None (\<sigma>, net) (\<sigma>(w := t), net)"
| other: "w \<in> set cfg \<Longrightarrow> background P (\<sigma> w) t \<Longrightarrow> cluster_move P A junk cfg None (\<sigma>, net) (\<sigma>(w := t), net)"
| lose: "next_message v w b net rest \<Longrightarrow> cluster_move P A junk cfg None (\<sigma>, net) (\<sigma>, rest)"

definition cluster_step :: "pb \<Rightarrow> 't asio \<Rightarrow> string \<Rightarrow> endpoint list \<Rightarrow> 't cluster \<Rightarrow> 't cluster \<Rightarrow> bool" where
  "cluster_step P A junk cfg x y \<longleftrightarrow> (\<exists>l. cluster_move P A junk cfg l x y)"

lemma cluster_stepI: "cluster_move P A junk cfg l x y \<Longrightarrow> cluster_step P A junk cfg x y"
  by (auto simp: cluster_step_def)

definition cluster_init :: "'t asio \<Rightarrow> mock_state_machine \<Rightarrow> endpoint list \<Rightarrow> 't cluster \<Rightarrow> bool" where
  "cluster_init A m0 cfg x \<longleftrightarrow> snd x = [] \<and>
     (\<forall>v \<in> set cfg. raft_init A m0 (fst x v) \<and> addr_of (fst x v) = v \<and> configuration_m (fst x v) = cfg)"

definition message_ok :: "pb \<Rightarrow> endpoint list \<Rightarrow> (endpoint \<Rightarrow> 't RaftServer) \<Rightarrow> endpoint \<times> endpoint \<times> string \<Rightarrow> bool" where
  "message_ok P cfg \<sigma> m = (case m of (v, w, b) \<Rightarrow>
     v \<in> set cfg \<and> (\<exists>x. b = wire x \<and> msg_typed P v (term_m (\<sigma> v)) x))"

definition cluster_inv :: "pb \<Rightarrow> mock_state_machine \<Rightarrow> endpoint list \<Rightarrow> 't cluster \<Rightarrow> bool" where
  "cluster_inv P m0 cfg x \<longleftrightarrow>
     (\<forall>v \<in> set cfg. raft_inv P m0 (fst x v) \<and> addr_of (fst x v) = v \<and> configuration_m (fst x v) = cfg) \<and>
     (\<forall>m \<in> set (snd x). message_ok P cfg (fst x) m)"

lemma cluster_inv_update:
  assumes inv: "cluster_inv P m0 cfg (\<sigma>, net)" and w: "w \<in> set cfg" and t: "raft_inv P m0 t"
    and same: "configuration_m t = configuration_m (\<sigma> w)" "addr_of t = addr_of (\<sigma> w)" "term_m (\<sigma> w) \<le> term_m t"
    and net: "set net' \<subseteq> set net \<union> new" and new: "\<And>m. m \<in> new \<Longrightarrow> message_ok P cfg (\<sigma>(w := t)) m"
  shows "cluster_inv P m0 cfg (\<sigma>(w := t), net')"
proof -
  have "message_ok P cfg (\<sigma>(w := t)) m" if "m \<in> set net" for m
  proof -
    obtain v u b where m: "m = (v, u, b)" by (cases m)
    have "message_ok P cfg \<sigma> m" using inv that by (simp add: cluster_inv_def)
    then obtain x where x: "v \<in> set cfg" "b = wire x" "msg_typed P v (term_m (\<sigma> v)) x" by (auto simp: message_ok_def m)
    moreover have "msg_typed P v (term_m ((\<sigma>(w := t)) v)) x"
      using same(3) msg_typed_mono [OF x(3)] x(3) by (cases "v = w") simp_all
    ultimately show ?thesis unfolding message_ok_def m by blast
  qed
  then show ?thesis
    using inv w t same(1,2) net new by (auto simp: cluster_inv_def)
qed

lemma cluster_inv_handler:
  assumes inv: "cluster_inv P m0 cfg (\<sigma>, net)" and w: "w \<in> set cfg" "has_room (\<sigma> w)"
    and s: "server_step P A ev (\<sigma> w) = Ok t" "sent (\<sigma> w) t ms" and net: "set rest \<subseteq> set net"
  shows "cluster_inv P m0 cfg (\<sigma>(w := t), rest @ outgoing w ms)"
proof -
  have i: "raft_inv P m0 (\<sigma> w)" "addr_of (\<sigma> w) = w" using inv w by (simp_all add: cluster_inv_def)
  have t: "raft_inv P m0 t" "typed_sends P (\<sigma> w) t" "term_m (\<sigma> w) \<le> term_m t"
    using okpD [OF server_step_inv [OF i(1) w(2)] s(1)] okpD [OF server_step_typed [OF i(1) w(2)] s(1)]
      okpD [where Q = "election_step P ev (\<sigma> w)", OF server_step_election s(1)] by (simp_all add: election_step_def)
  then obtain xs where xs: "sent (\<sigma> w) t (map (\<lambda>(w, x). (w, wire x)) xs)" "addr_of t = w"
    "\<forall>(u, x) \<in> set xs. msg_typed P w (term_m t) x" using i(2) by (auto simp: typed_sends_def)
  then have ms: "ms = map (\<lambda>(w, x). (w, wire x)) xs" using sent_unique [OF s(2)] by blast
  show ?thesis
  proof (rule cluster_inv_update [OF inv w(1) t(1) _ _ t(3)])
    show "configuration_m t = configuration_m (\<sigma> w)" "addr_of t = addr_of (\<sigma> w)"
      using t(2) by (simp_all add: typed_sends_def)
    show "set (rest @ outgoing w ms) \<subseteq> set net \<union> set (outgoing w ms)" using net by auto
    show "message_ok P cfg (\<sigma>(w := t)) m" if "m \<in> set (outgoing w ms)" for m
    proof -
      obtain u x where "m = (w, u, wire x)" "(u, x) \<in> set xs" using \<open>m \<in> set (outgoing w ms)\<close>
        unfolding outgoing_def ms by auto
      moreover from this(2) have "msg_typed P w (term_m t) x" using xs(3) by blast
      ultimately show ?thesis using w(1) by (cases x) (auto simp: message_ok_def)
    qed
  qed
qed

lemma cluster_move_inv:
  assumes "cluster_inv P m0 cfg x" "cluster_move P A junk cfg l x y"
  shows "cluster_inv P m0 cfg y"
  using assms(2,1)
proof cases
  case (receive w v b net rest \<sigma> t ms)
  have "set rest \<subseteq> set net" using receive(5) by (auto simp: next_message_def)
  with receive assms(1) cluster_inv_handler show ?thesis unfolding handles_def by metis
next
  case (local_event w ev \<sigma> t ms net)
  with assms(1) cluster_inv_handler show ?thesis by (metis order_refl)
next
  case (start w \<sigma> t net)
  then have i: "raft_inv P m0 (\<sigma> w)" using assms(1) by (simp add: cluster_inv_def)
  have t: "raft_inv P m0 t" using okpD [OF run_inv [OF i] start(5)] .
  have "okp (frame (\<sigma> w\<lparr>network_m := startAccept (network_m (\<sigma> w))\<rparr>)) (run A (\<sigma> w))"
    unfolding run_def by (rule frame_arm)
  then have "configuration_m t = configuration_m (\<sigma> w)" "addr_of t = addr_of (\<sigma> w)" "term_m (\<sigma> w) \<le> term_m t"
    using start(5) by (simp_all add: log_frame_def vote_frame_def)
  then show ?thesis unfolding start(3) using start(2,4) assms(1) t
    by (intro cluster_inv_update [where new = "{}" and net = net]) auto
next
  case (other w \<sigma> t net)
  then have i: "raft_inv P m0 (\<sigma> w)" using assms(1) by (simp add: cluster_inv_def)
  have "addr_of t = addr_of (\<sigma> w)" using other(5) by cases simp_all
  then show ?thesis
    unfolding other(3) using other(2,4) assms(1) background_inv [OF i other(5)] background_keeps(1,2) [OF other(5)]
    by (intro cluster_inv_update [where new = "{}" and net = net]) (auto simp: vote_frame_def)
next
  case (lose v w b net rest \<sigma>)
  then have "set rest \<subseteq> set net" by (auto simp: next_message_def)
  with lose assms(1) show ?thesis by (auto simp: cluster_inv_def)
qed

lemma cluster_step_inv: "cluster_inv P m0 cfg x \<Longrightarrow> cluster_step P A junk cfg x y \<Longrightarrow> cluster_inv P m0 cfg y"
  by (auto simp: cluster_step_def intro: cluster_move_inv)

lemma cluster_init_inv: "cluster_init A m0 cfg x \<Longrightarrow> cluster_inv P m0 cfg x"
  by (auto simp: cluster_init_def cluster_inv_def raft_init_inv)

interpretation cluster: invariant_system "cluster_init A m0 cfg" "cluster_step P A junk cfg" "cluster_inv P m0 cfg"
  for P A m0 junk cfg
  by unfold_locales (blast intro: cluster_init_inv cluster_step_inv)+

section \<open>Malformed requests do not happen\<close>

text \<open>Exceptions a computation does not end with.\<close>

primrec spares :: "exn set \<Rightarrow> 's outcome \<Rightarrow> bool" where
  "spares E (Ok s) = True"
| "spares E (Throw e s) = (e \<notin> E)"

lemma spares_seq: "spares E (seq m f) = (spares E m \<and> okp (\<lambda>s. spares E (f s)) m)"
  by (cases m) simp_all

lemma spares_map: "spares E (map_outcome f m) = spares E m"
  by (cases m) simp_all

lemma spares_surely: "surely Q m \<Longrightarrow> spares E m"
  by (cases m) simp_all

text \<open>The \<^verbatim>\<open>throw_line\<close>s that guard against a malformed AppendEntries.\<close>

definition malformed :: "exn set" where
  "malformed = {Entry_size_gt_1, Bad_prelog_term, Bad_entry_index}"

lemma in_malformed: "e \<in> malformed \<longleftrightarrow> e = Entry_size_gt_1 \<or> e = Bad_prelog_term \<or> e = Bad_entry_index"
  by (simp add: malformed_def)

lemma net_call_spares: "spares malformed (net_call P A ty v m s)"
  by (simp add: net_call_def spares_map make_rpc_call_cases Let_def in_malformed split: option.split)

lemma tail_spares:
  assumes "entries_inv (entries_m s)" "smc_inv P' m0 fin (smc_m s)"
  shows "spares malformed (seq (follower_update_commit_index c s) (make_resp_ae P A b v l e))"
  unfolding spares_seq follower_update_eq [OF assms refl]
  by (simp add: make_resp_ae_def net_call_spares) (simp add: in_malformed)

lemma accept_ae_spares:
  assumes "entries_inv (entries_m s)" "smc_inv P' m0 fin (smc_m s)" "has_room s" "ae_wf ae"
    "log_matches ae (log_of (entries_m s))"
  shows "spares malformed (accept_ae P A ae s)"
proof (cases "ae_entry ae")
  case Nil
  then show ?thesis
    using tail_spares [OF assms(1,2)] by (simp add: accept_ae_def Let_def) (simp add: in_malformed)
next
  case (Cons x xs)
  let ?i = "ae_prelog_index ae + 1"
  have x: "en_index x = ?i" using assms(4) Cons by (simp add: ae_wf_def)
  have i: "0 \<le> ?i" "?i \<le> Entries_size (entries_m s)"
    using assms(5) entries.size_log [OF assms(1)] by (auto simp: log_matches_def)
  have "spares malformed (insert_entry P j x s)" if "0 \<le> j" "j \<le> Entries_size (entries_m s)" for j
    using assms(1,3) that
    by (simp add: insert_entry_def spares_map Entries_insert_eq Entries_size_def spares_seq)
      (simp add: write_from_offset_def Let_def in_malformed)
  moreover have "okp (\<lambda>t. spares malformed (seq (follower_update_commit_index (ae_commit_index ae) t)
      (make_resp_ae P A True (ae_ip ae, ae_port ae) (ae_lsn ae) False))) (insert_entry P ?i x s)"
    by (rule okp_mono [OF insert_entry_effect [OF assms(1,3) i]]) (use assms(2) in \<open>auto intro!: tail_spares\<close>)
  ultimately show ?thesis using Cons x i by (simp add: accept_ae_def Let_def spares_seq del: of_int_add)
qed

lemma ae_body_spares:
  assumes "entries_inv (entries_m s)" "smc_inv P' m0 fin (smc_m s)" "has_room s" "ae_wf ae"
  shows "spares malformed (ae_body P A ae s)"
proof -
  obtain ign u where u: "should_ignore_remote_rpc (ae_ip ae, ae_port ae) (ae_lsn ae) s = (ign, u)" by fastforce
  have "frame s u" using frame_should_ignore [of s "(ae_ip ae, ae_port ae)" "ae_lsn ae"] u by simp
  then have k: "entries_m u = entries_m s" "smc_m u = smc_m s" by (simp_all add: log_frame_def)
  have yes: "spares malformed (accept_ae P A ae u)" if "log_matches ae (log_of (entries_m s))"
    using accept_ae_spares [of u P' m0 fin ae P A] assms k that by simp
  have no: "spares malformed (make_resp_ae P A False (ae_ip ae, ae_port ae) (ae_lsn ae) (ae_entry ae = []) u)"
    by (simp add: make_resp_ae_def net_call_spares)
  show ?thesis
  proof (cases "ign \<or> ae_prelog_index ae = -1 \<or> Entries_size (entries_m s) \<le> ae_prelog_index ae")
    case True
    then show ?thesis using u k yes no assms(4) by (auto simp: ae_body_def ae_wf_def log_matches_def)
  next
    case False
    then have i: "0 \<le> ae_prelog_index ae" "ae_prelog_index ae < Entries_size (entries_m s)"
      using assms(4) by (auto simp: ae_wf_def)
    show ?thesis
      using False u k yes no i entries.get_log [OF assms(1) i] entries.size_log [OF assms(1)]
      by (auto simp: ae_body_def log_matches_def)
  qed
qed

lemma react2ae_spares:
  assumes "raft_inv P' m0 s" "has_room s" "asio_law A pend" "ae_wf ae"
  shows "spares malformed (react2ae P A ae s)"
proof -
  obtain fin where c: "entries_inv (entries_m s)" "smc_inv P' m0 fin (smc_m s)"
    using assms(1) by (auto simp: raft_inv_def log_inv_def)
  have "spares malformed (seq (trans2F A (ae_term ae) s) (ae_body P A ae))" if "\<not> ae_term ae < term_m s"
    unfolding spares_seq
  proof (rule conjI)
    have le: "term_m s \<le> ae_term ae" using that by simp
    show "spares malformed (trans2F A (ae_term ae) s)" by (rule spares_surely [OF trans2F_total [OF assms(3) le]])
    show "okp (\<lambda>t. spares malformed (ae_body P A ae t)) (trans2F A (ae_term ae) s)"
      by (rule okp_mono [OF trans2F_effect]) (use c assms(2,4) in \<open>auto simp: log_frame_def intro!: ae_body_spares\<close>)
  qed
  then show ?thesis
    using assms(4) by (auto simp: react2ae_split ae_wf_def make_resp_ae_def net_call_spares in_malformed)
qed

text \<open>C9. In a cluster of which every member loads the same configuration, however its members' handlers,
  threads and sockets and the deliveries and losses of their messages are interleaved: every member keeps its
  invariant, its address and its configuration, and every message under way is a complete message of a type servers send
  each other or a client, bears its sender's address, and has a term the sender has reached; a receiver whose buffer
  it fits into reads exactly this message. In particular no member ever throws one of the exceptions that guard against a
  malformed AppendEntries when such a message is handled.\<close>

theorem cluster_messages_typed:
  assumes "reachable (cluster_init A m0 cfg) (cluster_step P A junk cfg) (\<sigma>, net)"
    and "pb_law P" "asio_law A pend" "clean junk"
  shows "(\<forall>v \<in> set cfg. raft_inv P m0 (\<sigma> v) \<and> addr_of (\<sigma> v) = v \<and> configuration_m (\<sigma> v) = cfg) \<and>
    (\<forall>(v, w, b) \<in> set net. v \<in> set cfg \<and>
       (\<exists>ty m. b = wire (ty, m) \<and> msg_typed P v (term_m (\<sigma> v)) (ty, m) \<and>
          (length m < 5120 \<longrightarrow> (\<forall>conn. recv_stream P junk conn b = ([(ty, m, remote_peer_m conn)], Inr []))) \<and>
          (ty = APPEND_ENTRY \<longrightarrow> (\<forall>u \<in> set cfg. has_room (\<sigma> u) \<longrightarrow>
             (\<forall>peer e t. server_step P A (Incoming ty m peer) (\<sigma> u) = Throw e t \<longrightarrow>
                e \<notin> {Entry_size_gt_1, Bad_prelog_term, Bad_entry_index})))))"
proof -
  have i: "cluster_inv P m0 cfg (\<sigma>, net)" using cluster.reachable_inv [OF assms(1)] .
  have s: "\<forall>v \<in> set cfg. raft_inv P m0 (\<sigma> v) \<and> addr_of (\<sigma> v) = v \<and> configuration_m (\<sigma> v) = cfg"
    using i by (simp add: cluster_inv_def)
  have "v \<in> set cfg \<and>
       (\<exists>ty m. b = wire (ty, m) \<and> msg_typed P v (term_m (\<sigma> v)) (ty, m) \<and>
          (length m < 5120 \<longrightarrow> (\<forall>conn. recv_stream P junk conn b = ([(ty, m, remote_peer_m conn)], Inr []))) \<and>
          (ty = APPEND_ENTRY \<longrightarrow> (\<forall>u \<in> set cfg. has_room (\<sigma> u) \<longrightarrow>
             (\<forall>peer e t. server_step P A (Incoming ty m peer) (\<sigma> u) = Throw e t \<longrightarrow>
                e \<notin> {Entry_size_gt_1, Bad_prelog_term, Bad_entry_index}))))" if m: "(v, w, b) \<in> set net" for v w b
  proof -
    have "message_ok P cfg \<sigma> (v, w, b)" using i m by (auto simp: cluster_inv_def)
    then obtain ty m where x: "v \<in> set cfg" "b = wire (ty, m)" "msg_typed P v (term_m (\<sigma> v)) (ty, m)"
      by (auto simp: message_ok_def)
    have "ty \<noteq> ERROR" using x(3) by (cases ty) auto
    then have r: "recv_stream P junk conn b = ([(ty, m, remote_peer_m conn)], Inr [])" if "length m < 5120" for conn
      using recv_wire [of "(ty, m)" junk P conn] assms(4) that x(2) by (simp add: wire_fits_def)
    have a: "e \<notin> {Entry_size_gt_1, Bad_prelog_term, Bad_entry_index}"
      if u: "ty = APPEND_ENTRY" "u \<in> set cfg" "has_room (\<sigma> u)" "server_step P A (Incoming ty m peer) (\<sigma> u) = Throw e t"
      for u peer e t
    proof -
      obtain ae where ae: "m = ser_ae P ae" "ae_wf ae" using x(3) u(1) by auto
      then have "react2ae P A ae (\<sigma> u) = Throw e t" using u(1,4) assms(2) by (simp add: reactToIncomingMsg_def)
      then show ?thesis using react2ae_spares [OF _ u(3) assms(3) ae(2), of P m0 P] s u(2) by (simp add: in_malformed)
    qed
    show ?thesis using x r a by blast
  qed
  with s show ?thesis by blast
qed

end
