(* ===== verification/Raft_Campaign.thy ===== *)
theory Raft_Campaign
  imports Raft_Cluster
begin

text \<open>
  An election that nothing disturbs, in a cluster of any size: \<open>campaign\<close> is a candidate with some votes
  counted, \<open>willing\<close> a member that will vote for it. If enough are willing, the cluster has a run in which the
  candidate becomes primary.
\<close>

section \<open>Sequence numbers of an election\<close>

lemma RV_lsn:
  assumes "rpc_inv (network_m s)"
  shows "okp (\<lambda>t. at0 (current_rpc_lsn_m t) = (at0 (current_rpc_lsn_m s))(v := at0 (current_rpc_lsn_m s) v + 1)) (RV P A v s)"
proof -
  let ?s = "snd (build_rpc_rv v s)"
  have "at0 (current_rpc_lsn_m ?s) = (at0 (current_rpc_lsn_m s))(v := at0 (current_rpc_lsn_m s) v + 1)"
    by (auto simp: build_rpc_rv_def Let_def fun_eq_iff)
  then have "okp (\<lambda>t. at0 (current_rpc_lsn_m t) = (at0 (current_rpc_lsn_m s))(v := at0 (current_rpc_lsn_m s) v + 1))
      (seq (net_call P A REQUEST_VOTE v (ser_rv P rv) ?s) (arm_retry_timer A random_rv_retry_expire (RV_handler v) Ok v))" for rv
    using assms by (intro okp_mono [OF send_arm_sends]) (simp_all add: build_keeps)
  then show ?thesis unfolding RV_def split_def Let_def by blast
qed

lemma for_each_lsn:
  fixes f :: "endpoint \<Rightarrow> 't RaftServer \<Rightarrow> 't RaftServer outcome"
  assumes f: "\<And>v t. rpc_inv (network_m t) \<Longrightarrow>
      okp (\<lambda>u. rpc_inv (network_m u) \<and> port_m u = port_m t \<and>
        at0 (current_rpc_lsn_m u) = (at0 (current_rpc_lsn_m t))(v := at0 (current_rpc_lsn_m t) v + 1)) (f v t)"
    and "distinct xs" "rpc_inv (network_m t)"
  shows "okp (\<lambda>u. at0 (current_rpc_lsn_m u) =
        (\<lambda>w. at0 (current_rpc_lsn_m t) w + (if w \<in> set xs \<and> port_of w \<noteq> port_m t then 1 else 0)))
      (for_each xs (\<lambda>v s. if port_of v \<noteq> port_m s then f v s else Ok s) t)"
  using assms(2,3)
proof (induction xs arbitrary: t)
  case Nil
  then show ?case by simp
next
  case (Cons x xs)
  show ?case
  proof (cases "port_of x \<noteq> port_m t")
    case False
    have "okp (\<lambda>u. at0 (current_rpc_lsn_m u) =
        (\<lambda>w. at0 (current_rpc_lsn_m t) w + (if w \<in> set xs \<and> port_of w \<noteq> port_m t then 1 else 0)))
        (for_each xs (\<lambda>v s. if port_of v \<noteq> port_m s then f v s else Ok s) t)"
      using Cons by simp
    then show ?thesis using False by (auto elim!: okp_mono simp: fun_eq_iff)
  next
    case True
    have "okp (\<lambda>u. okp (\<lambda>u'. at0 (current_rpc_lsn_m u') =
        (\<lambda>w. at0 (current_rpc_lsn_m t) w + (if w \<in> set (x # xs) \<and> port_of w \<noteq> port_m t then 1 else 0)))
        (for_each xs (\<lambda>v s. if port_of v \<noteq> port_m s then f v s else Ok s) u)) (f x t)"
    proof (rule okp_mono [OF f [OF Cons.prems(2)]])
      fix u :: "'t RaftServer"
      assume u: "rpc_inv (network_m u) \<and> port_m u = port_m t \<and>
        at0 (current_rpc_lsn_m u) = (at0 (current_rpc_lsn_m t))(x := at0 (current_rpc_lsn_m t) x + 1)"
      show "okp (\<lambda>u'. at0 (current_rpc_lsn_m u') =
        (\<lambda>w. at0 (current_rpc_lsn_m t) w + (if w \<in> set (x # xs) \<and> port_of w \<noteq> port_m t then 1 else 0)))
        (for_each xs (\<lambda>v s. if port_of v \<noteq> port_m s then f v s else Ok s) u)"
        by (rule okp_mono [OF Cons.IH]) (use u Cons.prems True in \<open>auto simp: fun_eq_iff\<close>)
    qed
    with True show ?thesis by (simp add: wp)
  qed
qed

lemma trans2C_lsn:
  assumes "rpc_inv (network_m s)" "distinct (configuration_m s)"
  shows "okp (\<lambda>t. \<forall>v \<in> set (others s). at0 (current_rpc_lsn_m t) v = 1) (trans2C P A s)"
  unfolding trans2C_eq okp_seq
proof (rule okp_mono [OF armed_candidate])
  fix t assume t: "frame (candidate_state A s) t \<and> network_m t = network_m s \<and>
           current_rpc_lsn_m t = current_rpc_lsn_m (candidate_state A s) \<and>
           retry_timers_m t = retry_timers_m (candidate_state A s)"
  have l: "log_frame s t" using t candidate_state_frame(1) log_frame_trans by blast
  have "okp (\<lambda>u. rpc_inv (network_m u) \<and> port_m u = port_m t \<and>
        at0 (current_rpc_lsn_m u) = (at0 (current_rpc_lsn_m t))(v := at0 (current_rpc_lsn_m t) v + 1)) (RV P A v t)"
    if "rpc_inv (network_m t)" for v t
    using conjI [OF frame_RV [of t P A v] RV_lsn [OF that, of v P A], folded okp_conj]
    by (rule okp_mono) (use that in \<open>simp add: log_frame_def\<close>)
  then have "okp (\<lambda>u. at0 (current_rpc_lsn_m u) = (\<lambda>w. at0 (current_rpc_lsn_m t) w +
      (if w \<in> set (configuration_m t) \<and> port_of w \<noteq> port_m t then 1 else 0))) (for_others (RV P A) t)"
    unfolding for_others_def using assms t l by (intro for_each_lsn) (simp_all add: log_frame_def)
  then show "okp (\<lambda>u. \<forall>v \<in> set (others s). at0 (current_rpc_lsn_m u) v = 1) (for_others (RV P A) t)"
    by (rule okp_mono)
      (use t l in \<open>auto simp: log_frame_def candidate_state_def reset_both_rpc_lsn_def cancel_all_timers_def at0_put_all\<close>)
qed

section \<open>The candidate\<close>

text \<open>Started as candidate from the state \<open>s\<close>, with \<open>k\<close> votes besides its own.\<close>

definition campaign :: "pb \<Rightarrow> mock_state_machine \<Rightarrow> 't RaftServer \<Rightarrow> nat \<Rightarrow> 't RaftServer \<Rightarrow> bool" where
  "campaign P m0 s k t \<longleftrightarrow> raft_inv P m0 t \<and> log_frame s t \<and> term_m t = term_m s + 1 \<and> state_m t = candidate \<and>
     winned_votes_m t = 1 + int k \<and> (\<forall>w \<in> set (others s). at0 (current_rpc_lsn_m t) w = 1)"

lemma campaign_others: "campaign P m0 s k t \<Longrightarrow> others t = others s"
  by (simp add: campaign_def log_frame_def)

lemma trans2C_campaign:
  assumes "raft_inv P m0 s" "asio_law A pend" "\<forall>w \<in> set (others s). address_ok A (ip_of w)"
    and "length (ser_rv P (candidate_rv s)) < 9999"
  shows "surely (\<lambda>t. campaign P m0 s 0 t \<and> sent s t (map (\<lambda>w. (w, wire (REQUEST_VOTE, ser_rv P (candidate_rv s)))) (others s)))
    (trans2C P A s)"
proof (rule surelyI)
  have c: "conf_inv s" "rpc_inv (network_m s)" "distinct (configuration_m s)"
    using assms(1) by (simp_all add: raft_inv_def conf_inv_def)
  show "surely (\<lambda>u. True) (trans2C P A s)" using trans2C_total [OF c(1) assms(2-4)] .
  show "okp (\<lambda>t. campaign P m0 s 0 t \<and> sent s t (map (\<lambda>w. (w, wire (REQUEST_VOTE, ser_rv P (candidate_rv s)))) (others s)))
      (trans2C P A s)"
    unfolding campaign_def
    using conjI [OF conjI [OF trans2C_inv [OF assms(1), of A] trans2C_effect [of s P A]]
        conjI [OF trans2C_sends [OF c(2,3), of P A] trans2C_lsn [OF c(2,3), of P A]], folded okp_conj]
    by (rule okp_mono) simp
qed

text \<open>The positive answer of \<open>u\<close> to it.\<close>

definition yes_to :: "RequestVoteRpc \<Rightarrow> 't RaftServer \<Rightarrow> Resp_RequestVoteRpc" where
  "yes_to rv u = \<lparr>rrv_ok = True, rrv_term = rv_term rv, rrv_lsn = 0, rrv_ip = ip_m u, rrv_port = port_m u\<rparr>"

lemma campaign_eq:
  assumes "campaign P m0 s k t" "addr_of u \<in> set (others s)"
  shows "react2resp_rv P A (yes_to (candidate_rv s) u) t =
    (let x = t\<lparr>current_rpc_lsn_m := touch (addr_of u) (current_rpc_lsn_m t), winned_votes_m := 2 + int k\<rparr> in
     if majority_m s \<le> 2 + int k then trans2P P A x
     else Ok (x\<lparr>retry_timers_m := put (addr_of u) (snd (expires_at_min A (the (map_of (retry_timers_m t) (addr_of u))))) (retry_timers_m t)\<rparr>))"
proof -
  have t: "term_m t = term_m s + 1" "state_m t = candidate" "winned_votes_m t = 1 + int k" "majority_m t = majority_m s"
    "at0 (current_rpc_lsn_m t) (addr_of u) = 1"
    using assms by (simp_all add: campaign_def log_frame_def)
  have "addr_of u \<in> keys (retry_timers_m t)"
    using assms by (simp add: campaign_def log_frame_def raft_inv_def conf_inv_def)
  then obtain x where "map_of (retry_timers_m t) (addr_of u) = Some x" by (auto simp: keys_iff_map_of)
  then show ?thesis
    using t by (simp add: react2resp_rv_def candidate_deal_resp_rv_with_same_term_def yes_to_def candidate_rv_def Let_def)
qed

lemma campaign_counts:
  assumes "campaign P m0 s k t" "addr_of u \<in> set (others s)" "2 + int k < majority_m s"
  shows "surely (\<lambda>t'. campaign P m0 s (Suc k) t' \<and> sent t t' []) (react2resp_rv P A (yes_to (candidate_rv s) u) t)"
proof -
  let ?m = "react2resp_rv P A (yes_to (candidate_rv s) u) t"
  have i: "raft_inv P m0 t" using assms(1) by (simp add: campaign_def)
  obtain x where x: "?m = Ok (t\<lparr>current_rpc_lsn_m := touch (addr_of u) (current_rpc_lsn_m t), winned_votes_m := 2 + int k,
      retry_timers_m := put (addr_of u) x (retry_timers_m t)\<rparr>)"
    using campaign_eq [OF assms(1,2), of A] assms(3) by (simp add: Let_def)
  have "addr_of u \<in> keys (retry_timers_m t)"
    using assms by (simp add: campaign_def log_frame_def raft_inv_def conf_inv_def)
  then show ?thesis
    using okpD [OF react2resp_inv(2) [OF i] x] assms(1) unfolding x by (auto simp: campaign_def log_frame_def sent_same)
qed

text \<open>The heartbeat it sends when it has won: sequence number 1 for everybody.\<close>

definition first_heartbeat_of :: "'t RaftServer \<Rightarrow> AppendEntryRpc" where
  "first_heartbeat_of s = \<lparr>ae_term = term_m s + 1,
     ae_prelog_term = (if log_of (entries_m s) = [] then -1 else en_term (last (log_of (entries_m s)))),
     ae_commit_index = commit_index_m s, ae_lsn = 1, ae_ip = ip_m s, ae_port = port_m s, ae_entry = [],
     ae_prelog_index = Entries_size (entries_m s) - 1\<rparr>"

lemma frame_facts: "frame s t \<Longrightarrow> state_m t = state_m s \<and> term_m t = term_m s \<and> entries_m t = entries_m s"
  by (simp add: log_frame_def vote_frame_def)

lemma campaign_won:
  assumes "campaign P m0 s k t" "addr_of u \<in> set (others s)" "majority_m s \<le> 2 + int k"
    and "asio_law A pend" "\<forall>w \<in> set (others s). address_ok A (ip_of w)" "length (ser_ae P (first_heartbeat_of s)) < 9999"
  shows "surely (\<lambda>t'. state_m t' = primary \<and> term_m t' = term_m s + 1 \<and> entries_m t' = entries_m s \<and>
      sent t t' (map (\<lambda>w. (w, wire (APPEND_ENTRY, ser_ae P (first_heartbeat_of s)))) (others s)))
    (react2resp_rv P A (yes_to (candidate_rv s) u) t)"
proof -
  let ?x = "t\<lparr>current_rpc_lsn_m := touch (addr_of u) (current_rpc_lsn_m t), winned_votes_m := 2 + int k\<rparr>"
  have eq: "react2resp_rv P A (yes_to (candidate_rv s) u) t = trans2P P A ?x"
    using campaign_eq [OF assms(1,2), of A] assms(3) by (simp add: Let_def)
  have f: "raft_inv P m0 ?x" "log_frame s t" "term_m t = term_m s + 1"
    using assms(1) by (simp_all add: campaign_def raft_inv_def conf_inv_def log_inv_def book_inv_def)
  then have c: "conf_inv ?x" "rpc_inv (network_m ?x)" "distinct (configuration_m ?x)" "entries_inv (entries_m ?x)"
    by (simp_all add: raft_inv_def conf_inv_def log_inv_def)
  have o: "others ?x = others s" using f(2) by (simp add: log_frame_def)
  have "at0 (current_rpc_lsn_m t) w = 1" if "w \<in> set (others s)" for w
    using assms(1) that unfolding campaign_def by blast
  then have hb: "heartbeat ?x w = first_heartbeat_of s" if "w \<in> set (others s)" for w
    using f(2,3) that by (simp add: heartbeat_def first_heartbeat_of_def log_frame_def)
  then have m: "map (\<lambda>w. (w, wire (APPEND_ENTRY, ser_ae P (heartbeat ?x w)))) (others ?x) =
      map (\<lambda>w. (w, wire (APPEND_ENTRY, ser_ae P (first_heartbeat_of s)))) (others s)"
    unfolding o by (intro map_cong) simp_all
  have "\<forall>w \<in> set (others ?x). address_ok A (ip_of w) \<and> length (ser_ae P (heartbeat ?x w)) < 9999"
    unfolding o using hb assms(5,6) by metis
  note total = trans2P_total [OF c(1,4) assms(4) this]
  have fr: "okp (frame (primary_state A ?x)) (trans2P P A ?x)"
    unfolding trans2P_eq by (intro frame_for_others frame_AE)
  have p: "state_m (primary_state A ?x) = primary" "term_m (primary_state A ?x) = term_m s + 1"
    "entries_m (primary_state A ?x) = entries_m s"
    using f(2,3) by (simp_all add: log_frame_def primary_state_def cancel_all_timers_def)
  let ?sent = "\<lambda>t'. sent ?x t' (map (\<lambda>w. (w, wire (APPEND_ENTRY, ser_ae P (heartbeat ?x w)))) (others ?x))"
  have both: "okp (\<lambda>t'. frame (primary_state A ?x) t' \<and> ?sent t') (trans2P P A ?x)"
    using fr trans2P_sends [OF c(2,3,4), of P A] by (simp only: okp_conj)
  have "surely (\<lambda>t'. state_m t' = primary \<and> term_m t' = term_m s + 1 \<and> entries_m t' = entries_m s \<and> ?sent t') (trans2P P A ?x)"
  proof (rule surelyI [OF total], rule okp_mono [OF both])
    fix t' :: "'a RaftServer"
    assume t': "frame (primary_state A ?x) t' \<and> ?sent t'"
    show "state_m t' = primary \<and> term_m t' = term_m s + 1 \<and> entries_m t' = entries_m s \<and> ?sent t'"
      using frame_facts [OF conjunct1 [OF t']] conjunct2 [OF t'] unfolding p by blast
  qed
  then show ?thesis unfolding eq m by (rule surely_mono) (simp add: sent_def)
qed

section \<open>The voters\<close>

text \<open>A member of an earlier term that can answer. It compares the last term of its log with the new term, not
  with the last term of the candidate's log.\<close>

definition willing :: "pb \<Rightarrow> RequestVoteRpc \<Rightarrow> 't RaftServer \<Rightarrow> bool" where
  "willing P rv u \<longleftrightarrow> has_room u \<and> term_m u < rv_term rv \<and> log_acceptable rv (log_of (entries_m u)) \<and>
     (\<forall>b. length (ser_resp_rv P ((yes_to rv u)\<lparr>rrv_ok := b\<rparr>)) < 5120)"

lemma willing_votes:
  assumes "raft_inv P m0 u" "willing P rv u" "rv_lsn rv = 0" "(rv_ip rv, rv_port rv) \<in> set (configuration_m u)"
    and "asio_law A pend" "address_ok A (rv_ip rv)"
  shows "surely (\<lambda>t. sent u t [((rv_ip rv, rv_port rv), wire (RESP_VOTE, ser_resp_rv P (yes_to rv u)))] \<and>
      term_m t = rv_term rv \<and> already_voted_m t) (react2rv P A rv u)"
proof (rule surelyI)
  have w: "term_m u < rv_term rv" "log_acceptable rv (log_of (entries_m u))"
    "\<And>b. length (ser_resp_rv P ((yes_to rv u)\<lparr>rrv_ok := b\<rparr>)) < 5120"
    using assms(2) by (simp_all add: willing_def)
  have "length (ser_resp_rv P \<lparr>rrv_ok = b, rrv_term = max (term_m u) (rv_term rv), rrv_lsn = rv_lsn rv,
        rrv_ip = ip_m u, rrv_port = port_m u\<rparr>) < 9999" for b
    using w(1) w(3) [of b] assms(3) by (simp add: yes_to_def max_def)
  then show "surely (\<lambda>t. True) (react2rv P A rv u)"
    by (rule react2rv_total [OF raft_inv_log(1) [OF assms(1)] assms(5,6)])
  have "grants rv u" using w assms(3,4) by (simp add: grants_def seen_lsn_def)
  then have "vote_replies P u rv = [((rv_ip rv, rv_port rv), wire (RESP_VOTE, ser_resp_rv P (yes_to rv u)))]"
    using w(1) assms(3,4) by (simp add: vote_replies_def vote_reply_def yes_to_def seen_lsn_def max_def)
  with \<open>grants rv u\<close> show "okp (\<lambda>t. sent u t [((rv_ip rv, rv_port rv), wire (RESP_VOTE, ser_resp_rv P (yes_to rv u)))] \<and>
      term_m t = rv_term rv \<and> already_voted_m t) (react2rv P A rv u)"
    using w(1) by (intro okp_mono [OF react2rv_effect [OF raft_inv_log(1,5) [OF assms(1)]]]) (auto simp: vote_effect_def)
qed


section \<open>The campaign in the cluster\<close>

lemma handles_vote:
  assumes "pb_law P" "clean junk" "has_room s"
  shows "length (ser_rv P rv) < 5120 \<Longrightarrow> react2rv P A rv s = Ok t \<Longrightarrow>
      handles P A junk (wire (REQUEST_VOTE, ser_rv P rv)) s t"
    and "length (ser_resp_rv P r) < 5120 \<Longrightarrow> react2resp_rv P A r s = Ok t \<Longrightarrow>
      handles P A junk (wire (RESP_VOTE, ser_resp_rv P r)) s t"
  using assms recv_wire [of "(REQUEST_VOTE, ser_rv P rv)", OF _ assms(2)] recv_wire [of "(RESP_VOTE, ser_resp_rv P r)", OF _ assms(2)]
  by (simp_all add: handles_def wire_fits_def reactToIncomingMsg_def)

text \<open>The requests of \<open>v\<close> to the members \<open>zs\<close> that have not been delivered.\<close>

abbreviation requests :: "endpoint \<Rightarrow> string \<Rightarrow> endpoint list \<Rightarrow> (endpoint \<times> endpoint \<times> string) list" where
  "requests v b zs \<equiv> map (\<lambda>w. (v, w, b)) zs"

lemma next_request:
  assumes "w \<in> set zs" "distinct zs"
  shows "next_message v w b (requests v b zs) (requests v b (remove1 w zs))"
proof -
  obtain xs ys where z: "zs = xs @ w # ys" using assms(1) split_list by fast
  then have "w \<notin> set xs" using assms(2) by auto
  then have "remove1 w zs = xs @ ys" by (simp add: z remove1_append)
  then show ?thesis
    using \<open>w \<notin> set xs\<close> unfolding next_message_def z by (intro exI [of _ "requests v b xs"] exI [of _ "requests v b ys"]) auto
qed

lemma next_answer:
  assumes "w \<noteq> v"
  shows "next_message w v c (requests v b zs @ [(w, v, c)]) (requests v b zs)"
  unfolding next_message_def using assms by (intro exI [of _ "requests v b zs"] exI [of _ "[]"]) auto

text \<open>One member is asked and its answer delivered.\<close>

lemma asked_once:
  assumes law: "pb_law P" "clean junk" "asio_law A pend" and c: "cluster_inv P m0 cfg (\<sigma>, requests v b zs)"
    and v: "v \<in> set cfg" "has_room (\<sigma> v)" and w: "w \<in> set cfg" "w \<noteq> v" "w \<in> set zs" "distinct zs" "willing P rv (\<sigma> w)"
    and rv: "(rv_ip rv, rv_port rv) = v" "rv_lsn rv = 0" "b = wire (REQUEST_VOTE, ser_rv P rv)" "length (ser_rv P rv) < 5120"
      "address_ok A (ip_of v)"
    and t: "react2resp_rv P A (yes_to rv (\<sigma> w)) (\<sigma> v) = Ok t" "sent (\<sigma> v) t ms"
  obtains a where "(cluster_step P A junk cfg)\<^sup>*\<^sup>* (\<sigma>, requests v b zs)
      (\<sigma>(w := a, v := t), requests v b (remove1 w zs) @ outgoing v ms)" "term_m a = rv_term rv" "already_voted_m a"
proof -
  have u: "raft_inv P m0 (\<sigma> w)" "configuration_m (\<sigma> w) = cfg" "addr_of (\<sigma> w) = w"
    using c w(1) by (simp_all add: cluster_inv_def)
  have "(rv_ip rv, rv_port rv) \<in> set (configuration_m (\<sigma> w))" "address_ok A (rv_ip rv)" using rv(1,5) v(1) u(2) by auto
  then obtain a where a: "react2rv P A rv (\<sigma> w) = Ok a"
    "sent (\<sigma> w) a [(v, wire (RESP_VOTE, ser_resp_rv P (yes_to rv (\<sigma> w))))]" "term_m a = rv_term rv" "already_voted_m a"
    using surelyD [OF willing_votes [OF u(1) w(5) rv(2) _ law(3)]] rv(1) by metis
  let ?yes = "wire (RESP_VOTE, ser_resp_rv P (yes_to rv (\<sigma> w)))"
  have k: "has_room (\<sigma> w)" "length (ser_resp_rv P (yes_to rv (\<sigma> w))) < 5120"
    using w(5) by (auto simp: willing_def yes_to_def dest: spec [of _ True])
  have "handles P A junk b (\<sigma> w) a" unfolding rv(3) by (rule handles_vote(1) [OF law(1,2) k(1) rv(4) a(1)])
  from receive [where \<sigma> = \<sigma>, OF w(1) next_request [OF w(3,4), of v b] this a(2)]
  have m1: "cluster_step P A junk cfg (\<sigma>, requests v b zs) (\<sigma>(w := a), requests v b (remove1 w zs) @ [(w, v, ?yes)])"
    by (auto simp: outgoing_def intro: cluster_stepI)
  have "handles P A junk ?yes ((\<sigma>(w := a)) v) t" "sent ((\<sigma>(w := a)) v) t ms"
    using handles_vote(2) [OF law(1,2) v(2) k(2) t(1)] t(2) w(2) by simp_all
  from receive [where \<sigma> = "\<sigma>(w := a)", OF v(1) next_answer [OF w(2), of ?yes b "remove1 w zs"] this]
  have m2: "cluster_step P A junk cfg (\<sigma>(w := a), requests v b (remove1 w zs) @ [(w, v, ?yes)])
      (\<sigma>(w := a, v := t), requests v b (remove1 w zs) @ outgoing v ms)"
    by (rule cluster_stepI)
  show ?thesis by (rule that [OF _ a(3,4)]) (use m1 m2 in simp)
qed

text \<open>With as many willing members as it still needs, the candidate wins.\<close>

lemma campaign_wins:
  assumes law: "pb_law P" "clean junk" "asio_law A pend" and i: "raft_inv P m0 s" "v = addr_of s" "configuration_m s = cfg" "has_room s"
    and msg: "\<forall>w \<in> set cfg. address_ok A (ip_of w)" "b = wire (REQUEST_VOTE, ser_rv P (candidate_rv s))"
      "length (ser_rv P (candidate_rv s)) < 5120" "length (ser_ae P (first_heartbeat_of s)) < 9999"
    and "cluster_inv P m0 cfg (\<sigma>, requests v b zs)" "v \<in> set cfg" "campaign P m0 s k (\<sigma> v)"
    and "distinct zs" "distinct ws" "set ws \<subseteq> set zs" "set ws \<subseteq> set (others s)" "\<forall>w \<in> set ws. willing P (candidate_rv s) (\<sigma> w)"
    and "1 + int k < majority_m s" "majority_m s \<le> 1 + int k + int (length ws)"
  shows "\<exists>\<tau> net. (cluster_step P A junk cfg)\<^sup>*\<^sup>* (\<sigma>, requests v b zs) (\<tau>, net) \<and> state_m (\<tau> v) = primary \<and>
    term_m (\<tau> v) = term_m s + 1 \<and> entries_m (\<tau> v) = entries_m s"
  using assms(12-)
proof (induction ws arbitrary: \<sigma> zs k)
  case Nil
  then show ?case by simp
next
  case (Cons w ws)
  let ?rv = "candidate_rv s"
  note c = Cons.prems(1,2,3)
  have o: "w \<in> set (others s)" "w \<in> set cfg" "w \<noteq> v" using Cons.prems(7) i(2,3) by auto
  have u: "addr_of (\<sigma> w) = w" using c(1) o(2) by (simp add: cluster_inv_def)
  have rv: "(rv_ip ?rv, rv_port ?rv) = v" "rv_lsn ?rv = 0" "rv_term ?rv = term_m s + 1" "address_ok A (ip_of v)"
    using i(2) msg(1) c(2) by (auto simp: candidate_rv_def)
  have room: "has_room (\<sigma> v)" using c(3) i(4) by (simp add: campaign_def log_frame_def)
  have ask: "\<exists>a. (cluster_step P A junk cfg)\<^sup>*\<^sup>* (\<sigma>, requests v b zs)
      (\<sigma>(w := a, v := t), requests v b (remove1 w zs) @ outgoing v ms)"
    if "react2resp_rv P A (yes_to ?rv (\<sigma> w)) (\<sigma> v) = Ok t" "sent (\<sigma> v) t ms" for t ms
  proof -
    have "w \<in> set zs" "willing P ?rv (\<sigma> w)" using Cons.prems(6,8) by simp_all
    from asked_once [OF law c(1,2) room o(2,3) this(1) Cons.prems(4) this(2) rv(1,2) msg(2,3) rv(4) that]
    show ?thesis by blast
  qed
  have uo: "addr_of (\<sigma> w) \<in> set (others s)" using o(1) u by simp
  show ?case
  proof (cases "majority_m s \<le> 2 + int k")
    case True
    have "\<forall>w \<in> set (others s). address_ok A (ip_of w)" using msg(1) i(3) by auto
    then obtain t ms where "react2resp_rv P A (yes_to ?rv (\<sigma> w)) (\<sigma> v) = Ok t" "state_m t = primary"
      "term_m t = term_m s + 1" "entries_m t = entries_m s" "sent (\<sigma> v) t ms"
      using surelyD [OF campaign_won [OF c(3) uo True law(3) _ msg(4)]] by metis
    with ask [of t ms] show ?thesis by (metis fun_upd_same)
  next
    case False
    then obtain t where t: "react2resp_rv P A (yes_to ?rv (\<sigma> w)) (\<sigma> v) = Ok t" "campaign P m0 s (Suc k) t" "sent (\<sigma> v) t []"
      using surelyD [OF campaign_counts [OF c(3) uo, of A]] by auto
    obtain a where a: "(cluster_step P A junk cfg)\<^sup>*\<^sup>* (\<sigma>, requests v b zs) (\<sigma>(w := a, v := t), requests v b (remove1 w zs))"
      using ask [OF t(1,3)] by (auto simp: outgoing_def)
    have inv: "cluster_inv P m0 cfg (\<sigma>(w := a, v := t), requests v b (remove1 w zs))"
      using a c(1) by (induction rule: rtranclp_induct) (auto intro: cluster_step_inv)
    have sub: "set ws \<subseteq> set (remove1 w zs)"
      using Cons.prems(5,6) unfolding set_remove1_eq [OF Cons.prems(4)] by auto
    have "w' \<noteq> w" "w' \<noteq> v" if "w' \<in> set ws" for w'
      using that Cons.prems(5,7) i(2) by auto
    then have will: "\<forall>w' \<in> set ws. willing P ?rv ((\<sigma>(w := a, v := t)) w')" using Cons.prems(8) by simp
    have "campaign P m0 s (Suc k) ((\<sigma>(w := a, v := t)) v)" using t(2) by simp
    moreover have "distinct ws" "set ws \<subseteq> set (others s)" "1 + int (Suc k) < majority_m s"
      "majority_m s \<le> 1 + int (Suc k) + int (length ws)"
      using Cons.prems(5,7,10) False by simp_all
    ultimately have "\<exists>\<tau> net. (cluster_step P A junk cfg)\<^sup>*\<^sup>* (\<sigma>(w := a, v := t), requests v b (remove1 w zs)) (\<tau>, net) \<and>
        state_m (\<tau> v) = primary \<and> term_m (\<tau> v) = term_m s + 1 \<and> entries_m (\<tau> v) = entries_m s"
      using Cons.IH [OF inv c(2) _ distinct_remove1 [OF Cons.prems(4)] _ sub _ will] by blast
    with a show ?thesis by (meson rtranclp_trans)
  qed
qed


end
