(* ===== verification/Raft_Split.thy ===== *)
theory Raft_Split
  imports Raft_Campaign
begin

text \<open>
  Two primaries in one term: a run of the three-server cluster of \<open>Raft_Example\<close>, from its start, in
  which the second and the third server are both elected in term 1 by the vote of the first one.
\<close>

section \<open>The three servers\<close>

abbreviation srvA :: endpoint where "srvA \<equiv> (''10.0.0.1'', 8001)"
abbreviation srvB :: endpoint where "srvB \<equiv> (''10.0.0.2'', 8002)"
abbreviation srvC :: endpoint where "srvC \<equiv> (''10.0.0.3'', 8003)"

definition server3 :: "endpoint \<Rightarrow> (handler list \<times> bool) RaftServer" where
  "server3 v = projr (RaftServer_ctor counting_asio (split_chars []) (ip_of v) (port_of v) (Some conf3) empty_log
     fresh_smc (\<lambda>n. 0))"

lemmas server3_eq = server3_def [unfolded RaftServer_ctor_def load_conf3, simplified]

lemma server3_init:
  assumes "v \<in> set cfg3"
  shows "raft_init counting_asio [] (server3 v)"
  unfolding raft_init_def
proof (intro exI conjI)
  show "RaftServer_ctor counting_asio (split_chars []) (ip_of v) (port_of v) (Some conf3) empty_log fresh_smc (\<lambda>n. 0) =
      Inr (server3 v)"
    by (simp add: server3_eq RaftServer_ctor_def load_conf3)
  show "SMC_ctor [] 2 1 = Inr fresh_smc" by (simp add: fresh_smc_def SMC_ctor_def)
  show "(ip_of v, port_of v) \<in> set (configuration_m (server3 v))" using assms by (simp add: server3_eq)
qed (simp_all add: server3_eq)

lemma cluster3_init: "cluster_init counting_asio [] cfg3 (server3, [])"
  using server3_init by (simp add: cluster_init_def) (simp add: server3_eq)

text \<open>After its start.\<close>

definition started3 :: "endpoint \<Rightarrow> (handler list \<times> bool) RaftServer" where
  "started3 v = (server3 v)\<lparr>network_m := startAccept (network_m (server3 v)), rand_m := \<lambda>n. 0,
     candidate_timer_m := ([Run_handler], False)\<rparr>"

lemma run3: "run counting_asio (server3 v) = Ok (started3 v)"
  by (simp add: run_def arm_candidate_timer_def call_rand_def started3_def counting_asio_def server3_eq Let_def)

lemma started3_inv: "v \<in> set cfg3 \<Longrightarrow> raft_inv codec [] (started3 v)"
  using okpD [OF run_inv [OF raft_init_inv [OF server3_init]] run3] .

lemma started3_facts:
  "term_m (started3 v) = 0" "state_m (started3 v) = follower" "entries_m (started3 v) = empty_log"
  "configuration_m (started3 v) = cfg3" "majority_m (started3 v) = 2" "addr_of (started3 v) = v"
  "commit_index_m (started3 v) = -1" "\<not> already_voted_m (started3 v)"
  "follower_rpc_lsn_m (started3 v) = put_all cfg3 (-1) []" "ip_m (started3 v) = ip_of v" "port_m (started3 v) = port_of v"
  by (simp_all add: started3_def server3_eq)

lemma room3: "has_room s" if "entries_m s = empty_log" for s :: "(handler list \<times> bool) RaftServer"
  using that by simp

section \<open>Standing for election\<close>

definition stands :: "endpoint \<Rightarrow> (handler list \<times> bool) RaftServer \<Rightarrow> bool" where
  "stands v t \<longleftrightarrow> raft_inv codec [] t \<and> log_frame (started3 v) t \<and> term_m t = 1 \<and> state_m t = candidate \<and>
     winned_votes_m t = 1 \<and> at0 (current_rpc_lsn_m t) srvA = 1 \<and>
     (\<forall>w \<in> set (others t). at0 (current_rpc_lsn_m t) w = 1)"

lemma rv_from_length: "v \<in> set cfg3 \<Longrightarrow> length (ser_rv codec (rv_from (ip_of v) (port_of v))) < 5120"
  using length_small_int [of "-1"] length_small_int [of 0] length_small_int [of 1] length_small_int [of 8001]
    length_small_int [of 8002] length_small_int [of 8003]
  by (auto simp: rv_from_def codec_def enc_rv_def length_enc_str)

lemma stands_campaign:
  assumes "v = srvB \<or> v = srvC"
  shows "stands v t \<longleftrightarrow> campaign codec [] (started3 v) 0 t"
proof -
  have A: "srvA \<in> set (others (started3 v))" using assms by (auto simp: started3_facts)
  have "others t = others (started3 v)" if "log_frame (started3 v) t" using that by (simp add: log_frame_def)
  then have "log_frame (started3 v) t \<Longrightarrow> at0 (current_rpc_lsn_m t) srvA = 1 \<and> (\<forall>w \<in> set (others t). at0 (current_rpc_lsn_m t) w = 1) \<longleftrightarrow>
      (\<forall>w \<in> set (others (started3 v)). at0 (current_rpc_lsn_m t) w = 1)"
    using A by metis
  then show ?thesis by (auto simp only: stands_def campaign_def started3_facts(1) of_nat_0 add_0_right add_0_left)
qed

lemma candidate_rv3: "candidate_rv (started3 v) = rv_from (ip_of v) (port_of v)"
  by (simp add: candidate_rv_def rv_from_def started3_facts)

lemma addresses3: "\<forall>w \<in> set (others (started3 v)). address_ok counting_asio (ip_of w)"
  by (auto simp: started3_facts counting_asio_def)

lemma stand3:
  assumes "v = srvB \<or> v = srvC"
  shows "surely (\<lambda>t. stands v t \<and> sent (started3 v) t
      (map (\<lambda>w. (w, wire (REQUEST_VOTE, ser_rv codec (rv_from (ip_of v) (port_of v))))) (others (started3 v))))
    (server_step codec counting_asio (Timer_event Run_handler No_error) (started3 v))"
proof -
  have v: "v \<in> set cfg3" using assms by auto
  have "server_step codec counting_asio (Timer_event Run_handler No_error) (started3 v) = trans2C codec counting_asio (started3 v)"
    by (simp add: run_handler_def started3_def counting_asio_def)
  moreover have "length (ser_rv codec (candidate_rv (started3 v))) < 9999"
    unfolding candidate_rv3 using rv_from_length [OF v] by simp
  ultimately show ?thesis
    using trans2C_campaign [OF started3_inv [OF v] counting_asio_law addresses3]
    unfolding stands_campaign [OF assms] candidate_rv3 by simp
qed

section \<open>Winning\<close>

definition yes_from_A :: Resp_RequestVoteRpc where
  "yes_from_A = \<lparr>rrv_ok = True, rrv_term = 1, rrv_lsn = 0, rrv_ip = ''10.0.0.1'', rrv_port = 8001\<rparr>"

definition heartbeat_from :: "endpoint \<Rightarrow> AppendEntryRpc" where
  "heartbeat_from v = \<lparr>ae_term = 1, ae_prelog_term = -1, ae_commit_index = -1, ae_lsn = 1,
     ae_ip = ip_of v, ae_port = port_of v, ae_entry = [], ae_prelog_index = -1\<rparr>"

lemma heartbeat_from_length: "v \<in> set cfg3 \<Longrightarrow> length (ser_ae codec (heartbeat_from v)) < 5120"
  using length_small_int [of "-1"] length_small_int [of 0] length_small_int [of 1] length_small_int [of 8001]
    length_small_int [of 8002] length_small_int [of 8003]
  by (auto simp: heartbeat_from_def codec_def enc_ae_def enc_list_def length_enc_str)

lemma first_heartbeat3: "first_heartbeat_of (started3 v) = heartbeat_from v"
  by (simp add: first_heartbeat_of_def heartbeat_from_def started3_facts)

lemma yes_to_3: "yes_to (rv_from ip port) (started3 srvA) = yes_from_A"
  by (simp add: yes_to_def yes_from_A_def rv_from_def started3_facts)

lemma win3:
  assumes v: "v = srvB \<or> v = srvC" and s: "stands v s"
  shows "surely (\<lambda>t. state_m t = primary \<and> term_m t = 1 \<and>
      sent s t (map (\<lambda>w. (w, wire (APPEND_ENTRY, ser_ae codec (heartbeat_from v)))) (others (started3 v))))
    (react2resp_rv codec counting_asio yes_from_A s)"
proof -
  have c: "campaign codec [] (started3 v) 0 s" using s stands_campaign [OF v] by simp
  have u: "addr_of (started3 srvA) \<in> set (others (started3 v))" using v by (auto simp: started3_facts)
  have "majority_m (started3 v) \<le> 2 + int 0" "length (ser_ae codec (first_heartbeat_of (started3 v))) < 9999"
    unfolding first_heartbeat3 using heartbeat_from_length [of v] v by (auto simp: started3_facts)
  from campaign_won [OF c u this(1) counting_asio_law addresses3 this(2)]
  show ?thesis unfolding first_heartbeat3 candidate_rv3 yes_to_3 by (rule surely_mono) (simp add: started3_facts)
qed

section \<open>Voting twice\<close>

lemma heartbeat_B: "first_heartbeat = heartbeat_from srvB"
  by (simp add: first_heartbeat_def heartbeat_from_def)

lemma answer_length:
  "length (ser_resp_rv codec yes_from_A) < 5120"
  using length_small_int [of 0] length_small_int [of 1] length_small_int [of 8001]
  by (simp add: yes_from_A_def codec_def enc_resp_rv_def length_enc_bool length_enc_str)

lemma ask3:
  assumes "raft_inv codec [] s" "ip_m s = ''10.0.0.1''" "port_m s = 8001" "term_m s \<le> 1" "ip \<noteq> []"
  shows "surely (\<lambda>t. vote_effect codec (rv_from ip port) s t \<and> raft_inv codec [] t)
    (react2rv codec counting_asio (rv_from ip port) s)"
  using ask_step [OF assms] by (simp add: reactToIncomingMsg_def)

lemma yes3:
  assumes "term_m s \<le> 1" "ip_m s = ''10.0.0.1''" "port_m s = 8001"
  shows "vote_reply codec s (rv_from ip port) True = ((ip, port), wire (RESP_VOTE, ser_resp_rv codec yes_from_A))"
  using assms by (simp add: vote_reply_def rv_from_def yes_from_A_def max_def)

text \<open>The first server, started, gives its vote to the second.\<close>

lemma vote_for_B:
  "\<exists>a. react2rv codec counting_asio (rv_from ''10.0.0.2'' 8002) (started3 srvA) = Ok a \<and> raft_inv codec [] a \<and>
     log_frame (started3 srvA) a \<and> term_m a = 1 \<and> state_m a = follower \<and>
     at0 (follower_rpc_lsn_m a) = lsn_after (started3 srvA) 1 srvB 0 \<and>
     sent (started3 srvA) a [(srvB, wire (RESP_VOTE, ser_resp_rv codec yes_from_A))]"
proof -
  let ?s = "started3 srvA"
  obtain a where a: "react2rv codec counting_asio (rv_from ''10.0.0.2'' 8002) ?s = Ok a"
    "vote_effect codec (rv_from ''10.0.0.2'' 8002) ?s a" "raft_inv codec [] a"
    using surelyD [OF ask3 [of ?s "''10.0.0.2''" 8002]] started3_inv by (auto simp: started3_facts)
  have "grants (rv_from ''10.0.0.2'' 8002) ?s"
    by (simp add: grants_def rv_from_def seen_lsn_def log_acceptable_def started3_facts)
  then have "vote_replies codec ?s (rv_from ''10.0.0.2'' 8002) = [(srvB, wire (RESP_VOTE, ser_resp_rv codec yes_from_A))]"
    using yes3 [of ?s "''10.0.0.2''" 8002]
    by (simp add: vote_replies_def started3_facts) (simp add: rv_from_def seen_lsn_def started3_facts)
  then have "sent ?s a [(srvB, wire (RESP_VOTE, ser_resp_rv codec yes_from_A))]" using a(2) by (simp add: vote_effect_def)
  moreover have "log_frame ?s a" "term_m a = 1" "state_m a = follower" "at0 (follower_rpc_lsn_m a) = lsn_after ?s 1 srvB 0"
    using a(2) by (simp_all add: vote_effect_def rv_from_def started3_facts)
  ultimately show ?thesis using a(1,3) by blast
qed

text \<open>The first server, started, gives its vote to the second, hears its heartbeat, and gives its vote to the third.\<close>

lemma vote3:
  "\<exists>a b c ack. react2rv codec counting_asio (rv_from ''10.0.0.2'' 8002) (started3 srvA) = Ok a \<and>
     sent (started3 srvA) a [(srvB, wire (RESP_VOTE, ser_resp_rv codec yes_from_A))] \<and> has_room a \<and>
     react2ae codec counting_asio (heartbeat_from srvB) a = Ok b \<and> sent a b [(srvB, ack)] \<and> has_room b \<and>
     react2rv codec counting_asio (rv_from ''10.0.0.3'' 8003) b = Ok c \<and>
     sent b c [(srvC, wire (RESP_VOTE, ser_resp_rv codec yes_from_A))]"
proof -
  let ?s = "started3 srvA"
  have beat: "server_step codec counting_asio beat s = react2ae codec counting_asio (heartbeat_from srvB) s" for s
    by (simp add: reactToIncomingMsg_def heartbeat_B)
  obtain a where a: "react2rv codec counting_asio (rv_from ''10.0.0.2'' 8002) ?s = Ok a" "raft_inv codec [] a"
    and a': "log_frame ?s a" "term_m a = 1" "state_m a = follower" "at0 (follower_rpc_lsn_m a) = lsn_after ?s 1 srvB 0"
    and sa: "sent ?s a [(srvB, wire (RESP_VOTE, ser_resp_rv codec yes_from_A))]"
    using vote_for_B by blast
  have ka: "ip_m a = ''10.0.0.1''" "port_m a = 8001" "entries_m a = empty_log" "configuration_m a = cfg3"
    using a'(1) by (simp_all add: log_frame_def started3_facts)
  have nf: "log_frame node1 ?s"
    by (simp add: log_frame_def started3_def server3_eq node1_eq startAccept_def start_op_def rpc_inv_def)
  then have na: "log_frame node1 a" using a'(1) log_frame_trans by blast
  obtain b where b: "react2ae codec counting_asio (heartbeat_from srvB) a = Ok b"
    "ae_effect codec (heartbeat_from srvB) a b" "raft_inv codec [] b"
    using surelyD [OF beat_step [OF a(2) na a'(2,3), unfolded beat]] unfolding heartbeat_B by blast
  have "seen_lsn a 1 srvB = 0" and s3: "seen_lsn a 1 srvC = -1"
    using a' by (simp_all add: seen_lsn_def lsn_after_def started3_facts)
  then have b': "term_m b = 1" "state_m b = follower" "\<not> already_voted_m b" "accepted (heartbeat_from srvB) a b"
    "at0 (follower_rpc_lsn_m b) = lsn_after a 1 srvB 1" "\<exists>ack. sent a b [(srvB, ack)]"
    using b(2) a' by (auto simp: ae_effect_def heartbeat_from_def log_matches_def ae_reply_def)
  have log: "log_of (entries_m b) = []" "ip_m b = ''10.0.0.1''" "port_m b = 8001"
    using b'(4) ka by (simp_all add: accepted_def log_after_def heartbeat_from_def)
  obtain c where c: "react2rv codec counting_asio (rv_from ''10.0.0.3'' 8003) b = Ok c"
    "vote_effect codec (rv_from ''10.0.0.3'' 8003) b c"
    using surelyD [OF ask3 [OF b(3), of "''10.0.0.3''" 8003]] log b'(1) by auto
  have g2: "grants (rv_from ''10.0.0.3'' 8003) b" and s4: "seen_lsn b 1 srvC = -1"
    using b' s3 log by (simp_all add: grants_def rv_from_def seen_lsn_def log_acceptable_def lsn_after_def)
  have sc: "sent b c [(srvC, wire (RESP_VOTE, ser_resp_rv codec yes_from_A))]"
  proof -
    have "vote_replies codec b (rv_from ''10.0.0.3'' 8003) = [(srvC, wire (RESP_VOTE, ser_resp_rv codec yes_from_A))]"
      using g2 yes3 [of b "''10.0.0.3''" 8003] b'(1) log s4
      by (simp add: vote_replies_def) (simp add: rv_from_def)
    then show ?thesis using c(2) by (simp add: vote_effect_def)
  qed
  have "has_room a" "has_room b"
    using ka log(1) room_log [OF raft_inv_log(1) [OF b(3)]] by simp_all
  with a(1) sa b(1) b'(6) c(1) sc show ?thesis by blast
qed

section \<open>The run\<close>

lemma next_first: "next_message v w b ((v, w, b) # ys) ys"
  unfolding next_message_def by (intro exI [of _ "[]"] exI [of _ ys]) simp

lemma next_later:
  assumes "(v', w') \<noteq> (v, w)" "next_message v w b ys rest"
  shows "next_message v w b ((v', w', b') # ys) ((v', w', b') # rest)"
proof -
  obtain xs zs where "ys = xs @ (v, w, b) # zs" "rest = xs @ zs" "\<forall>(v', w', b') \<in> set xs. (v', w') \<noteq> (v, w)"
    using assms(2) unfolding next_message_def by blast
  then show ?thesis
    using assms(1) unfolding next_message_def by (intro exI [of _ "(v', w', b') # xs"] exI [of _ zs]) simp
qed

lemmas next_intros = next_first next_later

text \<open>
  The run: B and C time out, both canvass A.  A votes for B, B wins and A hears B's first heartbeat, A
  votes for C, C wins.
\<close>

abbreviation canvass :: "endpoint \<Rightarrow> char list" where
  "canvass v \<equiv> wire (REQUEST_VOTE, ser_rv codec (rv_from (ip_of v) (port_of v)))"

lemma split_brain_run:
  obtains \<sigma> where "\<exists>\<sigma>5. reachable (cluster_init counting_asio [] cfg3) (cluster_step codec counting_asio [] cfg3)
        (\<sigma>5, [(srvB, srvA, canvass srvB), (srvB, srvC, canvass srvB), (srvC, srvA, canvass srvC), (srvC, srvB, canvass srvC)])"
    "\<exists>net. reachable (cluster_init counting_asio [] cfg3) (cluster_step codec counting_asio [] cfg3) (\<sigma>, net)"
    "state_m (\<sigma> srvB) = primary" "state_m (\<sigma> srvC) = primary" "term_m (\<sigma> srvB) = 1" "term_m (\<sigma> srvC) = 1"
proof -
  let ?R = "reachable (cluster_init counting_asio [] cfg3) (cluster_step codec counting_asio [] cfg3)"
  let ?rv = "\<lambda>v. wire (REQUEST_VOTE, ser_rv codec (rv_from (ip_of v) (port_of v)))"
  let ?yes = "wire (RESP_VOTE, ser_resp_rv codec yes_from_A)"
  let ?hb = "wire (APPEND_ENTRY, ser_ae codec (heartbeat_from srvB))"
  have cl: "clean []" by (simp add: clean_def)
  obtain b1 where b1: "server_step codec counting_asio (Timer_event Run_handler No_error) (started3 srvB) = Ok b1"
    "stands srvB b1" "sent (started3 srvB) b1 [(srvA, ?rv srvB), (srvC, ?rv srvB)]"
    using surelyD [OF stand3 [of srvB]] by (auto simp: started3_facts)
  obtain c1 where c1: "server_step codec counting_asio (Timer_event Run_handler No_error) (started3 srvC) = Ok c1"
    "stands srvC c1" "sent (started3 srvC) c1 [(srvA, ?rv srvC), (srvB, ?rv srvC)]"
    using surelyD [OF stand3 [of srvC]] by (auto simp: started3_facts)
  obtain a1 a2 a3 ack where a: "react2rv codec counting_asio (rv_from ''10.0.0.2'' 8002) (started3 srvA) = Ok a1"
    "sent (started3 srvA) a1 [(srvB, ?yes)]" "has_room a1"
    "react2ae codec counting_asio (heartbeat_from srvB) a1 = Ok a2" "sent a1 a2 [(srvB, ack)]" "has_room a2"
    "react2rv codec counting_asio (rv_from ''10.0.0.3'' 8003) a2 = Ok a3" "sent a2 a3 [(srvC, ?yes)]"
    using vote3 by blast
  obtain b2 where b2: "react2resp_rv codec counting_asio yes_from_A b1 = Ok b2" "state_m b2 = primary" "term_m b2 = 1"
    "sent b1 b2 [(srvA, ?hb), (srvC, ?hb)]"
    using surelyD [OF win3 [OF _ b1(2)]] by (auto simp: started3_facts)
  obtain c2 ms where c2: "react2resp_rv codec counting_asio yes_from_A c1 = Ok c2" "state_m c2 = primary" "term_m c2 = 1"
    "sent c1 c2 ms"
    using surelyD [OF win3 [OF _ c1(2)]] by auto
  have room: "has_room (started3 v)" "has_room b1" "has_room c1" for v
    using b1(2) c1(2) by (simp_all add: stands_def log_frame_def started3_facts)
  have rv: "handles codec counting_asio [] (?rv v) s t" if "v \<in> set cfg3" "has_room s"
    "react2rv codec counting_asio (rv_from (ip_of v) (port_of v)) s = Ok t" for v s t
    using that recv_wire [of "(REQUEST_VOTE, ser_rv codec (rv_from (ip_of v) (port_of v)))", OF _ cl] rv_from_length [OF that(1)]
    by (simp add: handles_def wire_fits_def reactToIncomingMsg_def)
  have yes: "handles codec counting_asio [] ?yes s t" if "has_room s" "react2resp_rv codec counting_asio yes_from_A s = Ok t" for s t
    using that recv_wire [of "(RESP_VOTE, ser_resp_rv codec yes_from_A)", OF _ cl] answer_length codec_law
    by (simp add: handles_def wire_fits_def reactToIncomingMsg_def)
  have hb: "handles codec counting_asio [] ?hb s t" if "has_room s" "react2ae codec counting_asio (heartbeat_from srvB) s = Ok t" for s t
    using that handles_ae [where ae = "heartbeat_from srvB" and A = counting_asio and s = s and t = t, OF codec_law _ cl]
      heartbeat_from_length [of srvB] by (simp add: wire_fits_def)
  note step = reachable_step [where step = "cluster_step codec counting_asio [] cfg3"]
  let ?s1 = "server3(srvA := started3 srvA, srvB := started3 srvB, srvC := started3 srvC)"
  have "?R (server3, [])" using cluster3_init by (rule reachable_init)
  then have "?R (server3(srvA := started3 srvA), [])" by (rule step [OF _ cluster_stepI [OF start]]) (simp_all add: run3)
  then have "?R (server3(srvA := started3 srvA, srvB := started3 srvB), [])" by (rule step [OF _ cluster_stepI [OF start]]) (simp_all add: run3)
  then have "?R (?s1, [])" by (rule step [OF _ cluster_stepI [OF start]]) (simp_all add: run3)
  then have "?R (?s1(srvB := b1), [] @ outgoing srvB [(srvA, ?rv srvB), (srvC, ?rv srvB)])"
    by (rule step [OF _ cluster_stepI [OF local_event [where ev = "Timer_event Run_handler No_error"]]]) (use b1 room in simp_all)
  then have "?R (?s1(srvB := b1, srvC := c1), ([] @ outgoing srvB [(srvA, ?rv srvB), (srvC, ?rv srvB)]) @
      outgoing srvC [(srvA, ?rv srvC), (srvB, ?rv srvC)])"
    by (rule step [OF _ cluster_stepI [OF local_event [where ev = "Timer_event Run_handler No_error"]]]) (use c1 room in simp_all)
  then have r5: "?R (?s1(srvB := b1, srvC := c1),
      [(srvB, srvA, ?rv srvB), (srvB, srvC, ?rv srvB), (srvC, srvA, ?rv srvC), (srvC, srvB, ?rv srvC)])"
    by (simp add: outgoing_def)
  have "?R (?s1(srvB := b1, srvC := c1, srvA := a1),
      [(srvB, srvC, ?rv srvB), (srvC, srvA, ?rv srvC), (srvC, srvB, ?rv srvC)] @ outgoing srvA [(srvB, ?yes)])"
    by (rule step [OF r5 cluster_stepI [OF receive [where v = srvB and b = "?rv srvB"]]]) (use a rv room in \<open>auto intro!: next_intros\<close>)
  then have r6: "?R (?s1(srvB := b1, srvC := c1, srvA := a1),
      [(srvB, srvC, ?rv srvB), (srvC, srvA, ?rv srvC), (srvC, srvB, ?rv srvC), (srvA, srvB, ?yes)])"
    by (simp add: outgoing_def)
  have "?R (?s1(srvB := b1, srvC := c1, srvA := a1, srvB := b2),
      [(srvB, srvC, ?rv srvB), (srvC, srvA, ?rv srvC), (srvC, srvB, ?rv srvC)] @ outgoing srvB [(srvA, ?hb), (srvC, ?hb)])"
    by (rule step [OF r6 cluster_stepI [OF receive [where v = srvA and b = ?yes]]]) (use b2 yes room in \<open>auto intro!: next_intros\<close>)
  then have r7: "?R (?s1(srvB := b1, srvC := c1, srvA := a1, srvB := b2),
      [(srvB, srvC, ?rv srvB), (srvC, srvA, ?rv srvC), (srvC, srvB, ?rv srvC), (srvB, srvA, ?hb), (srvB, srvC, ?hb)])"
    by (simp add: outgoing_def)
  have "?R (?s1(srvB := b1, srvC := c1, srvA := a1, srvB := b2, srvA := a2),
      [(srvB, srvC, ?rv srvB), (srvC, srvA, ?rv srvC), (srvC, srvB, ?rv srvC), (srvB, srvC, ?hb)] @ outgoing srvA [(srvB, ack)])"
    by (rule step [OF r7 cluster_stepI [OF receive [where v = srvB and b = ?hb]]]) (use a hb in \<open>auto intro!: next_intros\<close>)
  then have r8: "?R (?s1(srvB := b1, srvC := c1, srvA := a1, srvB := b2, srvA := a2),
      [(srvB, srvC, ?rv srvB), (srvC, srvA, ?rv srvC), (srvC, srvB, ?rv srvC), (srvB, srvC, ?hb), (srvA, srvB, ack)])"
    by (simp add: outgoing_def)
  have "?R (?s1(srvB := b1, srvC := c1, srvA := a1, srvB := b2, srvA := a2, srvA := a3),
      [(srvB, srvC, ?rv srvB), (srvC, srvB, ?rv srvC), (srvB, srvC, ?hb), (srvA, srvB, ack)] @ outgoing srvA [(srvC, ?yes)])"
    by (rule step [OF r8 cluster_stepI [OF receive [where v = srvC and b = "?rv srvC"]]]) (use a rv in \<open>auto intro!: next_intros\<close>)
  then have r9: "?R (?s1(srvB := b1, srvC := c1, srvA := a1, srvB := b2, srvA := a2, srvA := a3),
      [(srvB, srvC, ?rv srvB), (srvC, srvB, ?rv srvC), (srvB, srvC, ?hb), (srvA, srvB, ack), (srvA, srvC, ?yes)])"
    by (simp add: outgoing_def)
  have "?R (?s1(srvB := b1, srvC := c1, srvA := a1, srvB := b2, srvA := a2, srvA := a3, srvC := c2),
      [(srvB, srvC, ?rv srvB), (srvC, srvB, ?rv srvC), (srvB, srvC, ?hb), (srvA, srvB, ack)] @ outgoing srvC ms)"
    by (rule step [OF r9 cluster_stepI [OF receive [where v = srvA and b = ?yes]]]) (use c2 yes room in \<open>auto intro!: next_intros\<close>)
  then have r10: "\<exists>net. ?R (?s1(srvB := b1, srvC := c1, srvA := a1, srvB := b2, srvA := a2, srvA := a3, srvC := c2), net)" by blast
  show ?thesis
    by (rule that [OF exI [where x = "?s1(srvB := b1, srvC := c1)"] r10]) (use r5 b2(2,3) c2(2,3) in simp_all)
qed

text \<open>C11. Two servers can be primary in the same term. There is a run of a cluster of three, from its start and with every
  message delivered in the order it was sent on its connection, in which the election timers of two servers run
  out, and each of them is elected in term 1: the third server votes for the first candidate, hears its
  first heartbeat as primary, and then votes for the other candidate of the same term.\<close>

theorem two_primaries:
  "\<exists>\<sigma> net. reachable (cluster_init counting_asio [] cfg3) (cluster_step codec counting_asio [] cfg3) (\<sigma>, net) \<and>
     state_m (\<sigma> srvB) = primary \<and> state_m (\<sigma> srvC) = primary \<and> term_m (\<sigma> srvB) = 1 \<and> term_m (\<sigma> srvC) = 1"
  by (rule split_brain_run) blast

text \<open>The four vote requests of this run are an instance of \<open>cluster_messages_typed\<close>.\<close>

theorem cluster_messages_typed_witness:
  "\<exists>\<sigma> net. reachable (cluster_init counting_asio [] cfg3) (cluster_step codec counting_asio [] cfg3) (\<sigma>, net) \<and>
    (\<forall>v \<in> set cfg3. raft_inv codec [] (\<sigma> v) \<and> addr_of (\<sigma> v) = v) \<and>
    (srvB, srvA, canvass srvB) \<in> set net \<and>
    (\<exists>ty m. canvass srvB = wire (ty, m) \<and> msg_typed codec srvB (term_m (\<sigma> srvB)) (ty, m))" (is "\<exists>\<sigma> net. ?P \<sigma> net")
proof -
  obtain \<sigma> where r: "reachable (cluster_init counting_asio [] cfg3) (cluster_step codec counting_asio [] cfg3)
      (\<sigma>, [(srvB, srvA, canvass srvB), (srvB, srvC, canvass srvB), (srvC, srvA, canvass srvC), (srvC, srvB, canvass srvC)])"
    (is "?R (\<sigma>, ?net)") by (rule split_brain_run) blast
  have "clean []" by (simp add: clean_def)
  note all = cluster_messages_typed [OF r codec_law counting_asio_law this]
  have "\<forall>v \<in> set cfg3. raft_inv codec [] (\<sigma> v) \<and> addr_of (\<sigma> v) = v" using conjunct1 [OF all] by blast
  moreover have "\<exists>ty m. canvass srvB = wire (ty, m) \<and> msg_typed codec srvB (term_m (\<sigma> srvB)) (ty, m)"
    using bspec [OF conjunct2 [OF all] list.set_intros(1), unfolded prod.case] by blast
  moreover have "(srvB, srvA, canvass srvB) \<in> set ?net" by (rule list.set_intros(1))
  ultimately have "?P \<sigma> ?net" by (intro conjI r)
  then show ?thesis by blast
qed

end
