(* ===== verification/Raft_Matching.thy ===== *)
theory Raft_Matching
  imports Raft_Split
begin

text \<open>
  Logs of a whole cluster. \<open>orderly_step\<close> restricts the steps of \<open>Raft_Cluster\<close> to those in which the
  defects that other theorems exhibit do not show: a term has one primary, only a primary is given
  commands, a retry handler of \<open>AE\<close> runs only at a primary, and messages fit the receiver's buffer. Under
  these provisos any two logs of the cluster match, in every reachable state.
\<close>

section \<open>Logs that follow the primaries' logs\<close>

text \<open>\<open>G T\<close> is the log that the primary of term \<open>T\<close> has or last had, empty as long as there was none. A log
  is traced if each entry stands where it does in the log of its term's primary, behind the same entries.\<close>

definition traced :: "(int \<Rightarrow> rpc_Entry list) \<Rightarrow> rpc_Entry list \<Rightarrow> bool" where
  "traced G xs \<longleftrightarrow> (\<forall>k < length xs. take (Suc k) (G (en_term (xs ! k))) = take (Suc k) xs)"

lemma traced_Nil [simp]: "traced G []"
  by (simp add: traced_def)

lemma tracedD: "traced G xs \<Longrightarrow> k < length xs \<Longrightarrow> take (Suc k) (G (en_term (xs ! k))) = take (Suc k) xs"
  by (simp add: traced_def)

lemma traced_take: "traced G xs \<Longrightarrow> traced G (take n xs)"
  by (auto simp: traced_def min_def)

lemma traced_matching: "traced G xs \<Longrightarrow> traced G ys \<Longrightarrow> log_matching xs ys"
  unfolding log_matching_def by (metis min_less_iff_conj tracedD)

text \<open>The log of a term's primary grows.\<close>

lemma traced_grow:
  assumes "traced G xs"
  shows "traced (G(T := G T @ zs)) xs"
proof -
  have "take (Suc k) (G T @ zs) = take (Suc k) xs" if "k < length xs" "en_term (xs ! k) = T" for k
  proof -
    have e: "take (Suc k) (G T) = take (Suc k) xs" using tracedD [OF assms that(1)] that(2) by simp
    from arg_cong [OF e, of length] have "Suc k \<le> length (G T)" using that(1) by (simp add: min_def split: if_splits)
    with e show ?thesis by simp
  qed
  then show ?thesis using assms by (simp add: traced_def)
qed

lemma traced_snoc:
  assumes "traced G xs" "take (Suc (length xs)) (G (en_term e)) = xs @ [e]"
  shows "traced G (xs @ [e])"
  using assms by (auto simp: traced_def nth_append less_Suc_eq)

text \<open>An AppendEntries that is a piece of the log \<open>xs\<close>.\<close>

definition piece_of :: "rpc_Entry list \<Rightarrow> AppendEntryRpc \<Rightarrow> bool" where
  "piece_of xs ae \<longleftrightarrow>
     -1 \<le> ae_prelog_index ae \<and> ae_prelog_index ae < int (length xs) \<and>
     (0 \<le> ae_prelog_index ae \<longrightarrow> ae_prelog_term ae = en_term (xs ! nat (ae_prelog_index ae))) \<and>
     (ae_entry ae = [] \<or>
      (nat (ae_prelog_index ae + 1) < length xs \<and> ae_entry ae = [xs ! nat (ae_prelog_index ae + 1)]))"

lemma piece_of_append: "piece_of xs ae \<Longrightarrow> piece_of (xs @ ys) ae"
  by (auto simp: piece_of_def nth_append)

lemma piece_accepted:
  assumes "traced G xs" "traced G (G T)" "piece_of (G T) ae" "log_matches ae xs"
  shows "traced G (log_after ae xs)"
proof (cases "ae_entry ae")
  case Nil
  then show ?thesis using assms(1) by (simp add: log_after_def)
next
  case (Cons e es)
  define n where "n = nat (ae_prelog_index ae + 1)"
  have e: "n < length (G T)" "e = G T ! n" "es = []" using assms(3) Cons by (auto simp: piece_of_def n_def)
  have "take n xs = take n (G T)"
  proof (cases n)
    case (Suc k)
    then have k: "nat (ae_prelog_index ae) = k" "0 \<le> ae_prelog_index ae" by (auto simp: n_def)
    have x: "k < length xs" "k < length (G T)" "en_term (xs ! k) = en_term (G T ! k)"
      using assms(3,4) k by (auto simp: piece_of_def log_matches_def)
    show ?thesis using tracedD [OF assms(1) x(1)] tracedD [OF assms(2) x(2)] x(3) by (simp add: Suc)
  qed simp
  then have "log_after ae xs = take (Suc n) (G T)"
    using e Cons by (simp add: log_after_def n_def [symmetric] take_Suc_conv_app_nth)
  then show ?thesis using traced_take [OF assms(2)] by simp
qed

section \<open>What a handler does to the log, and which pieces of it it sends\<close>

definition says_log :: "pb \<Rightarrow> 't RaftServer \<Rightarrow> RPC_TYPE \<times> string \<Rightarrow> bool" where
  "says_log P t x \<longleftrightarrow> fst x \<notin> {ERROR, CLIENT_APPLY} \<and>
     (fst x = APPEND_ENTRY \<longrightarrow> state_m t = primary \<and>
        ae_term (parse_ae P (snd x)) = term_m t \<and> piece_of (log_of (entries_m t)) (parse_ae P (snd x)))"

definition says :: "pb \<Rightarrow> 't RaftServer \<Rightarrow> 't RaftServer \<Rightarrow> bool" where
  "says P s t \<longleftrightarrow> (state_m t = primary \<longrightarrow> term_m t = term_m s) \<and>
     (\<exists>xs. sent s t (map (\<lambda>(w, x). (w, wire x)) xs) \<and> (\<forall>(w, x) \<in> set xs. says_log P t x))"

text \<open>Most handlers leave the log alone.\<close>

definition still :: "pb \<Rightarrow> 't RaftServer \<Rightarrow> 't RaftServer \<Rightarrow> bool" where
  "still P s t \<longleftrightarrow> entries_m t = entries_m s \<and> says P s t"

lemma says_quiet: "(state_m t = primary \<Longrightarrow> term_m t = term_m s) \<Longrightarrow> sent s t [] \<Longrightarrow> says P s t"
  unfolding says_def by (intro conjI exI [of _ "[]"]) simp_all

lemma says_one:
  "(state_m t = primary \<Longrightarrow> term_m t = term_m s) \<Longrightarrow> sent s t [(w, wire x)] \<Longrightarrow> says_log P t x \<Longrightarrow> says P s t"
  unfolding says_def by (intro conjI exI [of _ "[(w, x)]"]) simp_all

lemma says_round:
  assumes "state_m t = primary \<Longrightarrow> term_m t = term_m s" "sent s t (map (\<lambda>v. (v, wire (f v))) vs)"
    and "\<And>v. v \<in> set vs \<Longrightarrow> says_log P t (f v)"
  shows "says P s t"
proof -
  have "sent s t (map (\<lambda>(w, x). (w, wire x)) (map (\<lambda>v. (v, f v)) vs))" using assms(2) by (simp add: comp_def)
  then show ?thesis
    using assms(1,3) unfolding says_def by (intro conjI exI [of _ "map (\<lambda>v. (v, f v)) vs"]) auto
qed

lemma still_cong:
  assumes "still P s t" "entries_m s = entries_m r" "term_m s = term_m r" "network_m s = network_m r"
  shows "still P r t"
  using assms sent_cong [of s r t t] unfolding still_def says_def by auto

lemma still_refl: "still P s s"
  by (simp add: still_def says_quiet sent_same)

lemma says_other: "ty \<notin> {ERROR, CLIENT_APPLY, APPEND_ENTRY} \<Longrightarrow> says_log P t (ty, m)"
  by (simp add: says_log_def)

lemma says_piece:
  assumes "pb_law P" "state_m t = primary" "ae_term ae = term_m t" "piece_of (log_of (entries_m t)) ae"
  shows "says_log P t (APPEND_ENTRY, ser_ae P ae)"
  using assms by (simp add: says_log_def)

section \<open>Every handler\<close>

lemma ae_at_piece:
  assumes "entries_inv (entries_m s)" "0 \<le> n" "n \<le> Entries_size (entries_m s)"
  shows "piece_of (log_of (entries_m s)) (ae_at s v n c)"
  using assms entries.size_log [OF assms(1)] by (auto simp: piece_of_def ae_at_def)

lemma heartbeat_piece:
  assumes "entries_inv (entries_m s)"
  shows "piece_of (log_of (entries_m s)) (heartbeat s v)"
  using entries.size_log [OF assms]
  by (auto simp: piece_of_def heartbeat_def last_conv_nth intro!: arg_cong [where f = "\<lambda>k. en_term (log_of (entries_m s) ! k)"])

lemma AE_still:
  assumes "pb_law P" "raft_inv P m0 s" "state_m s = primary"
  shows "okp (still P s) (AE P A v s)"
proof (cases "fst (build_rpc_ae v s)")
  case (Inl e)
  then show ?thesis by (simp add: AE_def split_def Let_def)
next
  case (Inr ae)
  note a = build_ae_at [OF assms(2) Inr]
  have b: "piece_of (log_of (entries_m s)) ae" "ae_term ae = term_m s"
    unfolding a(3) using ae_at_piece [OF raft_inv_log(1) [OF assms(2)] a(1,2)] by (simp_all add: ae_at_def)
  have "okp (\<lambda>t. frame s t \<and> sent s t [(v, wire (APPEND_ENTRY, ser_ae P ae))]) (AE P A v s)"
    unfolding okp_conj using AE_sends [OF raft_inv_log(5) [OF assms(2)], of v P A] frame_AE [of s P A v] a(4)
    by (simp add: okp_conj)
  then show ?thesis
    by (rule okp_mono) (use b assms in \<open>auto simp: still_def log_frame_def vote_frame_def intro!: says_one says_piece\<close>)
qed

lemma RV_still:
  assumes "raft_inv P m0 s"
  shows "okp (still P s) (RV P A v s)"
proof -
  have "okp (\<lambda>t. frame s t \<and> sent s t [(v, wire (REQUEST_VOTE, ser_rv P (rv_to s v)))]) (RV P A v s)"
    unfolding okp_conj using RV_sends [OF raft_inv_log(5) [OF assms], of v P A] frame_RV [of s P A v]
    by (simp add: okp_conj)
  then show ?thesis
    by (rule okp_mono) (auto simp: still_def log_frame_def vote_frame_def intro!: says_one says_other)
qed

lemma trans2F_still: "okp (still P s) (trans2F A T s)"
  using conjI [OF trans2F_effect [of s T A] trans2F_keeps [of s T A], folded okp_conj]
  by (rule okp_mono) (auto simp: still_def log_frame_def intro!: says_quiet sent_same)

lemma trans2C_still:
  assumes "raft_inv P m0 s"
  shows "okp (still P s) (trans2C P A s)"
proof -
  have c: "rpc_inv (network_m s)" "distinct (configuration_m s)"
    using assms by (simp_all add: raft_inv_def conf_inv_def)
  show ?thesis
    using conjI [OF trans2C_effect [of s P A] trans2C_sends [OF c, of P A], folded okp_conj]
  proof (rule okp_mono, elim conjE)
    fix t assume t: "log_frame s t" "state_m t = candidate"
      "sent s t (map (\<lambda>v. (v, wire (REQUEST_VOTE, ser_rv P (candidate_rv s)))) (others s))"
    show "still P s t"
      using t(1,2) says_round [OF _ t(3), of P] by (simp add: still_def log_frame_def says_other)
  qed
qed

lemma trans2P_still:
  assumes "pb_law P" "raft_inv P m0 s"
  shows "okp (still P s) (trans2P P A s)"
proof -
  have c: "rpc_inv (network_m s)" "distinct (configuration_m s)" "entries_inv (entries_m s)"
    using assms(2) by (simp_all add: raft_inv_def conf_inv_def log_inv_def)
  have f: "okp (frame (primary_state A s)) (trans2P P A s)"
    unfolding trans2P_eq by (intro frame_for_others frame_AE)
  show ?thesis
    using conjI [OF f trans2P_sends [OF c, of P A], folded okp_conj]
  proof (rule okp_mono)
    fix t assume t: "frame (primary_state A s) t \<and> sent s t (map (\<lambda>v. (v, wire (APPEND_ENTRY, ser_ae P (heartbeat s v)))) (others s))"
    then have f: "entries_m t = entries_m s" "term_m t = term_m s" "state_m t = primary"
      by (simp_all add: log_frame_def vote_frame_def primary_state_def cancel_all_timers_def)
    have "says_log P t (APPEND_ENTRY, ser_ae P (heartbeat s v))" for v
      by (rule says_piece [OF assms(1) f(3)]) (use f heartbeat_piece [OF c(3)] in \<open>simp_all add: heartbeat_def\<close>)
    then show "still P s t"
      using f t says_round [of t s "\<lambda>v. (APPEND_ENTRY, ser_ae P (heartbeat s v))" "others s" P] by (simp add: still_def)
  qed
qed

lemma react2rv_still:
  assumes "raft_inv P m0 s"
  shows "okp (still P s) (react2rv P A rv s)"
proof (rule okp_mono [OF react2rv_effect [OF raft_inv_log(1,5) [OF assms]]])
  fix t assume e: "vote_effect P rv s t"
  then have p: "term_m t = term_m s" if "state_m t = primary" using that by (auto simp: vote_effect_def split: if_splits)
  have "says P s t" if "sent s t [vote_reply P s rv b]" for b
    using that by (intro says_one [OF p _ says_other]) (auto simp: vote_reply_def)
  moreover have "says P s t" if "sent s t []" using that by (intro says_quiet p)
  moreover have "vote_replies P s rv = [] \<or> (\<exists>b. vote_replies P s rv = [vote_reply P s rv b])"
    by (auto simp: vote_replies_def)
  moreover have "sent s t (vote_replies P s rv)" using e by (simp add: vote_effect_def)
  ultimately have "says P s t" by metis
  then show "still P s t" using e by (simp add: still_def vote_effect_def log_frame_def)
qed

lemma react2resp_ae_still:
  assumes "pb_law P" "raft_inv P m0 s"
  shows "okp (still P s) (react2resp_ae P A r s)"
proof -
  let ?v = "(rae_ip r, rae_port r)"
  have deal: "okp (still P s) (primary_deal_resp_ae_with_same_term P A ?v r s)" if p: "state_m s = primary"
  proof (rule okp_mono)
    show "okp (\<lambda>t. ack_effect P ?v r s t \<and> deal_frame ?v (rae_ok r) s t) (primary_deal_resp_ae_with_same_term P A ?v r s)"
      unfolding okp_conj using primary_deal_effect [OF assms(2) p] deal_frame_effect by blast
    fix t assume t: "ack_effect P ?v r s t \<and> deal_frame ?v (rae_ok r) s t"
    then have d: "entries_m t = entries_m s" "state_m t = primary" "term_m t = term_m s"
      using p by (simp_all add: deal_frame_def vote_frame_def)
    note b = raft_inv_log(1) [OF assms(2)]
    have n: "0 \<le> at0 (nextIndex_m s) ?v" using assms(2) unfolding raft_inv_def book_inv_def by blast
    have "says P s t" if x: "sends_ae P ?v n c s t" "0 \<le> n" "n \<le> Entries_size (entries_m s)" for n c
    proof (rule says_one)
      show "sent s t [(?v, wire (APPEND_ENTRY, ser_ae P (ae_at s ?v n c)))]" using x(1) by (simp add: sends_ae_def)
      show "says_log P t (APPEND_ENTRY, ser_ae P (ae_at s ?v n c))"
        using says_piece [OF assms(1) d(2)] ae_at_piece [OF b x(2,3)] d by (simp add: ae_at_def)
    qed (rule d)
    moreover have "says P s t" if "sent s t []" using that d by (intro says_quiet)
    ultimately have "says P s t" using t n by (auto simp: ack_effect_def Let_def split: if_splits)
    then show "still P s t" using d by (simp add: still_def)
  qed
  show ?thesis
    using trans2F_still [of P s A "rae_term r"] deal still_refl [of P s] by (auto simp: react2resp_ae_def Let_def)
qed

lemma react2resp_rv_still:
  assumes "pb_law P" "raft_inv P m0 s"
  shows "okp (still P s) (react2resp_rv P A r s)"
proof -
  let ?v = "(rrv_ip r, rrv_port r)"
  have win: "okp (still P s) (trans2P P A (s\<lparr>current_rpc_lsn_m := l, winned_votes_m := w\<rparr>))" for l w
  proof -
    have "raft_inv P m0 (s\<lparr>current_rpc_lsn_m := l, winned_votes_m := w\<rparr>)"
      using assms(2) by (simp add: raft_inv_def conf_inv_def log_inv_def book_inv_def)
    from trans2P_still [OF assms(1) this, of A] show ?thesis by (rule okp_mono) (erule still_cong, simp_all)
  qed
  have q: "still P s (s\<lparr>current_rpc_lsn_m := l, winned_votes_m := w, retry_timers_m := rt\<rparr>)" for l w rt
    by (simp add: still_def says_quiet sent_same)
  have "okp (still P s) (candidate_deal_resp_rv_with_same_term P A ?v r s)"
    unfolding candidate_deal_resp_rv_with_same_term_def Let_def okp_if
    using win q by (auto simp: still_def intro!: says_quiet sent_same split: option.splits)
  then show ?thesis
    using trans2F_still [of P s A "rrv_term r"] still_refl [of P s] by (auto simp: react2resp_rv_def Let_def)
qed

text \<open>The expiry of a retry timer of \<open>AE\<close> is only handled at a primary, and only a primary gets a command. (A
  handler that was queued before its server changed its role can break the first, see the note on
  \<open>AE_retry_handler\<close>; \<open>append_client_apply_to_entries\<close> does not check the second.)\<close>

fun orderly :: "'t asio \<Rightarrow> event \<Rightarrow> 't RaftServer \<Rightarrow> bool" where
  "orderly A (Timer_event (AE_handler v) No_error) s =
     (case map_of (retry_timers_m s) v of None \<Rightarrow> True | Some t \<Rightarrow> is_min_date_time A t \<or> state_m s = primary)"
| "orderly A (Incoming CLIENT_APPLY m peer) s = (state_m s = primary)"
| "orderly A ev s = True"

lemma timer_still:
  assumes "pb_law P" "raft_inv P m0 s" "orderly A (Timer_event h err) s"
  shows "okp (still P s) (timer_handler P A h err s)"
  using assms(3) trans2C_still [OF assms(2), of A] AE_still [OF assms(1,2)] RV_still [OF assms(2)] still_refl [of P s]
  by (cases h) (auto simp: run_handler_def trans2F_handler_def trans2C_handler_def AE_retry_handler_def
      RV_retry_handler_def wp split: error_code.splits option.splits)

lemma posted_still:
  assumes "raft_inv P m0 s"
  shows "okp (still P s) (server_step P A (Posted p) s)"
proof -
  have "okp (still P s) (net_call P A ty v m s)" if "ty = RESP_CLIENT_APPLY \<or> ty = RESP_CLIENT_QUERY" for ty v m
    using conjI [OF net_call_sends [OF raft_inv_log(5) [OF assms], of v ty m P A] frame_net_call [of s P A ty v m], folded okp_conj]
    by (rule okp_mono) (use that in \<open>auto simp: still_def log_frame_def vote_frame_def intro!: says_one says_other\<close>)
  then show ?thesis
    using still_refl [of P s] by (auto simp: write_resp_apply_call_def write_resp_query_call_def split: post.splits option.splits)
qed

text \<open>What an event may change in the log.\<close>

fun log_change :: "pb \<Rightarrow> event \<Rightarrow> 't RaftServer \<Rightarrow> 't RaftServer \<Rightarrow> bool" where
  "log_change P (Incoming APPEND_ENTRY m peer) s t =
     (log_of (entries_m t) = log_of (entries_m s) \<or>
      (state_m t = follower \<and> log_matches (parse_ae P m) (log_of (entries_m s)) \<and>
       log_of (entries_m t) = log_after (parse_ae P m) (log_of (entries_m s))))"
| "log_change P (Incoming CLIENT_APPLY m peer) s t =
     (term_m t = term_m s \<and> state_m t = state_m s \<and>
      (\<exists>e. en_term e = term_m s \<and> log_of (entries_m t) = log_of (entries_m s) @ [e]))"
| "log_change P ev s t = (log_of (entries_m t) = log_of (entries_m s))"

lemma still_log:
  assumes "still P s t" "\<And>m peer. ev \<noteq> Incoming CLIENT_APPLY m peer"
  shows "log_change P ev s t \<and> says P s t"
proof (cases ev)
  case (Incoming ty m peer)
  then show ?thesis using assms by (cases ty) (simp_all add: still_def)
qed (use assms(1) in \<open>simp_all add: still_def\<close>)

lemma react2ae_log:
  assumes "raft_inv P m0 s" "has_room s"
  shows "okp (\<lambda>t. log_change P (Incoming APPEND_ENTRY m peer) s t \<and> says P s t) (react2ae P A (parse_ae P m) s)"
proof (rule okp_mono [OF react2ae_effect [OF raft_inv_log(1) [OF assms(1)] assms(2) raft_inv_log(5) [OF assms(1)]]])
  let ?ae = "parse_ae P m"
  fix t assume e: "ae_effect P ?ae s t"
  then have p: "term_m t = term_m s" if "state_m t = primary"
    using that by (auto simp: ae_effect_def vote_frame_def split: if_splits)
  have "says P s t" if "sent s t [ae_reply P s ?ae b]" for b
    using that by (intro says_one [OF p _ says_other]) (auto simp: ae_reply_def)
  moreover have "says P s t" if "sent s t []" using that by (intro says_quiet p)
  ultimately show "log_change P (Incoming APPEND_ENTRY m peer) s t \<and> says P s t"
    using e by (auto simp: ae_effect_def accepted_def log_frame_def split: if_splits)
qed

lemma append_client_log:
  assumes "raft_inv P m0 s" "has_room s"
  shows "okp (\<lambda>t. log_change P (Incoming CLIENT_APPLY str c) s t \<and> says P s t) (append_client_apply_to_entries P c str s)"
proof -
  let ?n = "Entries_size (entries_m s)"
  let ?e = "\<lparr>en_term = term_m s, en_index = ?n, en_msg = str\<rparr>"
  let ?s = "s\<lparr>entryIndex_to_socketAddr_map_m := put ?n c (entryIndex_to_socketAddr_map_m s)\<rparr>"
  note inv = raft_inv_log(1) [OF assms(1)]
  have n: "?n = int (length (log_of (entries_m s)))" using inv by (rule entries.size_log)
  have "okp (\<lambda>t. \<exists>es. t = ?s\<lparr>entries_m := es\<rparr> \<and> entries_inv es \<and> log_of es = take (nat ?n) (log_of (entries_m ?s)) @ [?e])
      (insert_entry P ?n ?e ?s)"
    by (rule insert_entry_effect) (use inv assms n in simp_all)
  then have "okp (\<lambda>t. log_change P (Incoming CLIENT_APPLY str c) s (t\<lparr>Follower_saved_index_m := f t\<rparr>) \<and>
      says P s (t\<lparr>Follower_saved_index_m := f t\<rparr>)) (insert_entry P ?n ?e ?s)" for f
    by (rule okp_mono) (use n in \<open>auto intro!: says_quiet sent_same exI [of _ ?e]\<close>)
  then show ?thesis by (simp add: append_client_apply_to_entries_def Let_def wp)
qed

lemma query_still: "okp (still P s) (get_from_state_machine c str s)"
  by (auto simp: get_from_state_machine_def okp_map_outcome still_def intro!: okpI says_quiet sent_same)

theorem server_step_log:
  assumes "pb_law P" "raft_inv P m0 s" "has_room s" "orderly A ev s"
  shows "okp (\<lambda>t. log_change P ev s t \<and> says P s t) (server_step P A ev s)"
proof (cases "\<exists>ty m peer. ev = Incoming ty m peer")
  case True
  then obtain ty m peer where ev: "ev = Incoming ty m peer" by blast
  have keep: "okp (\<lambda>t. log_change P ev s t \<and> says P s t) r" if "okp (still P s) r" "ty \<noteq> CLIENT_APPLY" for r
    using that(1) by (rule okp_mono) (rule still_log, use that(2) ev in auto)
  show ?thesis
    using react2ae_log [OF assms(2,3), of m peer A] append_client_log [OF assms(2,3), of m peer] ev
      keep [OF react2rv_still [OF assms(2), of A "parse_rv P m"]] keep [OF query_still [of P s peer m]]
      keep [OF react2resp_ae_still [OF assms(1,2), of A "parse_resp_ae P m"]]
      keep [OF react2resp_rv_still [OF assms(1,2), of A "parse_resp_rv P m"]] keep [of "Ok s"] still_refl [of P s]
    by (cases ty) (simp_all add: reactToIncomingMsg_def)
next
  case False
  then have "okp (still P s) (server_step P A ev s)"
    using timer_still [OF assms(1,2), of A] posted_still [OF assms(2), of A] assms(4) by (cases ev) auto
  then show ?thesis by (rule okp_mono) (rule still_log, use False in auto)
qed

section \<open>The cluster\<close>

text \<open>Election safety, as a proviso: \<open>leader T\<close> is the only member that is ever primary in term \<open>T\<close>.\<close>

definition elected :: "(int \<Rightarrow> endpoint) \<Rightarrow> endpoint list \<Rightarrow> 't cluster \<Rightarrow> bool" where
  "elected leader cfg x \<longleftrightarrow> (\<forall>v \<in> set cfg. state_m (fst x v) = primary \<longrightarrow> leader (term_m (fst x v)) = v)"

text \<open>No message under way is longer than a receiver's buffer.\<close>

definition short_messages :: "'t cluster \<Rightarrow> bool" where
  "short_messages x \<longleftrightarrow> (\<forall>(v, w, b) \<in> set (snd x). length b < 5125)"

definition orderly_step :: "(int \<Rightarrow> endpoint) \<Rightarrow> pb \<Rightarrow> 't asio \<Rightarrow> string \<Rightarrow> endpoint list \<Rightarrow> 't cluster \<Rightarrow> 't cluster \<Rightarrow> bool" where
  "orderly_step leader P A junk cfg x y \<longleftrightarrow>
     (\<exists>l. cluster_move P A junk cfg l x y \<and> (case l of None \<Rightarrow> True | Some (w, ev) \<Rightarrow> orderly A ev (fst x w))) \<and>
     elected leader cfg y \<and> short_messages y"

definition fresh_init :: "'t asio \<Rightarrow> mock_state_machine \<Rightarrow> endpoint list \<Rightarrow> 't cluster \<Rightarrow> bool" where
  "fresh_init A m0 cfg x \<longleftrightarrow> cluster_init A m0 cfg x \<and> (\<forall>v \<in> set cfg. log_of (entries_m (fst x v)) = [])"

text \<open>The invariant, with the primaries' logs \<open>G\<close>.\<close>

definition follows :: "pb \<Rightarrow> (int \<Rightarrow> rpc_Entry list) \<Rightarrow> RPC_TYPE \<times> string \<Rightarrow> bool" where
  "follows P G x \<longleftrightarrow> fst x \<notin> {ERROR, CLIENT_APPLY} \<and>
     (fst x = APPEND_ENTRY \<longrightarrow> piece_of (G (ae_term (parse_ae P (snd x)))) (parse_ae P (snd x)))"

definition traced_inv :: "(int \<Rightarrow> endpoint) \<Rightarrow> pb \<Rightarrow> endpoint list \<Rightarrow> (int \<Rightarrow> rpc_Entry list) \<Rightarrow> 't cluster \<Rightarrow> bool" where
  "traced_inv leader P cfg G x \<longleftrightarrow>
     (\<forall>T. traced G (G T)) \<and>
     (\<forall>v \<in> set cfg. traced G (log_of (entries_m (fst x v))) \<and>
        (state_m (fst x v) = primary \<longrightarrow> G (term_m (fst x v)) = log_of (entries_m (fst x v))) \<and>
        (\<forall>T. leader T = v \<longrightarrow> term_m (fst x v) < T \<or> (term_m (fst x v) = T \<and> state_m (fst x v) = candidate) \<longrightarrow> G T = [])) \<and>
     (\<forall>(v, w, b) \<in> set (snd x). \<exists>y. b = wire y \<and> follows P G y)"

lemma traced_invD:
  assumes "traced_inv leader P cfg G (\<sigma>, net)"
  shows "traced G (G T)" "v \<in> set cfg \<Longrightarrow> traced G (log_of (entries_m (\<sigma> v)))"
    "v \<in> set cfg \<Longrightarrow> state_m (\<sigma> v) = primary \<Longrightarrow> G (term_m (\<sigma> v)) = log_of (entries_m (\<sigma> v))"
    "v \<in> set cfg \<Longrightarrow> leader T = v \<Longrightarrow> term_m (\<sigma> v) < T \<or> (term_m (\<sigma> v) = T \<and> state_m (\<sigma> v) = candidate) \<Longrightarrow> G T = []"
    "(v, u, b) \<in> set net \<Longrightarrow> \<exists>y. b = wire y \<and> follows P G y"
  using assms unfolding traced_inv_def by (fastforce simp del: split_paired_Ex)+

lemma traced_invI:
  assumes "\<And>T. traced G (G T)" "\<And>v. v \<in> set cfg \<Longrightarrow> traced G (log_of (entries_m (\<sigma> v)))"
    "\<And>v. v \<in> set cfg \<Longrightarrow> state_m (\<sigma> v) = primary \<Longrightarrow> G (term_m (\<sigma> v)) = log_of (entries_m (\<sigma> v))"
    "\<And>v T. v \<in> set cfg \<Longrightarrow> leader T = v \<Longrightarrow>
       term_m (\<sigma> v) < T \<or> (term_m (\<sigma> v) = T \<and> state_m (\<sigma> v) = candidate) \<Longrightarrow> G T = []"
    "\<And>v u b. (v, u, b) \<in> set net \<Longrightarrow> \<exists>y. b = wire y \<and> follows P G y"
  shows "traced_inv leader P cfg G (\<sigma>, net)"
  using assms unfolding traced_inv_def by (simp del: split_paired_Ex) blast

text \<open>A member \<open>w\<close> goes from \<open>\<sigma> w\<close> to \<open>t\<close>: its log stays, or it takes over a piece of a primary's log, or it
  is primary and appends an entry of its term.\<close>

definition advance :: "pb \<Rightarrow> (int \<Rightarrow> rpc_Entry list) \<Rightarrow> 't RaftServer \<Rightarrow> 't RaftServer \<Rightarrow> bool" where
  "advance P G s t \<longleftrightarrow>
     term_m s \<le> term_m t \<and>
     (state_m t = candidate \<longrightarrow> term_m t = term_m s \<longrightarrow> state_m s = candidate) \<and>
     (state_m t = primary \<longrightarrow> term_m t = term_m s \<and> state_m s \<in> {primary, candidate}) \<and>
     (log_of (entries_m t) = log_of (entries_m s) \<or>
      (state_m t = follower \<and> traced G (log_of (entries_m t))) \<or>
      (state_m s = primary \<and> state_m t = primary \<and>
       (\<exists>e. en_term e = term_m s \<and> log_of (entries_m t) = log_of (entries_m s) @ [e])))"

lemma traced_other:
  assumes inv: "traced_inv leader P cfg G (\<sigma>, net)" and w: "w \<in> set cfg" and a: "advance P G (\<sigma> w) t"
    and False: "state_m t \<noteq> primary"
    and net: "set net' \<subseteq> set net \<union> {(w, u, wire x) | u x. says_log P t x}"
  shows "traced_inv leader P cfg G (\<sigma>(w := t), net')"
proof -
  note i = traced_invD [OF inv]
  have x: "log_of (entries_m t) = log_of (entries_m (\<sigma> w)) \<or> traced G (log_of (entries_m t))"
    using a False by (auto simp: advance_def)
  have "G T = []" if "leader T = w" "term_m t < T \<or> (term_m t = T \<and> state_m t = candidate)" for T
  proof -
    have "term_m (\<sigma> w) < T \<or> (term_m (\<sigma> w) = T \<and> state_m (\<sigma> w) = candidate)"
      using a that(2) by (auto simp: advance_def)
    then show ?thesis by (rule i(4) [OF w that(1)])
  qed
  moreover have "\<exists>y. b = wire y \<and> follows P G y" if m: "(v, u, b) \<in> set net'" for v u b
  proof (cases "(v, u, b) \<in> set net")
    case True
    then show ?thesis by (rule i(5))
  next
    case new: False
    then obtain y where "b = wire y" "says_log P t y" using net m by (auto simp del: split_paired_Ex)
    with False show ?thesis by (intro exI [of _ y]) (auto simp: says_log_def follows_def)
  qed
  ultimately show ?thesis
    using i(1) i(2-4) [of v for v] x False w by (intro traced_invI) (auto split: if_splits)
qed

text \<open>The log of a primary continues the log it had in this term, or begins it.\<close>

lemma primary_log:
  assumes inv: "traced_inv leader P cfg G (\<sigma>, net)" and w: "w \<in> set cfg" and a: "advance P G (\<sigma> w) t"
    and p: "state_m t = primary" "term_m t = T" "leader T = w"
  shows "\<exists>zs. log_of (entries_m t) = G T @ zs \<and> traced (G(T := G T @ zs)) (G T @ zs)"
proof (cases "state_m (\<sigma> w) = primary")
  note i = traced_invD [OF inv]
  case True
  have e: "G T = log_of (entries_m (\<sigma> w))" using i(3) [OF w True] a p(1,2) by (simp add: advance_def)
  consider "log_of (entries_m t) = G T" | x where "en_term x = T" "log_of (entries_m t) = G T @ [x]"
    using a p(1,2) unfolding e by (auto simp: advance_def)
  then show ?thesis
  proof cases
    case 1
    then show ?thesis using i(1) [of T] by (intro exI [of _ "[]"]) simp
  next
    case 2
    have "traced (G(T := G T @ [x])) (G T @ [x])"
      by (rule traced_snoc [OF traced_grow [OF i(1)]]) (simp add: 2)
    with 2 show ?thesis by blast
  qed
next
  note i = traced_invD [OF inv]
  case False
  then have s: "term_m (\<sigma> w) = T" "state_m (\<sigma> w) = candidate" "log_of (entries_m t) = log_of (entries_m (\<sigma> w))"
    using a p(1,2) by (auto simp: advance_def)
  then have "G T = []" using i(4) [OF w p(3)] by simp
  with s(3) traced_grow [OF i(2) [OF w], of T "log_of (entries_m t)"] show ?thesis by simp
qed

lemma traced_primary:
  assumes inv: "traced_inv leader P cfg G (\<sigma>, net)" and w: "w \<in> set cfg" and a: "advance P G (\<sigma> w) t"
    and p: "state_m t = primary" "term_m t = T" and el: "elected leader cfg (\<sigma>(w := t), net')"
    and net: "set net' \<subseteq> set net \<union> {(w, u, wire x) | u x. says_log P t x}"
  shows "traced_inv leader P cfg (G(T := log_of (entries_m t))) (\<sigma>(w := t), net')"
proof -
  note i = traced_invD [OF inv]
  have lead: "leader (term_m (\<sigma>' v)) = v" if "v \<in> set cfg" "\<sigma>' = \<sigma>(w := t)" "state_m (\<sigma>' v) = primary" for v \<sigma>'
    using el that by (simp add: elected_def)
  have lw: "leader T = w" using lead [OF w refl] p by simp
  obtain zs where zs: "log_of (entries_m t) = G T @ zs" "traced (G(T := G T @ zs)) (G T @ zs)"
    using primary_log [OF inv w a p lw] by blast
  define G' where "G' = G(T := G T @ zs)"
  have grow: "traced G' xs" if "traced G xs" for xs using traced_grow [OF that] by (simp add: G'_def)
  have G'T: "G' T = G T @ zs" and G'U: "\<And>U. U \<noteq> T \<Longrightarrow> G' U = G U" by (simp_all add: G'_def)
  have "\<exists>y. b = wire y \<and> follows P G' y" if m: "(v, u, b) \<in> set net'" for v u b
  proof (cases "(v, u, b) \<in> set net")
    case True
    have "follows P G' y" if "follows P G y" for y using that by (auto simp: follows_def G'_def piece_of_append)
    then show ?thesis using i(5) [OF True] by blast
  next
    case new: False
    then obtain y where "b = wire y" "says_log P t y" using net m by (auto simp del: split_paired_Ex)
    then show ?thesis using G'T p(2) zs(1) by (intro exI [of _ y]) (auto simp: says_log_def follows_def)
  qed
  moreover have "traced G' (G' U)" for U
    using zs(2) grow [OF i(1)] G'U by (cases "U = T") (simp_all add: G'_def)
  moreover have "G' (term_m (\<sigma> v)) = log_of (entries_m (\<sigma> v))" if v: "v \<in> set cfg" "v \<noteq> w" "state_m (\<sigma> v) = primary" for v
  proof -
    have "leader (term_m (\<sigma> v)) = v" using lead [OF v(1) refl] v(2,3) by simp
    then have "term_m (\<sigma> v) \<noteq> T" using lw v(2) by auto
    then show ?thesis using i(3) [OF v(1,3)] G'U by simp
  qed
  moreover have "G' U = []" if "v \<in> set cfg" "leader U = v"
    "term_m ((\<sigma>(w := t)) v) < U \<or> (term_m ((\<sigma>(w := t)) v) = U \<and> state_m ((\<sigma>(w := t)) v) = candidate)" for U v
  proof -
    have "term_m (\<sigma> w) = T" using a p by (simp add: advance_def)
    then have "G U = []" using i(4) [OF that(1,2)] that(3) p by (cases "v = w") auto
    moreover have "U \<noteq> T" using that(2,3) lw p by auto
    ultimately show ?thesis by (simp add: G'U)
  qed
  ultimately have "traced_inv leader P cfg G' (\<sigma>(w := t), net')"
    using grow [OF i(2)] zs(2) [folded G'_def] by (intro traced_invI) (auto simp: G'T zs(1) p(2) split: if_splits)
  then show ?thesis by (simp add: G'_def zs(1))
qed

lemma traced_advance:
  assumes "traced_inv leader P cfg G (\<sigma>, net)" "w \<in> set cfg" "advance P G (\<sigma> w) t"
    and "elected leader cfg (\<sigma>(w := t), net')" "set net' \<subseteq> set net \<union> {(w, u, wire x) | u x. says_log P t x}"
  shows "\<exists>G'. traced_inv leader P cfg G' (\<sigma>(w := t), net')"
  using traced_other [OF assms(1-3) _ assms(5)] traced_primary [OF assms(1-3) _ refl assms(4,5)] by blast

text \<open>Every kind of step of one member is such an advance.\<close>

lemma handler_advance:
  assumes inv: "traced_inv leader P cfg G (\<sigma>, net)" and w: "w \<in> set cfg" and i: "pb_law P" "raft_inv P m0 (\<sigma> w)" "has_room (\<sigma> w)"
    and s: "orderly A ev (\<sigma> w)" "server_step P A ev (\<sigma> w) = Ok t"
    and ae: "\<And>m peer. ev = Incoming APPEND_ENTRY m peer \<Longrightarrow> follows P G (APPEND_ENTRY, m)"
  shows "advance P G (\<sigma> w) t" "says P (\<sigma> w) t"
proof -
  let ?s = "\<sigma> w"
  have l: "log_change P ev ?s t" and p: "says P ?s t"
    using okpD [OF server_step_log [OF i s(1)] s(2)] by simp_all
  have e: "election_step P ev ?s t"
    using okpD [where Q = "election_step P ev (\<sigma> w)", OF server_step_election s(2)] .
  have "log_of (entries_m t) = log_of (entries_m ?s) \<or>
      (state_m t = follower \<and> traced G (log_of (entries_m t))) \<or>
      (state_m ?s = primary \<and> state_m t = primary \<and>
       (\<exists>e. en_term e = term_m ?s \<and> log_of (entries_m t) = log_of (entries_m ?s) @ [e]))"
  proof (cases "\<exists>m peer. ev = Incoming APPEND_ENTRY m peer")
    case True
    then obtain m peer where ev: "ev = Incoming APPEND_ENTRY m peer" by blast
    have "piece_of (G (ae_term (parse_ae P m))) (parse_ae P m)" using ae [OF ev] by (simp add: follows_def)
    from piece_accepted [OF traced_invD(2) [OF inv w] traced_invD(1) [OF inv] this]
    show ?thesis using l unfolding ev by auto
  next
    case False
    show ?thesis
    proof (cases ev)
      case (Incoming ty m peer)
      then show ?thesis using l s(1) False by (cases ty) auto
    qed (use l in auto)
  qed
  then show "advance P G ?s t" using e p by (auto simp: advance_def election_step_def says_def)
  show "says P ?s t" by (rule p)
qed

lemma says_outgoing:
  assumes "says P s t" "sent s t ms"
  shows "set (outgoing w ms) \<subseteq> {(w, u, wire x) | u x. says_log P t x}"
proof -
  obtain xs where xs: "sent s t (map (\<lambda>(w, x). (w, wire x)) xs)" "\<forall>(w, x) \<in> set xs. says_log P t x"
    using assms(1) by (auto simp: says_def)
  have "ms = map (\<lambda>(w, x). (w, wire x)) xs" using sent_unique [OF assms(2) xs(1)] .
  then show ?thesis using xs(2) by (fastforce simp: outgoing_def simp del: split_paired_Ex)
qed

lemma wire_length: "length (snd x) + 5 \<le> length (wire x)"
  by (simp add: wire_def sprintf_4d_def Let_def to_string_type)

lemma handles_wire:
  assumes "handles P A junk (wire x) s t" "clean junk" "fst x \<noteq> ERROR" "length (wire x) < 5125"
  obtains peer where "has_room s" "server_step P A (Incoming (fst x) (snd x) peer) s = Ok t"
proof -
  obtain conn ty m where c: "has_room s" "recv_stream P junk conn (wire x) = ([(ty, m, remote_peer_m conn)], Inr [])"
    "server_step P A (Incoming ty m (remote_peer_m conn)) s = Ok t"
    using assms(1) by (auto simp: handles_def)
  have "wire_fits x" using assms(3,4) wire_length [of x] by (simp add: wire_fits_def)
  from recv_wire [OF this assms(2), of P conn] c that show ?thesis by simp
qed

definition matching_inv :: "(int \<Rightarrow> endpoint) \<Rightarrow> pb \<Rightarrow> string \<Rightarrow> mock_state_machine \<Rightarrow> endpoint list \<Rightarrow> 't cluster \<Rightarrow> bool" where
  "matching_inv leader P junk m0 cfg x \<longleftrightarrow> cluster_inv P m0 cfg x \<and> short_messages x \<and>
     (pb_law P \<longrightarrow> clean junk \<longrightarrow> (\<exists>G. traced_inv leader P cfg G x))"

lemma traced_move:
  assumes inv: "cluster_inv P m0 cfg x" "short_messages x" "traced_inv leader P cfg G x" and p: "pb_law P" "clean junk"
    and move: "cluster_move P A junk cfg l x y" and o: "case l of None \<Rightarrow> True | Some (w, ev) \<Rightarrow> orderly A ev (fst x w)"
    and el: "elected leader cfg y"
  shows "\<exists>G'. traced_inv leader P cfg G' y"
  using move
proof cases
  case (receive w v b net rest \<sigma> t ms)
  have net: "(v, w, b) \<in> set net" "set rest \<subseteq> set net" using receive(5) by (auto simp: next_message_def)
  note t = inv(3) [unfolded receive(2)]
  obtain z where z: "b = wire z" "follows P G z" using traced_invD(5) [OF t net(1)] by blast
  have "length (wire z) < 5125" using inv(2) net(1) z(1) by (auto simp: receive(2) short_messages_def)
  moreover have "fst z \<notin> {ERROR, CLIENT_APPLY}" using z(2) by (simp add: follows_def)
  ultimately obtain peer where s: "has_room (\<sigma> w)" "server_step P A (Incoming (fst z) (snd z) peer) (\<sigma> w) = Ok t"
    using handles_wire [OF receive(6) [unfolded z(1)] p(2)] by auto
  have i: "raft_inv P m0 (\<sigma> w)" using inv(1) receive(2,4) by (simp add: cluster_inv_def)
  have o: "orderly A (Incoming (fst z) (snd z) peer) (\<sigma> w)" using z(2) by (cases "fst z") (simp_all add: follows_def)
  have f: "follows P G (APPEND_ENTRY, m)" if "Incoming (fst z) (snd z) peer = Incoming APPEND_ENTRY m u" for m u
    using z(2) that by (cases z) auto
  have a: "advance P G (\<sigma> w) t" "says P (\<sigma> w) t"
    by (rule handler_advance [OF t receive(4) p(1) i s(1) o s(2)], erule f)+
  show ?thesis
    unfolding receive(3)
    by (rule traced_advance [OF t receive(4) a(1)])
      (use el receive(3) net(2) says_outgoing [OF a(2) receive(7), of w] in auto)
next
  case (local_event w ev \<sigma> t ms net)
  note t = inv(3) [unfolded local_event(2)]
  have i: "raft_inv P m0 (\<sigma> w)" using inv(1) local_event by (simp add: cluster_inv_def)
  have o: "orderly A ev (\<sigma> w)" using o local_event(1,2) by simp
  have a: "advance P G (\<sigma> w) t" "says P (\<sigma> w) t"
    by (rule handler_advance [OF t local_event(4) p(1) i local_event(6) o local_event(7)], use local_event(5) in simp)+
  show ?thesis
    unfolding local_event(3)
    by (rule traced_advance [OF t local_event(4) a(1)])
      (use el local_event(3) says_outgoing [OF a(2) local_event(8), of w] in auto)
next
  case (start w \<sigma> t net)
  note t = inv(3) [unfolded start(2)]
  have "okp (frame (\<sigma> w\<lparr>network_m := startAccept (network_m (\<sigma> w))\<rparr>)) (run A (\<sigma> w))"
    unfolding run_def by (rule frame_arm)
  then have "advance P G (\<sigma> w) t"
    using start(5) by (auto simp: log_frame_def vote_frame_def advance_def)
  then show ?thesis unfolding start(3) by (rule traced_advance [OF t start(4)]) (use el start(3) in auto)
next
  case (other w \<sigma> t net)
  note t = inv(3) [unfolded other(2)]
  have "advance P G (\<sigma> w) t"
    using background_keeps [OF other(5)] by (auto simp: vote_frame_def advance_def)
  then show ?thesis unfolding other(3) by (rule traced_advance [OF t other(4)]) (use el other(3) in auto)
next
  case (lose v w b net rest \<sigma>)
  have "set rest \<subseteq> set net" using lose(4) by (auto simp: next_message_def)
  then have "traced_inv leader P cfg G y"
    using inv(3) unfolding lose(2,3) traced_inv_def by auto
  then show ?thesis by blast
qed

lemma orderly_step_inv:
  assumes "matching_inv leader P junk m0 cfg x" "orderly_step leader P A junk cfg x y"
  shows "matching_inv leader P junk m0 cfg y"
proof -
  obtain l where l: "cluster_move P A junk cfg l x y" "case l of None \<Rightarrow> True | Some (w, ev) \<Rightarrow> orderly A ev (fst x w)"
    "elected leader cfg y" "short_messages y"
    using assms(2) unfolding orderly_step_def by blast
  then show ?thesis
    using assms(1) cluster_move_inv [OF _ l(1)] traced_move [OF _ _ _ _ _ l(1-3)] unfolding matching_inv_def by blast
qed

lemma raft_init_follower:
  assumes "raft_init A m0 s"
  shows "state_m s = follower"
proof -
  obtain split_fn ip port config_file es c rnd where "RaftServer_ctor A split_fn ip port config_file es c rnd = Inr s"
    using assms unfolding raft_init_def by blast
  then show ?thesis by (cases "load_config_from_file split_fn config_file") (auto simp: RaftServer_ctor_def)
qed

lemma fresh_init_inv:
  assumes "fresh_init A m0 cfg x"
  shows "matching_inv leader P junk m0 cfg x"
proof -
  have c: "cluster_init A m0 cfg x" "snd x = []" using assms by (simp_all add: fresh_init_def cluster_init_def)
  have "state_m (fst x v) = follower" if "v \<in> set cfg" for v
    using c(1) that by (auto simp: cluster_init_def intro: raft_init_follower)
  then have "traced_inv leader P cfg (\<lambda>T. []) (fst x, snd x)"
    using assms c(2) by (intro traced_invI) (auto simp: fresh_init_def)
  moreover have "short_messages x" using c(2) by (simp add: short_messages_def)
  ultimately show ?thesis using cluster_init_inv [OF c(1)] by (auto simp: matching_inv_def)
qed

interpretation orderly: invariant_system "fresh_init A m0 cfg" "orderly_step leader P A junk cfg" "matching_inv leader P junk m0 cfg"
  for A m0 cfg leader P junk
  by unfold_locales (blast intro: fresh_init_inv orderly_step_inv)+

text \<open>Any two logs of the cluster match.\<close>

theorem orderly_logs_match:
  assumes "reachable (fresh_init A m0 cfg) (orderly_step leader P A junk cfg) (\<sigma>, net)"
    and "pb_law P" "clean junk" "v \<in> set cfg" "w \<in> set cfg"
  shows "log_matching (log_of (entries_m (\<sigma> v))) (log_of (entries_m (\<sigma> w)))"
proof -
  obtain G where "traced_inv leader P cfg G (\<sigma>, net)"
    using orderly.reachable_inv [OF assms(1)] assms(2,3) by (auto simp: matching_inv_def)
  from traced_invD(2) [OF this] assms(4,5) show ?thesis by (blast intro: traced_matching)
qed

end
