(* ===== verification/Raft_Votes.thy ===== *)
theory Raft_Votes
  imports Raft_Matching
begin

text \<open>
  Election safety of a whole cluster, as far as it holds: if no member votes twice in a term (its own
  candidature counts as a vote), then a term has at most one primary. \<open>ballot_step\<close> is a step of
  \<open>Raft_Cluster\<close> that also records who has voted for whom; \<open>Raft_Split\<close> shows a run that it excludes.
\<close>

section \<open>Votes under way\<close>

text \<open>The term of the positive answer to a vote request that a receiver reads from the bytes \<open>b\<close>, if it does.\<close>

definition any_conn :: connection where
  "any_conn = \<lparr>remote_addr_m = [], remote_port_m = 0, remote_peer_m = ([], 0), local_addr_m = [], local_port_m = 0\<rparr>"

definition vote_in :: "pb \<Rightarrow> string \<Rightarrow> int option" where
  "vote_in P b =
     (case recv_stream P [] any_conn b of
        ([(ty, m, peer)], Inr []) \<Rightarrow>
          if ty = RESP_VOTE \<and> rrv_ok (parse_resp_rv P m) then Some (rrv_term (parse_resp_rv P m)) else None
      | _ \<Rightarrow> None)"

lemma vote_in_wire:
  assumes "wire_fits x"
  shows "vote_in P (wire x) =
     (if fst x = RESP_VOTE \<and> rrv_ok (parse_resp_rv P (snd x)) then Some (rrv_term (parse_resp_rv P (snd x))) else None)"
  using recv_wire [OF assms, of "[]" P any_conn] by (simp add: vote_in_def clean_def)

text \<open>Voter, term and candidate of the votes among the messages under way.\<close>

type_synonym ballot = "endpoint \<times> int \<times> endpoint"

definition flying :: "pb \<Rightarrow> (endpoint \<times> endpoint \<times> string) list \<Rightarrow> ballot list" where
  "flying P net = concat (map (\<lambda>(w, c, b). case vote_in P b of None \<Rightarrow> [] | Some T \<Rightarrow> [(w, T, c)]) net)"

lemma flying_simps [simp]:
  "flying P [] = []" "flying P (xs @ ys) = flying P xs @ flying P ys"
  "flying P ((w, c, b) # ys) = (case vote_in P b of None \<Rightarrow> [] | Some T \<Rightarrow> [(w, T, c)]) @ flying P ys"
  by (simp_all add: flying_def)

lemma flying_outgoing: "(u, T, c) \<in> set (flying P (outgoing w ms)) \<Longrightarrow> u = w"
  by (induction ms) (auto simp: outgoing_def split: option.splits)

section \<open>Becoming a candidate\<close>

text \<open>A handler that raises the term makes its server a follower, or a candidate with one vote that asks for others.\<close>

definition no_votes :: "'t RaftServer \<Rightarrow> 't RaftServer \<Rightarrow> bool" where
  "no_votes s t \<longleftrightarrow> (\<exists>vs ty f. ty \<in> {REQUEST_VOTE, APPEND_ENTRY} \<and> sent s t (map (\<lambda>v. (v, wire (ty, f v))) vs))"

lemma no_votesI:
  "sent s t (map (\<lambda>v. (v, wire (ty, f v))) vs) \<Longrightarrow> ty \<in> {REQUEST_VOTE, APPEND_ENTRY} \<Longrightarrow> no_votes s t"
  unfolding no_votes_def by blast

lemma no_votes_quiet: "sent s t [] \<Longrightarrow> no_votes s t"
  unfolding no_votes_def by (intro exI [of _ "[]"] exI [of _ REQUEST_VOTE]) simp

lemma no_votes_flying:
  assumes "no_votes s t" "sent s t ms" "\<forall>(v, b) \<in> set ms. length b < 5125"
  shows "flying P (outgoing w ms) = []"
proof -
  obtain vs ty f where n: "ty \<in> {REQUEST_VOTE, APPEND_ENTRY}" "sent s t (map (\<lambda>v. (v, wire (ty, f v))) vs)"
    using assms(1) unfolding no_votes_def by blast
  have ms: "ms = map (\<lambda>v. (v, wire (ty, f v))) vs" using sent_unique [OF assms(2) n(2)] .
  have "vote_in P (wire (ty, f v)) = None" if "v \<in> set vs" for v
  proof -
    have "length (wire (ty, f v)) < 5125" using assms(3) that unfolding ms by auto
    then have "wire_fits (ty, f v)" using wire_length [of "(ty, f v)"] n(1) by (auto simp: wire_fits_def)
    then show ?thesis using n(1) by (auto simp: vote_in_wire)
  qed
  then show ?thesis unfolding ms by (auto simp: flying_def outgoing_def)
qed

definition polls :: "'t RaftServer \<Rightarrow> 't RaftServer \<Rightarrow> bool" where
  "polls s t \<longleftrightarrow> term_m t = term_m s \<or> state_m t = follower \<or>
     (state_m t = candidate \<and> winned_votes_m t = 1 \<and> no_votes s t)"

lemma quiet_polls: "okp (quiet s) m \<Longrightarrow> okp (polls s) m"
  by (erule okp_mono) (simp add: polls_def quiet_def vote_frame_def)

lemma trans2F_polls: "okp (polls s) (trans2F A T s)"
  by (rule okp_mono [OF trans2F_effect]) (simp add: polls_def)

lemma trans2C_polls:
  assumes "raft_inv P' m0 s"
  shows "okp (polls s) (trans2C P A s)"
proof -
  have c: "rpc_inv (network_m s)" "distinct (configuration_m s)"
    using assms by (simp_all add: raft_inv_def conf_inv_def)
  show ?thesis
    using conjI [OF trans2C_effect [of s P A] trans2C_sends [OF c, of P A], folded okp_conj]
    by (rule okp_mono)
      (auto simp: polls_def intro: no_votesI [where f = "\<lambda>v. ser_rv P (candidate_rv s)" and ty = REQUEST_VOTE and vs = "others s"])
qed

lemma candidate_deal_polls: "okp (polls s) (candidate_deal_resp_rv_with_same_term P A v r s)"
proof -
  have "okp (polls s) (trans2P P A (s\<lparr>current_rpc_lsn_m := l, winned_votes_m := w\<rparr>))" for l w
    by (rule okp_mono [OF trans2P_quiet]) (simp add: polls_def)
  then show ?thesis
    by (auto simp: candidate_deal_resp_rv_with_same_term_def Let_def wp polls_def split: option.splits)
qed

theorem server_step_polls:
  assumes "raft_inv P m0 s" "has_room s"
  shows "okp (polls s) (server_step P A ev s)"
proof (cases ev)
  case (Incoming ty m peer)
  have "okp (polls s) (react2ae P A ae s)" for ae
    by (rule okp_mono [OF react2ae_effect [OF raft_inv_log(1) [OF assms(1)] assms(2) raft_inv_log(5) [OF assms(1)]]])
      (auto simp: polls_def ae_effect_def vote_frame_def split: if_splits)
  moreover have "okp (polls s) (react2rv P A rv s)" for rv
    by (rule okp_mono [OF react2rv_effect [OF raft_inv_log(1,5) [OF assms(1)]]])
      (auto simp: polls_def vote_effect_def split: if_splits)
  moreover have "okp (polls s) (append_client_apply_to_entries P c str s)" for c str
    unfolding append_client_apply_to_entries_def Let_def
    by (intro quiet_polls okp_quiet_seq) (auto simp: quiet_def vote_frame_def intro!: quiet_from [OF quiet_insert])
  moreover have "okp (polls s) (get_from_state_machine c str s)" for c str
    by (auto simp: get_from_state_machine_def okp_map_outcome polls_def intro: okpI)
  moreover have "okp (polls s) (react2resp_ae P A r s)" for r
    by (simp add: react2resp_ae_def Let_def wp trans2F_polls quiet_polls quiets) (simp add: polls_def)
  moreover have "okp (polls s) (react2resp_rv P A r s)" for r
    by (simp add: react2resp_rv_def Let_def wp trans2F_polls candidate_deal_polls) (simp add: polls_def)
  moreover have "polls s s" by (simp add: polls_def)
  ultimately show ?thesis using Incoming by (simp add: reactToIncomingMsg_def)
next
  case (Timer_event h err)
  have "polls s s" by (simp add: polls_def)
  then have "okp (polls s) (timer_handler P A h err s)"
    by (cases h) (auto simp: run_handler_def trans2F_handler_def trans2C_handler_def AE_retry_handler_def
      RV_retry_handler_def wp trans2C_polls [OF assms(1)] quiet_polls quiets split: error_code.splits option.splits)
  with Timer_event show ?thesis by simp
next
  case (Posted p)
  have "okp (quiet s) (server_step P A ev s)"
    using Posted by (auto simp: write_resp_apply_call_def write_resp_query_call_def wp quiets
        split: post.splits option.splits)
  then show ?thesis by (rule quiet_polls)
qed

text \<open>The handler of an answer casts no vote.\<close>

lemma react2resp_rv_no_votes:
  assumes "raft_inv P' m0 s"
  shows "okp (no_votes s) (react2resp_rv P A r s)"
proof -
  let ?x = "\<lambda>l w. s\<lparr>current_rpc_lsn_m := l, winned_votes_m := w\<rparr>"
  have "okp (no_votes s) (trans2F A T s)" for T
    by (rule okp_mono [OF trans2F_keeps]) (auto intro!: no_votes_quiet sent_same)
  moreover have "okp (no_votes s) (trans2P P A (?x l w))" for l w
  proof -
    have "raft_inv P' m0 (?x l w)" using assms by (simp add: raft_inv_def conf_inv_def log_inv_def book_inv_def)
    then have c: "rpc_inv (network_m (?x l w))" "distinct (configuration_m (?x l w))" "entries_inv (entries_m (?x l w))"
      by (simp_all add: raft_inv_def conf_inv_def log_inv_def)
    show ?thesis
      by (rule okp_mono [OF trans2P_sends [OF c]], rule no_votesI [where ty = APPEND_ENTRY]) (simp_all add: sent_def)
  qed
  ultimately show ?thesis
    by (auto simp: react2resp_rv_def candidate_deal_resp_rv_with_same_term_def Let_def wp
        intro!: no_votes_quiet sent_same split: option.splits)
qed

section \<open>Ballots\<close>

text \<open>Those who have voted for \<open>v\<close> in term \<open>T\<close>, and those whose vote has been received.\<close>

definition backers :: "ballot set \<Rightarrow> int \<Rightarrow> endpoint \<Rightarrow> endpoint set" where
  "backers B T v = {u. (u, T, v) \<in> B}"

definition counted :: "pb \<Rightarrow> ballot set \<Rightarrow> (endpoint \<times> endpoint \<times> string) list \<Rightarrow> int \<Rightarrow> endpoint \<Rightarrow> endpoint set" where
  "counted P B net T v = backers B T v - {u. (u, T, v) \<in> set (flying P net)}"

definition tally_inv :: "pb \<Rightarrow> endpoint list \<Rightarrow> 't cluster \<Rightarrow> ballot set \<Rightarrow> bool" where
  "tally_inv P cfg x B \<longleftrightarrow>
     fst ` B \<subseteq> set cfg \<and> set (flying P (snd x)) \<subseteq> B \<and> distinct (flying P (snd x)) \<and>
     (\<forall>v \<in> set cfg.
        (state_m (fst x v) = candidate \<longrightarrow>
           winned_votes_m (fst x v) \<le> int (card (counted P B (snd x) (term_m (fst x v)) v))) \<and>
        (state_m (fst x v) = primary \<longrightarrow>
           majority_m (fst x v) \<le> int (card (backers B (term_m (fst x v)) v))))"

lemma finite_backers:
  assumes "fst ` B \<subseteq> set cfg"
  shows "backers B T v \<subseteq> set cfg" "finite (backers B T v)" "finite (counted P B net T v)"
proof -
  show s: "backers B T v \<subseteq> set cfg" using assms by (force simp: backers_def)
  then show "finite (backers B T v)" by (rule finite_subset) simp
  then show "finite (counted P B net T v)" by (simp add: counted_def)
qed

text \<open>Votes that are cast anew do not disturb what has been counted.\<close>

lemma counted_mono:
  assumes "C \<inter> B = {}" "set (flying P net') \<subseteq> set (flying P net) \<union> C"
  shows "counted P B net T v \<subseteq> counted P (B \<union> C) net' T v"
  using assms by (auto simp: counted_def backers_def)

lemma counted_one:
  assumes "set (flying P net) \<subseteq> B" "C \<inter> B = {}" "set (flying P net') \<subseteq> set (flying P net) \<union> C"
    and "\<exists>u. (u, T, w) \<in> set (flying P net) - set (flying P net')" and "fst ` (B \<union> C) \<subseteq> set cfg"
  shows "card (counted P B net T w) + 1 \<le> card (counted P (B \<union> C) net' T w)"
proof -
  let ?c = "counted P B net T w"
  note fin = finite_backers [OF assms(5)]
  obtain u where u: "(u, T, w) \<in> set (flying P net) - set (flying P net')" using assms(4) by blast
  have "insert u ?c \<subseteq> counted P (B \<union> C) net' T w"
    using u assms(1) counted_mono [OF assms(2,3)] by (auto simp: counted_def backers_def)
  moreover from this have "finite (insert u ?c)" using fin(3) by (rule finite_subset)
  moreover have "u \<notin> ?c" using u by (simp add: counted_def)
  ultimately show ?thesis using card_mono [OF fin(3), of "insert u ?c"] by simp
qed

lemma tally_step:
  assumes inv: "tally_inv P cfg (\<sigma>, net) B" and w: "w \<in> set cfg"
    and e: "election_step P ev (\<sigma> w) t" and p: "polls (\<sigma> w) t"
    and net: "set (flying P net') \<subseteq> set (flying P net) \<union> C" "distinct (flying P net')"
    and C: "C \<inter> B = {}" "fst ` C \<subseteq> set cfg"
    and stand: "state_m t = candidate \<Longrightarrow> term_m (\<sigma> w) < term_m t \<Longrightarrow> (w, term_m t, w) \<in> C - set (flying P net')"
    and grant: "granted P (term_m (\<sigma> w)) ev \<Longrightarrow> \<exists>u. (u, term_m (\<sigma> w), w) \<in> set (flying P net) - set (flying P net')"
  shows "tally_inv P cfg (\<sigma>(w := t), net') (B \<union> C)"
proof -
  have B: "fst ` B \<subseteq> set cfg" "set (flying P net) \<subseteq> B" using inv by (simp_all add: tally_inv_def)
  have BC: "fst ` (B \<union> C) \<subseteq> set cfg" using B(1) C(2) by auto
  note fin = finite_backers [OF BC]
  have more: "card (counted P B net T v) \<le> card (counted P (B \<union> C) net' T v)" for T v
    by (rule card_mono [OF fin(3) counted_mono [OF C(1) net(1)]])
  have backed: "card (backers B T v) \<le> card (backers (B \<union> C) T v)" for T v
    by (rule card_mono [OF fin(2)]) (auto simp: backers_def)
  have one: "card (counted P B net (term_m (\<sigma> w)) w) + 1 \<le> card (counted P (B \<union> C) net' (term_m (\<sigma> w)) w)"
    if "granted P (term_m (\<sigma> w)) ev"
    by (rule counted_one [OF B(2) C(1) net(1) grant [OF that] BC])
  have i: "state_m (\<sigma> v) = candidate \<Longrightarrow> winned_votes_m (\<sigma> v) \<le> int (card (counted P B net (term_m (\<sigma> v)) v))"
    "state_m (\<sigma> v) = primary \<Longrightarrow> majority_m (\<sigma> v) \<le> int (card (backers B (term_m (\<sigma> v)) v))" if "v \<in> set cfg" for v
    using inv that by (simp_all add: tally_inv_def)
  have candidate: "winned_votes_m t \<le> int (card (counted P (B \<union> C) net' (term_m t) w))" if c: "state_m t = candidate"
  proof (cases "term_m t = term_m (\<sigma> w)")
    case True
    then have "state_m (\<sigma> w) = candidate"
      "winned_votes_m t \<le> winned_votes_m (\<sigma> w) + (if granted P (term_m (\<sigma> w)) ev then 1 else 0)"
      using e c by (simp_all add: election_step_def)
    then show ?thesis using i(1) [OF w] one more [of "term_m (\<sigma> w)" w] True by (auto split: if_splits)
  next
    case False
    have "term_m (\<sigma> w) < term_m t" using e False by (simp add: election_step_def)
    then have "w \<in> counted P (B \<union> C) net' (term_m t) w" using stand [OF c] by (auto simp: counted_def backers_def)
    then have "0 < card (counted P (B \<union> C) net' (term_m t) w)" using fin(3) by (auto simp: card_gt_0_iff)
    then show ?thesis using p c False by (simp add: polls_def)
  qed
  have primary: "majority_m t \<le> int (card (backers (B \<union> C) (term_m t) w))" if c: "state_m t = primary"
  proof -
    have t: "term_m t = term_m (\<sigma> w)" using p c by (auto simp: polls_def)
    have m: "majority_m t = majority_m (\<sigma> w)" using e by (simp add: election_step_def)
    consider "state_m (\<sigma> w) = primary" |
      "state_m (\<sigma> w) = candidate" "granted P (term_m (\<sigma> w)) ev" "majority_m (\<sigma> w) \<le> winned_votes_m (\<sigma> w) + 1"
      using e c t by (auto simp: election_step_def)
    then show ?thesis
    proof cases
      case 1
      then show ?thesis using i(2) [OF w] backed [of "term_m (\<sigma> w)" w] t m by simp
    next
      case 2
      have "card (counted P (B \<union> C) net' (term_m (\<sigma> w)) w) \<le> card (backers (B \<union> C) (term_m (\<sigma> w)) w)"
        by (rule card_mono [OF fin(2)]) (auto simp: counted_def)
      then show ?thesis using i(1) [OF w 2(1)] one [OF 2(2)] 2(3) t m by simp
    qed
  qed
  have "winned_votes_m (\<sigma> v) \<le> int (card (counted P (B \<union> C) net' (term_m (\<sigma> v)) v))"
    if "v \<in> set cfg" "state_m (\<sigma> v) = candidate" for v
    using i(1) [OF that] more [of "term_m (\<sigma> v)" v] by simp
  moreover have "majority_m (\<sigma> v) \<le> int (card (backers (B \<union> C) (term_m (\<sigma> v)) v))"
    if "v \<in> set cfg" "state_m (\<sigma> v) = primary" for v
    using i(2) [OF that] backed [of "term_m (\<sigma> v)" v] by simp
  moreover have "set (flying P net') \<subseteq> B \<union> C" using net(1) B(2) by blast
  ultimately show ?thesis using BC net(2) candidate primary by (auto simp: tally_inv_def)
qed

section \<open>The cluster with its ballots\<close>

text \<open>The votes cast in a step: those newly under way, and those of new candidates for themselves.\<close>

definition cast_now :: "pb \<Rightarrow> endpoint list \<Rightarrow> 't cluster \<Rightarrow> 't cluster \<Rightarrow> ballot set" where
  "cast_now P cfg x y =
     (set (flying P (snd y)) - set (flying P (snd x))) \<union>
     (\<lambda>w. (w, term_m (fst y w), w)) `
       {w \<in> set cfg. state_m (fst y w) = candidate \<and> term_m (fst x w) < term_m (fst y w)}"

text \<open>No member votes for two candidates of a term, or twice for one.\<close>

definition vote_once :: "pb \<Rightarrow> 't cluster \<Rightarrow> ballot set \<Rightarrow> ballot set \<Rightarrow> bool" where
  "vote_once P y B C \<longleftrightarrow> C \<inter> B = {} \<and> distinct (flying P (snd y)) \<and>
     (\<forall>w T c c'. (w, T, c) \<in> B \<union> C \<longrightarrow> (w, T, c') \<in> B \<union> C \<longrightarrow> c = c')"

definition ballot_step :: "pb \<Rightarrow> 't asio \<Rightarrow> string \<Rightarrow> endpoint list \<Rightarrow> 't cluster \<times> ballot set \<Rightarrow> 't cluster \<times> ballot set \<Rightarrow> bool" where
  "ballot_step P A junk cfg x y \<longleftrightarrow>
     cluster_step P A junk cfg (fst x) (fst y) \<and> short_messages (fst y) \<and>
     snd y = snd x \<union> cast_now P cfg (fst x) (fst y) \<and> vote_once P (fst y) (snd x) (cast_now P cfg (fst x) (fst y))"

definition ballot_init :: "'t asio \<Rightarrow> mock_state_machine \<Rightarrow> endpoint list \<Rightarrow> 't cluster \<times> ballot set \<Rightarrow> bool" where
  "ballot_init A m0 cfg x \<longleftrightarrow> cluster_init A m0 cfg (fst x) \<and> snd x = {}"

definition ballot_inv :: "pb \<Rightarrow> string \<Rightarrow> mock_state_machine \<Rightarrow> endpoint list \<Rightarrow> 't cluster \<times> ballot set \<Rightarrow> bool" where
  "ballot_inv P junk m0 cfg x \<longleftrightarrow> cluster_inv P m0 cfg (fst x) \<and> short_messages (fst x) \<and>
     (\<forall>w T c c'. (w, T, c) \<in> snd x \<longrightarrow> (w, T, c') \<in> snd x \<longrightarrow> c = c') \<and>
     (clean junk \<longrightarrow> tally_inv P cfg (fst x) (snd x))"

text \<open>A positive answer that is counted was under way, and only one member's copy of it.\<close>

lemma flying_taken:
  assumes "next_message u w b net rest" "vote_in P b = Some T" "distinct (flying P net)"
  shows "(u, T, w) \<in> set (flying P net) - set (flying P rest)"
proof -
  obtain xs ys where n: "net = xs @ (u, w, b) # ys" "rest = xs @ ys" using assms(1) by (auto simp: next_message_def)
  show ?thesis using assms(2,3) unfolding n by simp
qed

lemma flying_rest: "next_message u w b net rest \<Longrightarrow> set (flying P rest) \<subseteq> set (flying P net)"
  "next_message u w b net rest \<Longrightarrow> distinct (flying P net) \<Longrightarrow> distinct (flying P rest)"
  by (auto simp: next_message_def)

lemma cast_now_step:
  assumes "y = (\<sigma>(w := t), net')" "x = (\<sigma>, net)" "w \<in> set cfg" "fst ` (set (flying P net') - set (flying P net)) \<subseteq> set cfg"
  shows "set (flying P net') \<subseteq> set (flying P net) \<union> cast_now P cfg x y" "fst ` cast_now P cfg x y \<subseteq> set cfg"
    "state_m t = candidate \<Longrightarrow> term_m (\<sigma> w) < term_m t \<Longrightarrow> (w, term_m t, w) \<in> cast_now P cfg x y"
  using assms by (auto simp: cast_now_def)

lemma tally_handler:
  assumes inv: "cluster_inv P m0 cfg (\<sigma>, net)" "tally_inv P cfg (\<sigma>, net) B" and w: "w \<in> set cfg" "has_room (\<sigma> w)"
    and s: "server_step P A ev (\<sigma> w) = Ok t" "sent (\<sigma> w) t ms"
    and y: "y = (\<sigma>(w := t), rest @ outgoing w ms)" "short_messages y"
    and once: "vote_once P y B (cast_now P cfg (\<sigma>, net) y)"
    and rest: "set (flying P rest) \<subseteq> set (flying P net)"
    and grant: "granted P (term_m (\<sigma> w)) ev \<Longrightarrow> \<exists>u. (u, term_m (\<sigma> w), w) \<in> set (flying P net) - set (flying P rest)"
  shows "tally_inv P cfg y (B \<union> cast_now P cfg (\<sigma>, net) y)"
proof -
  let ?net = "rest @ outgoing w ms"
  have i: "raft_inv P m0 (\<sigma> w)" using inv(1) w by (simp add: cluster_inv_def)
  have e: "election_step P ev (\<sigma> w) t"
    using okpD [where Q = "election_step P ev (\<sigma> w)", OF server_step_election s(1)] .
  have p: "polls (\<sigma> w) t" using okpD [OF server_step_polls [OF i w(2)] s(1)] .
  have "fst ` set (flying P (outgoing w ms)) \<subseteq> set cfg" using w(1) flying_outgoing by fastforce
  then have new: "fst ` (set (flying P ?net) - set (flying P net)) \<subseteq> set cfg" using rest by auto
  note c = cast_now_step [OF y(1) refl w(1) new]
  have short: "\<forall>(v, b) \<in> set ms. length b < 5125" using y by (fastforce simp: short_messages_def outgoing_def)
  have C: "cast_now P cfg (\<sigma>, net) y \<inter> B = {}" "distinct (flying P ?net)"
    using once y(1) by (simp_all add: vote_once_def)
  have B: "set (flying P net) \<subseteq> B" using inv(2) by (simp add: tally_inv_def)
  show ?thesis
    unfolding y(1)
  proof (rule tally_step [OF inv(2) w(1) e p], unfold y(1) [symmetric])
    show "set (flying P ?net) \<subseteq> set (flying P net) \<union> cast_now P cfg (\<sigma>, net) y" by (rule c(1))
    show "distinct (flying P ?net)" "cast_now P cfg (\<sigma>, net) y \<inter> B = {}" "fst ` cast_now P cfg (\<sigma>, net) y \<subseteq> set cfg"
      using C c(2) by simp_all
  next
    assume k: "state_m t = candidate" "term_m (\<sigma> w) < term_m t"
    then have "no_votes (\<sigma> w) t" using p by (simp add: polls_def)
    then have "flying P (outgoing w ms) = []" by (rule no_votes_flying [OF _ s(2) short])
    then show "(w, term_m t, w) \<in> cast_now P cfg (\<sigma>, net) y - set (flying P ?net)"
      using c(3) [OF k] C(1) B rest by auto
  next
    assume g: "granted P (term_m (\<sigma> w)) ev"
    then obtain m peer where ev: "ev = Incoming RESP_VOTE m peer" by (cases ev) auto
    have "no_votes (\<sigma> w) t"
      using okpD [OF react2resp_rv_no_votes [OF i]] s(1) unfolding ev by (simp add: reactToIncomingMsg_def)
    then have "flying P (outgoing w ms) = []" by (rule no_votes_flying [OF _ s(2) short])
    then show "\<exists>u. (u, term_m (\<sigma> w), w) \<in> set (flying P net) - set (flying P ?net)" using grant [OF g] by simp
  qed
qed

text \<open>The other steps of a member leave term, role and votes alone.\<close>

lemma tally_quiet:
  assumes inv: "tally_inv P cfg (\<sigma>, net) B" and w: "w \<in> set cfg" and t: "quiet (\<sigma> w) t"
    and y: "y = (\<sigma>(w := t), net)" and once: "vote_once P y B (cast_now P cfg (\<sigma>, net) y)"
  shows "tally_inv P cfg y (B \<union> cast_now P cfg (\<sigma>, net) y)"
proof -
  have k: "term_m t = term_m (\<sigma> w)" using t by (simp add: quiet_def vote_frame_def)
  have e: "election_step P (Timer_event Run_handler No_error) (\<sigma> w) t"
    using t by (auto simp: quiet_def election_step_def vote_frame_def)
  note c = cast_now_step [OF y refl w, of P]
  show ?thesis
    unfolding y
    by (rule tally_step [OF inv w e], unfold y [symmetric])
      (use k c once inv y in \<open>simp_all add: polls_def vote_once_def tally_inv_def\<close>)
qed

lemma tally_lose:
  assumes inv: "tally_inv P cfg (\<sigma>, net) B" and nx: "next_message v w b net rest"
  shows "tally_inv P cfg (\<sigma>, rest) (B \<union> cast_now P cfg (\<sigma>, net) (\<sigma>, rest))"
proof -
  note f = flying_rest [OF nx, of P]
  have C: "cast_now P cfg (\<sigma>, net) (\<sigma>, rest) = {}" using f(1) by (auto simp: cast_now_def)
  have B: "fst ` B \<subseteq> set cfg" using inv by (simp add: tally_inv_def)
  have "card (counted P B net T u) \<le> card (counted P B rest T u)" for T u
    by (rule card_mono [OF finite_backers(3) [OF B]]) (use f(1) in \<open>auto simp: counted_def\<close>)
  then have "int (card (counted P B net T u)) \<le> int (card (counted P B rest T u))" for T u by simp
  then show ?thesis
    using inv f unfolding C by (auto simp: tally_inv_def intro: order_trans)
qed

lemma tally_move:
  assumes inv: "cluster_inv P m0 cfg x" "short_messages x" "tally_inv P cfg x B" and p: "clean junk"
    and move: "cluster_move P A junk cfg l x y" and y: "short_messages y" "vote_once P y B (cast_now P cfg x y)"
  shows "tally_inv P cfg y (B \<union> cast_now P cfg x y)"
  using move
proof cases
  case (receive w v b net rest \<sigma> t ms)
  have net: "(v, w, b) \<in> set net" using receive(5) by (auto simp: next_message_def)
  obtain z where z: "b = wire z" "msg_typed P v (term_m (\<sigma> v)) z"
    using inv(1) net by (auto simp: receive(2) cluster_inv_def message_ok_def)
  have e: "fst z \<noteq> ERROR" using z(2) by (cases "(P, v, term_m (\<sigma> v), z)" rule: msg_typed.cases) auto
  have l: "length (wire z) < 5125" using inv(2) net z(1) by (auto simp: receive(2) short_messages_def)
  obtain peer where s: "has_room (\<sigma> w)" "server_step P A (Incoming (fst z) (snd z) peer) (\<sigma> w) = Ok t"
    by (rule handles_wire [OF receive(6) [unfolded z(1)] p e l])
  have fits: "wire_fits z" using e l wire_length [of z] by (simp add: wire_fits_def)
  have d: "distinct (flying P net)" using inv(3) by (simp add: receive(2) tally_inv_def)
  show ?thesis
    unfolding receive(2)
  proof (rule tally_handler [OF inv(1,3) [unfolded receive(2)] receive(4) s receive(7,3) y [unfolded receive(2)]])
    show "set (flying P rest) \<subseteq> set (flying P net)" by (rule flying_rest(1) [OF receive(5)])
    assume "granted P (term_m (\<sigma> w)) (Incoming (fst z) (snd z) peer)"
    then have "vote_in P b = Some (term_m (\<sigma> w))" by (simp add: z(1) vote_in_wire [OF fits])
    then show "\<exists>u. (u, term_m (\<sigma> w), w) \<in> set (flying P net) - set (flying P rest)"
      using flying_taken [OF receive(5) _ d] by blast
  qed
next
  case (local_event w ev \<sigma> t ms net)
  have "\<not> granted P T ev" for T using local_event(5) by (cases ev) auto
  then show ?thesis
    unfolding local_event(2)
    by (intro tally_handler [OF inv(1,3) [unfolded local_event(2)] local_event(4,6,7,8,3) y [unfolded local_event(2)]]) simp_all
next
  case (start w \<sigma> t net)
  have "okp (frame (\<sigma> w\<lparr>network_m := startAccept (network_m (\<sigma> w))\<rparr>)) (run A (\<sigma> w))"
    unfolding run_def by (rule frame_arm)
  then have "quiet (\<sigma> w) t" using start(5) by (simp add: quiet_def log_frame_def vote_frame_def)
  then show ?thesis
    unfolding start(2) by (rule tally_quiet [OF inv(3) [unfolded start(2)] start(4) _ start(3) y(2) [unfolded start(2)]])
next
  case (other w \<sigma> t net)
  have "quiet (\<sigma> w) t" using background_keeps [OF other(5)] by (simp add: quiet_def)
  then show ?thesis
    unfolding other(2) by (rule tally_quiet [OF inv(3) [unfolded other(2)] other(4) _ other(3) y(2) [unfolded other(2)]])
next
  case (lose v w b net rest \<sigma>)
  show ?thesis unfolding lose(2,3) by (rule tally_lose [OF inv(3) [unfolded lose(2)] lose(4)])
qed

lemma ballot_step_inv:
  assumes "ballot_inv P junk m0 cfg x" "ballot_step P A junk cfg x y"
  shows "ballot_inv P junk m0 cfg y"
proof -
  obtain l where l: "cluster_move P A junk cfg l (fst x) (fst y)" using assms(2) by (auto simp: ballot_step_def cluster_step_def)
  have s: "short_messages (fst y)" "snd y = snd x \<union> cast_now P cfg (fst x) (fst y)"
    "vote_once P (fst y) (snd x) (cast_now P cfg (fst x) (fst y))"
    using assms(2) by (simp_all add: ballot_step_def)
  have i: "cluster_inv P m0 cfg (fst x)" "short_messages (fst x)" "clean junk \<Longrightarrow> tally_inv P cfg (fst x) (snd x)"
    using assms(1) by (simp_all add: ballot_inv_def)
  have "\<forall>w T c c'. (w, T, c) \<in> snd y \<longrightarrow> (w, T, c') \<in> snd y \<longrightarrow> c = c'" using s(2,3) unfolding vote_once_def by metis
  then show ?thesis
    using cluster_move_inv [OF i(1) l] s tally_move [OF i(1,2,3) _ l s(1,3)] unfolding ballot_inv_def by simp
qed

lemma ballot_init_inv:
  assumes "ballot_init A m0 cfg x"
  shows "ballot_inv P junk m0 cfg x"
proof -
  have c: "cluster_init A m0 cfg (fst x)" "snd (fst x) = []" "snd x = {}"
    using assms by (simp_all add: ballot_init_def cluster_init_def)
  have "state_m (fst (fst x) v) = follower" if "v \<in> set cfg" for v
    using c(1) that by (auto simp: cluster_init_def intro: raft_init_follower)
  then have "tally_inv P cfg (fst x) {}" by (simp add: tally_inv_def c(2))
  then show ?thesis
    using cluster_init_inv [OF c(1)] c by (simp add: ballot_inv_def short_messages_def)
qed

interpretation ballots: invariant_system "ballot_init A m0 cfg" "ballot_step P A junk cfg" "ballot_inv P junk m0 cfg"
  for A m0 cfg P junk
  by unfold_locales (blast intro: ballot_init_inv ballot_step_inv)+

text \<open>A member with a majority of the ballots of a term.\<close>

definition wins :: "endpoint list \<Rightarrow> ballot set \<Rightarrow> int \<Rightarrow> endpoint \<Rightarrow> bool" where
  "wins cfg B T v \<longleftrightarrow> int (card (set cfg)) div 2 + 1 \<le> int (card (backers B T v))"

lemma primary_wins:
  assumes "ballot_inv P junk m0 cfg ((\<sigma>, net), B)" "clean junk" "v \<in> set cfg" "state_m (\<sigma> v) = primary"
  shows "wins cfg B (term_m (\<sigma> v)) v"
proof -
  have t: "tally_inv P cfg (\<sigma>, net) B" and c: "cluster_inv P m0 cfg (\<sigma>, net)"
    using assms(1,2) by (simp_all add: ballot_inv_def)
  have "raft_inv P m0 (\<sigma> v)" "configuration_m (\<sigma> v) = cfg" using c assms(3) by (auto simp: cluster_inv_def)
  then have "majority_m (\<sigma> v) = int (card (set cfg)) div 2 + 1"
    by (simp add: raft_inv_def conf_inv_def distinct_card)
  moreover have "majority_m (\<sigma> v) \<le> int (card (backers B (term_m (\<sigma> v)) v))"
    using t assms(3,4) unfolding tally_inv_def fst_conv by blast
  ultimately show ?thesis by (simp add: wins_def)
qed

lemma wins_mono:
  assumes "wins cfg B T v" "B \<subseteq> B'" "fst ` B' \<subseteq> set cfg"
  shows "wins cfg B' T v"
proof -
  have "card (backers B T v) \<le> card (backers B' T v)"
    using assms(2) by (intro card_mono finite_backers(2) [OF assms(3)]) (auto simp: backers_def)
  then show ?thesis using assms(1) by (simp add: wins_def)
qed

lemma wins_unique:
  assumes "wins cfg B T v" "wins cfg B T w" "fst ` B \<subseteq> set cfg"
    "\<forall>w T c c'. (w, T, c) \<in> B \<longrightarrow> (w, T, c') \<in> B \<longrightarrow> c = c'"
  shows "v = w"
proof -
  have "backers B T v \<inter> backers B T w \<noteq> {}"
    using assms(1,2) finite_backers(1) [OF assms(3)] by (intro quorums_meet [of "set cfg"]) (simp_all add: wins_def)
  then obtain u where "(u, T, v) \<in> B" "(u, T, w) \<in> B" by (auto simp: backers_def)
  with assms(4) show ?thesis by blast
qed

text \<open>C5. Election safety: in every run of a cluster in which no member votes twice in a term, at no time two
  members are primary in the same term, however the handlers of the members are interleaved and their messages
  delayed or lost. A vote is a positive answer handed to the network, or a candidature; no message is longer than
  a receiver's buffer. So a candidate's counter, which counts answers and not members, counts right under this
  proviso. The code does not ensure it (see \<open>two_primaries\<close>); \<open>one_vote_per_term\<close> is what it does ensure.\<close>

theorem one_primary_per_term:
  assumes "reachable (ballot_init A m0 cfg) (ballot_step P A junk cfg) ((\<sigma>, net), B)"
    and "clean junk" "v \<in> set cfg" "w \<in> set cfg"
    and "state_m (\<sigma> v) = primary" "state_m (\<sigma> w) = primary" "term_m (\<sigma> v) = term_m (\<sigma> w)"
  shows "v = w"
proof -
  have i: "ballot_inv P junk m0 cfg ((\<sigma>, net), B)" using ballots.reachable_inv [OF assms(1)] .
  have "wins cfg B (term_m (\<sigma> v)) v" "wins cfg B (term_m (\<sigma> v)) w"
    using primary_wins [OF i assms(2,3,5)] primary_wins [OF i assms(2,4,6)] assms(7) by simp_all
  then show ?thesis by (rule wins_unique) (use i assms(2) in \<open>simp_all add: ballot_inv_def tally_inv_def\<close>)
qed

section \<open>Logs match if votes are single\<close>

text \<open>The steps that meet the provisos of \<open>ballot_step\<close> and those of \<open>Raft_Matching\<close> on the events.\<close>

definition safe_step :: "pb \<Rightarrow> 't asio \<Rightarrow> string \<Rightarrow> endpoint list \<Rightarrow> 't cluster \<times> ballot set \<Rightarrow> 't cluster \<times> ballot set \<Rightarrow> bool" where
  "safe_step P A junk cfg x y \<longleftrightarrow> ballot_step P A junk cfg x y \<and>
     (\<exists>l. cluster_move P A junk cfg l (fst x) (fst y) \<and>
        (case l of None \<Rightarrow> True | Some (w, ev) \<Rightarrow> orderly A ev (fst (fst x) w)))"

definition safe_init :: "'t asio \<Rightarrow> mock_state_machine \<Rightarrow> endpoint list \<Rightarrow> 't cluster \<times> ballot set \<Rightarrow> bool" where
  "safe_init A m0 cfg x \<longleftrightarrow> fresh_init A m0 cfg (fst x) \<and> snd x = {}"

lemma safe_ballots:
  assumes "reachable (safe_init A m0 cfg) (safe_step P A junk cfg) x"
  shows "reachable (ballot_init A m0 cfg) (ballot_step P A junk cfg) x"
  using assms
proof induction
  case (reachable_init s)
  then show ?case by (intro reachable.reachable_init) (simp add: safe_init_def ballot_init_def fresh_init_def)
next
  case (reachable_step s t)
  then show ?case by (meson reachable.reachable_step safe_step_def)
qed

text \<open>Such a run is orderly, for the primaries that the ballots of its end name.\<close>

lemma safe_orderly:
  assumes "reachable (safe_init A m0 cfg) (safe_step P A junk cfg) x" and "clean junk"
    and "snd x \<subseteq> B" "fst ` B \<subseteq> set cfg" "\<And>T v. wins cfg B T v \<Longrightarrow> leader T = v"
  shows "reachable (fresh_init A m0 cfg) (orderly_step leader P A junk cfg) (fst x)"
  using assms(1,3)
proof induction
  case (reachable_init s)
  then show ?case by (intro reachable.reachable_init) (simp add: safe_init_def)
next
  case (reachable_step s t)
  have b: "ballot_step P A junk cfg s t" using reachable_step.hyps(2) by (simp add: safe_step_def)
  then have "snd s \<subseteq> B" using reachable_step.prems by (auto simp: ballot_step_def)
  then have r: "reachable (fresh_init A m0 cfg) (orderly_step leader P A junk cfg) (fst s)" by (rule reachable_step.IH)
  have "ballot_inv P junk m0 cfg t"
    using ballots.reachable_inv [OF safe_ballots [OF reachable.reachable_step [OF reachable_step.hyps]]] .
  then have "elected leader cfg (fst t)"
    using primary_wins [of P junk m0 cfg "fst (fst t)" "snd (fst t)" "snd t"] wins_mono reachable_step.prems assms(2,4,5)
    unfolding elected_def by (metis prod.collapse)
  then have "orderly_step leader P A junk cfg (fst s) (fst t)"
    using reachable_step.hyps(2) b by (auto simp: safe_step_def orderly_step_def ballot_step_def)
  with r show ?case by (rule reachable.reachable_step)
qed

lemma safe_leader:
  assumes "reachable (safe_init A m0 cfg) (safe_step P A junk cfg) ((\<sigma>, net), B)" and "clean junk"
  obtains leader where "reachable (fresh_init A m0 cfg) (orderly_step leader P A junk cfg) (\<sigma>, net)"
proof -
  have "ballot_inv P junk m0 cfg ((\<sigma>, net), B)" using ballots.reachable_inv [OF safe_ballots [OF assms(1)]] .
  then have B: "fst ` B \<subseteq> set cfg" "\<forall>w T c c'. (w, T, c) \<in> B \<longrightarrow> (w, T, c') \<in> B \<longrightarrow> c = c'"
    using assms(2) by (simp_all add: ballot_inv_def tally_inv_def)
  have "\<forall>T. \<exists>u. \<forall>v. wins cfg B T v \<longrightarrow> u = v" using wins_unique [OF _ _ B] by metis
  then obtain leader where "\<And>T v. wins cfg B T v \<Longrightarrow> leader T = v" by metis
  from safe_orderly [OF assms(1,2) _ B(1) this] show ?thesis by (intro that [of leader]) simp
qed

text \<open>C6. Log matching, for a whole cluster: in every state that a run from a fresh start reaches, with messages
  delayed and lost and all members' handlers interleaved, the logs of any two members agree up to every
  position at which both have an entry of the same term; provided that no member votes twice in a term (see
  \<open>one_primary_per_term\<close>), that only primaries are given commands (see \<open>client_command_appended\<close>), that no
  retry handler of an earlier role sends an AppendEntries, and that no message is longer than a receiver's
  buffer.\<close>

theorem logs_match:
  assumes "reachable (safe_init A m0 cfg) (safe_step P A junk cfg) ((\<sigma>, net), B)"
    and "pb_law P" "clean junk" "v \<in> set cfg" "w \<in> set cfg"
  shows "log_matching (log_of (entries_m (\<sigma> v))) (log_of (entries_m (\<sigma> w)))"
  by (rule safe_leader [OF assms(1,3)]) (rule orderly_logs_match [OF _ assms(2-5)])

end
