(* ===== verification/Raft_Links.thy ===== *)
theory Raft_Links
  imports Raft_Votes
begin

text \<open>
  The link between a primary and another member, as data: the primary's log \<open>G\<close>, the sequence number \<open>l\<close> of its
  next request to the member, the member's next entry \<open>n\<close> and the last one \<open>k\<close> it is believed to have saved; the
  member's term \<open>u\<close>, its log \<open>W\<close> and the largest sequence number \<open>z\<close> it has seen; the AppendEntries \<open>q\<close> under way
  to the member and its answers \<open>r\<close>, both oldest first. \<open>link_inv\<close> relates them, and there is one lemma for each way
  in which they change.
\<close>

section \<open>The relation\<close>

definition agree :: "int \<Rightarrow> rpc_Entry list \<Rightarrow> rpc_Entry list \<Rightarrow> bool" where
  "agree n xs ys \<longleftrightarrow> take (nat n) xs = take (nat n) ys"

lemma agree_0 [simp]: "n \<le> 0 \<Longrightarrow> agree n xs ys"
  by (simp add: agree_def)

lemma agree_less: "agree n xs ys \<Longrightarrow> m \<le> n \<Longrightarrow> agree m xs ys"
  unfolding agree_def by (metis min.absorb1 nat_mono take_take)

lemma agree_append: "agree n xs ys \<Longrightarrow> n \<le> int (length ys) \<Longrightarrow> agree n xs (ys @ zs)"
  by (simp add: agree_def)

text \<open>A request of term \<open>T\<close>: the last one carries the member's next entry, and if it is accepted it does not cut
  off what is believed saved.\<close>

definition request_ok :: "int \<Rightarrow> int \<Rightarrow> int \<Rightarrow> int \<Rightarrow> int \<Rightarrow> int \<Rightarrow> AppendEntryRpc \<Rightarrow> bool" where
  "request_ok T l n k u z ae \<longleftrightarrow> (ae_term ae = T \<longrightarrow>
     -1 \<le> ae_prelog_index ae \<and> ae_lsn ae < l \<and> (ae_lsn ae = l - 1 \<longrightarrow> ae_prelog_index ae = n - 1) \<and>
     (u = T \<longrightarrow> ae_lsn ae \<le> z \<or> k \<le> ae_prelog_index ae + 1))"

text \<open>An answer to a request of term \<open>T\<close>: if it answers the last one and is positive, then the member has the
  entries before that request and the one it carried; if it is negative, more is not believed saved.\<close>

definition answer_ok :: "int \<Rightarrow> rpc_Entry list \<Rightarrow> int \<Rightarrow> int \<Rightarrow> int \<Rightarrow> int \<Rightarrow> rpc_Entry list \<Rightarrow> int \<Rightarrow> Resp_AppendEntryRpc \<Rightarrow> bool" where
  "answer_ok T G l n k u W z a \<longleftrightarrow>
     rae_lsn a < l \<and> (u = T \<longrightarrow> rae_lsn a \<le> z) \<and>
     (rae_lsn a = l - 1 \<longrightarrow>
        (if rae_ok a
         then u = T \<longrightarrow> agree n W G \<and> (\<not> rae_is_empty_ae a \<longrightarrow> n < int (length G) \<and> agree (n + 1) W G)
         else k \<le> n - 2))"

text \<open>Answers in the term \<open>T\<close> to requests of earlier terms are negative and come first.\<close>

definition answers_ok :: "int \<Rightarrow> rpc_Entry list \<Rightarrow> int \<Rightarrow> int \<Rightarrow> int \<Rightarrow> int \<Rightarrow> rpc_Entry list \<Rightarrow> int \<Rightarrow>
    AppendEntryRpc list \<Rightarrow> Resp_AppendEntryRpc list \<Rightarrow> bool" where
  "answers_ok T G l n k u W z q r \<longleftrightarrow>
     (\<exists>old new. r = old @ new \<and> (\<forall>a \<in> set old. \<not> rae_ok a) \<and> (old \<noteq> [] \<longrightarrow> k = -1) \<and>
        ((\<exists>ae \<in> set q. ae_term ae < T) \<longrightarrow> k = -1 \<and> new = []) \<and>
        sorted_wrt (<) (map rae_lsn new) \<and> (\<forall>a \<in> set new. answer_ok T G l n k u W z a))"

definition link_inv :: "int \<Rightarrow> rpc_Entry list \<Rightarrow> int \<Rightarrow> int \<Rightarrow> int \<Rightarrow> int \<Rightarrow> rpc_Entry list \<Rightarrow> int \<Rightarrow>
    AppendEntryRpc list \<Rightarrow> Resp_AppendEntryRpc list \<Rightarrow> bool" where
  "link_inv T G l n k u W z q r \<longleftrightarrow>
     n \<le> int (length G) \<and> -1 \<le> k \<and> k < n \<and> (u < T \<longrightarrow> k = -1 \<and> r = []) \<and> (u = T \<longrightarrow> agree (k + 1) W G) \<and>
     sorted (map ae_term q) \<and> (\<forall>ae \<in> set q. request_ok T l n k u z ae) \<and> answers_ok T G l n k u W z q r"

lemma answers_okI:
  assumes "r = old @ new" "\<And>a. a \<in> set old \<Longrightarrow> \<not> rae_ok a" "old \<noteq> [] \<Longrightarrow> k = -1"
    "\<And>ae. ae \<in> set q \<Longrightarrow> ae_term ae < T \<Longrightarrow> k = -1 \<and> new = []"
    "sorted_wrt (<) (map rae_lsn new)" "\<And>a. a \<in> set new \<Longrightarrow> answer_ok T G l n k u W z a"
  shows "answers_ok T G l n k u W z q r"
  unfolding answers_ok_def using assms by (intro exI [of _ old] exI [of _ new]) blast

lemma answers_okE:
  assumes "answers_ok T G l n k u W z q r"
  obtains old new where "r = old @ new" "\<And>a. a \<in> set old \<Longrightarrow> \<not> rae_ok a" "old \<noteq> [] \<Longrightarrow> k = -1"
    "\<And>ae. ae \<in> set q \<Longrightarrow> ae_term ae < T \<Longrightarrow> k = -1 \<and> new = []"
    "sorted_wrt (<) (map rae_lsn new)" "\<And>a. a \<in> set new \<Longrightarrow> answer_ok T G l n k u W z a"
  using assms unfolding answers_ok_def by blast

lemma link_invD:
  assumes "link_inv T G l n k u W z q r"
  shows "n \<le> int (length G)" "-1 \<le> k" "k < n" "0 \<le> n" "u < T \<Longrightarrow> k = -1" "u < T \<Longrightarrow> r = []"
    "u = T \<Longrightarrow> agree (k + 1) W G" "sorted (map ae_term q)"
    "ae \<in> set q \<Longrightarrow> request_ok T l n k u z ae" "answers_ok T G l n k u W z q r"
  using assms by (simp_all add: link_inv_def)

lemma sorted_equal: "(\<And>x. x \<in> set xs \<Longrightarrow> f x = c) \<Longrightarrow> sorted (map f xs)"
  by (induction xs) auto

section \<open>Messages are lost\<close>

lemma link_lose_request:
  assumes "link_inv T G l n k u W z (ae # q) r"
  shows "link_inv T G l n k u W z q r"
proof -
  note i = link_invD [OF assms]
  have "answers_ok T G l n k u W z q r" by (rule answers_okE [OF i(10)]) (rule answers_okI, auto)
  with i show ?thesis by (auto simp: link_inv_def)
qed

lemma answers_tail:
  assumes "answers_ok T G l n k u W z q (a # r)"
  shows "answers_ok T G l n k u W z q r"
proof (rule answers_okE [OF assms])
  fix old new assume o: "a # r = old @ new" "\<And>a. a \<in> set old \<Longrightarrow> \<not> rae_ok a" "old \<noteq> [] \<Longrightarrow> k = -1"
    "\<And>ae. ae \<in> set q \<Longrightarrow> ae_term ae < T \<Longrightarrow> k = -1 \<and> new = []"
    "sorted_wrt (<) (map rae_lsn new)" "\<And>a. a \<in> set new \<Longrightarrow> answer_ok T G l n k u W z a"
  show ?thesis
  proof (cases old)
    case Nil
    then show ?thesis using o by (intro answers_okI [of r "[]" r]) (auto simp: sorted_wrt_append)
  next
    case (Cons b old')
    then show ?thesis using o by (intro answers_okI [of r old' new]) auto
  qed
qed

lemma link_lose_answer:
  assumes "link_inv T G l n k u W z q (a # r)"
  shows "link_inv T G l n k u W z q r"
  using link_invD [OF assms] answers_tail by (auto simp: link_inv_def)

section \<open>The primary\<close>

text \<open>Its log grows, and sequence numbers are skipped.\<close>

lemma link_primary:
  assumes "link_inv T G l n k u W z q r" "l \<le> l'"
  shows "link_inv T (G @ zs) l' n k u W z q r"
proof -
  note i = link_invD [OF assms(1)]
  have a: "answer_ok T (G @ zs) l' n k u W z a" if "answer_ok T G l n k u W z a" for a
    using that assms(2) i(1) by (auto simp: answer_ok_def agree_append split: if_splits)
  have "answers_ok T (G @ zs) l' n k u W z q r" by (rule answers_okE [OF i(10)]) (rule answers_okI, auto intro: a)
  moreover have "request_ok T l' n k u z ae" if "ae \<in> set q" for ae
    using i(9) [OF that] assms(2) by (auto simp: request_ok_def)
  ultimately show ?thesis using i by (auto simp: link_inv_def intro: agree_append)
qed

text \<open>It repeats its request.\<close>

lemma link_send:
  assumes "link_inv T G l n k u W z q r" "l < l'" "ae_term ae = T" "ae_lsn ae = l" "ae_prelog_index ae = n - 1"
    and "\<And>ae. ae \<in> set q \<Longrightarrow> ae_term ae \<le> T"
  shows "link_inv T G l' n k u W z (q @ [ae]) r"
proof -
  have j: "link_inv T G l' n k u W z q r" using link_primary [OF assms(1), of l' "[]"] assms(2) by simp
  note i = link_invD [OF j]
  have "request_ok T l' n k u z ae" using assms(2-5) i(3,4) by (simp add: request_ok_def)
  moreover have "answers_ok T G l' n k u W z (q @ [ae]) r"
    by (rule answers_okE [OF i(10)]) (rule answers_okI, use assms(3) in auto)
  ultimately show ?thesis using i assms(3,6) by (auto simp: link_inv_def sorted_append)
qed

text \<open>A positive answer to the last request; the next one \<open>p\<close> is sent unless the member has the whole log.\<close>

lemma link_acked:
  assumes inv: "link_inv T G l n k u W z q (a # r)" and a: "rae_lsn a = l - 1" "rae_ok a"
    and n': "n' = (if n < int (length G) \<and> \<not> rae_is_empty_ae a then n + 1 else n)"
    and p: "p = [] \<and> l' = l \<and> n' = n \<or>
      (\<exists>ae. p = [ae] \<and> l < l' \<and> ae_term ae = T \<and> ae_lsn ae = l \<and> ae_prelog_index ae = n' - 1)"
    and q: "\<And>ae. ae \<in> set q \<Longrightarrow> ae_term ae \<le> T"
  shows "link_inv T G l' n' (n' - 1) u W z (q @ p) r"
proof -
  note i = link_invD [OF inv]
  have u: "T \<le> u" using i(6) by force
  obtain old new where o: "a # r = old @ new" "\<And>a. a \<in> set old \<Longrightarrow> \<not> rae_ok a" "old \<noteq> [] \<Longrightarrow> k = -1"
    "\<And>ae. ae \<in> set q \<Longrightarrow> ae_term ae < T \<Longrightarrow> k = -1 \<and> new = []"
    "sorted_wrt (<) (map rae_lsn new)" "\<And>a. a \<in> set new \<Longrightarrow> answer_ok T G l n k u W z a"
    using answers_okE [OF i(10)] by blast
  have old: "old = []" using o(1,2) a(2) by (cases old) auto
  then have new: "new = a # r" using o(1) by simp
  have "answer_ok T G l n k u W z a" using o(6) new by simp
  then have h: "u = T \<Longrightarrow> agree n' W G" "u = T \<Longrightarrow> rae_lsn a \<le> z" using a n' by (auto simp: answer_ok_def)
  have "l - 1 < rae_lsn b \<and> rae_lsn b < l" if "b \<in> set r" for b
    using o(5,6) new a(1) that by (auto simp: answer_ok_def)
  then have r: "r = []" by (cases r) force+
  have t: "ae_term ae = T" if "ae \<in> set (q @ p)" for ae
    using o(4) [of ae] q [of ae] new p that by (cases "ae \<in> set q") force+
  then have "answers_ok T G l' n' (n' - 1) u W z (q @ p) r" using r by (intro answers_okI [of r "[]" "[]"]) force+
  moreover have "request_ok T l' n' (n' - 1) u z ae" if "ae \<in> set (q @ p)" for ae
  proof (cases "ae \<in> set q")
    case True
    from i(9) [OF this] True t [OF that] have "ae_lsn ae < l" "-1 \<le> ae_prelog_index ae"
      "ae_lsn ae = l - 1 \<Longrightarrow> ae_prelog_index ae = n - 1" by (auto simp: request_ok_def)
    then show ?thesis using p h(2) a(1) by (auto simp: request_ok_def)
  next
    case False
    then show ?thesis using p that i(4) n' by (auto simp: request_ok_def)
  qed
  moreover have "sorted (map ae_term (q @ p))" by (rule sorted_equal [where c = T]) (rule t)
  ultimately show ?thesis using i(1,4) u h(1) n' by (auto simp: link_inv_def)
qed

text \<open>A negative answer.\<close>

lemma link_refused:
  assumes inv: "link_inv T G l n k u W z q (a # r)" and a: "rae_lsn a = l - 1" "\<not> rae_ok a" "0 < n"
    and ae: "l < l'" "ae_term ae = T" "ae_lsn ae = l" "ae_prelog_index ae = n - 2"
    and q: "\<And>ae. ae \<in> set q \<Longrightarrow> ae_term ae \<le> T"
  shows "link_inv T G l' (n - 1) k u W z (q @ [ae]) r"
proof -
  note i = link_invD [OF inv]
  obtain old new where o: "a # r = old @ new" "\<And>a. a \<in> set old \<Longrightarrow> \<not> rae_ok a" "old \<noteq> [] \<Longrightarrow> k = -1"
    "\<And>ae. ae \<in> set q \<Longrightarrow> ae_term ae < T \<Longrightarrow> k = -1 \<and> new = []"
    "sorted_wrt (<) (map rae_lsn new)" "\<And>a. a \<in> set new \<Longrightarrow> answer_ok T G l n k u W z a"
    using answers_okE [OF i(10)] by blast
  have k: "k \<le> n - 2"
  proof (cases old)
    case Nil
    then have "answer_ok T G l n k u W z a" using o(6) [of a] o(1) by auto
    then show ?thesis using a by (simp add: answer_ok_def)
  next
    case (Cons b bs)
    then show ?thesis using o(3) a(3) by simp
  qed
  have b: "answer_ok T G l' m k u W z b" if "answer_ok T G l n k u W z b" for b m
    using that ae(1) by (auto simp: answer_ok_def split: if_splits)
  have old_q: "d \<in> set q" if "d \<in> set (q @ [ae])" "ae_term d < T" for d using that ae(2) by auto
  have "answers_ok T G l' (n - 1) k u W z (q @ [ae]) r"
  proof (cases old)
    case Nil
    then have new: "new = a # r" using o(1) by simp
    show ?thesis by (rule answers_okI [of r "[]" r]) (use o(4-6) new old_q b in \<open>force+\<close>)
  next
    case (Cons c cs)
    show ?thesis by (rule answers_okI [of r cs new]) (use o old_q b Cons in \<open>force+\<close>)
  qed
  moreover have "request_ok T l' (n - 1) k u z d" if "d \<in> set q" for d
    using i(9) [OF that] ae(1) by (auto simp: request_ok_def)
  moreover have "request_ok T l' (n - 1) k u z ae" using ae k a(3) by (auto simp: request_ok_def)
  ultimately show ?thesis using i k a(3) ae(2) q by (auto simp: link_inv_def sorted_append)
qed

text \<open>A new primary: its first request, if it sends the member one, is for the end of its log.\<close>

lemma link_start:
  assumes "sorted (map ae_term q)" "\<And>ae. ae \<in> set q \<Longrightarrow> ae_term ae < T" "\<And>a. a \<in> set r \<Longrightarrow> \<not> rae_ok a" "u < T \<Longrightarrow> r = []"
    and "\<And>ae. ae \<in> set p \<Longrightarrow> ae_term ae = T \<and> ae_lsn ae < l \<and> ae_prelog_index ae = int (length G) - 1"
  shows "link_inv T G l (int (length G)) (-1) u W z (q @ p) r"
proof -
  have "answers_ok T G l (int (length G)) (-1) u W z (q @ p) r" by (rule answers_okI [of r r "[]"]) (use assms(3) in auto)
  moreover have "sorted (map ae_term p)" by (rule sorted_equal [where c = T]) (simp add: assms(5))
  moreover have "request_ok T l (int (length G)) (-1) u z ae" if "ae \<in> set (q @ p)" for ae
    using that assms(2) [of ae] assms(5) [of ae] by (auto simp: request_ok_def)
  moreover have "sorted (map ae_term (q @ p))"
    using assms(1,2) \<open>sorted (map ae_term p)\<close> assms(5) by (simp add: sorted_append less_imp_le)
  ultimately show ?thesis using assms(4) by (auto simp: link_inv_def)
qed

section \<open>The member\<close>

text \<open>It goes to another state without reading a request of the primary.\<close>

lemma link_member:
  assumes inv: "link_inv T G l n k u W z q r" and u: "u \<le> u'" "u' = T \<Longrightarrow> W' = W" "u' = T \<Longrightarrow> u = T \<Longrightarrow> z \<le> z'"
  shows "link_inv T G l n k u' W' z' q r"
proof -
  note i = link_invD [OF inv]
  have k: "k = -1 \<and> r = []" if "u' = T" "u \<noteq> T" using that i(5,6) u(1) by simp
  have a: "answer_ok T G l n k u' W' z' a" if a: "a \<in> set r" "answer_ok T G l n k u W z a" for a
  proof (cases "u' = T")
    case True
    then have "u = T" using a(1) k by force
    with True u(2,3) a(2) show ?thesis by (auto simp: answer_ok_def)
  next
    case False
    with a(2) show ?thesis by (simp add: answer_ok_def split: if_splits)
  qed
  have "answers_ok T G l n k u' W' z' q r"
    by (rule answers_okE [OF i(10)]) (rule answers_okI, auto intro: a)
  moreover have "request_ok T l n k u' z' ae" if "ae \<in> set q" for ae
    using i(9) [OF that] i(3) k u by (cases "u = T") (auto simp: request_ok_def)
  ultimately show ?thesis using i k u by (cases "u = T") (auto simp: link_inv_def)
qed

text \<open>It reads a request of its term that is new to it and answers. Its log matches the request, and then
  agrees with the primary's up to the end of the request, or it does not match.\<close>

definition read_effect :: "rpc_Entry list \<Rightarrow> AppendEntryRpc \<Rightarrow> rpc_Entry list \<Rightarrow> rpc_Entry list \<Rightarrow> Resp_AppendEntryRpc \<Rightarrow> bool" where
  "read_effect G ae W W' a \<longleftrightarrow>
     rae_lsn a = ae_lsn ae \<and> (rae_is_empty_ae a \<longleftrightarrow> ae_entry ae = []) \<and>
     (if rae_ok a
      then agree (ae_prelog_index ae + 1) W' G \<and>
        (if ae_entry ae = [] then W' = W
         else ae_prelog_index ae + 1 < int (length G) \<and> agree (ae_prelog_index ae + 2) W' G)
      else W' = W \<and> \<not> agree (ae_prelog_index ae + 1) W G)"

lemma link_read:
  assumes inv: "link_inv T G l n k u W z (ae # q) r" and ae: "ae_term ae = T"
    and u: "u \<le> T" "u = T \<Longrightarrow> z < ae_lsn ae" and e: "read_effect G ae W W' a"
  shows "link_inv T G l n k T W' (ae_lsn ae) q (r @ [a])"
proof -
  note i = link_invD [OF inv]
  have le: "-1 \<le> ae_prelog_index ae" "ae_lsn ae < l" "ae_lsn ae = l - 1 \<Longrightarrow> ae_prelog_index ae = n - 1"
    "u = T \<Longrightarrow> k \<le> ae_prelog_index ae + 1"
    using i(9) [of ae] ae u(2) by (auto simp: request_ok_def)
  have k: "k = -1 \<and> r = []" if "u \<noteq> T" using that u(1) i(5,6) by simp
  have keep: "agree (k + 1) W' G"
  proof (cases "u = T")
    case True
    then have w: "agree (k + 1) W G" "k + 1 \<le> ae_prelog_index ae + 2" using i(7) le(4) by simp_all
    show ?thesis using e w agree_less [of _ W' G "k + 1"] by (auto simp: read_effect_def split: if_splits)
  next
    case False
    then show ?thesis using k by simp
  qed
  have no: "k \<le> ae_prelog_index ae - 1" if "\<not> rae_ok a"
  proof (rule ccontr)
    assume "\<not> k \<le> ae_prelog_index ae - 1"
    then have "ae_prelog_index ae + 1 \<le> k + 1" by simp
    moreover have "agree (k + 1) W G" using k i(7) by (cases "u = T") simp_all
    ultimately have "agree (ae_prelog_index ae + 1) W G" using agree_less by blast
    with e that show False by (simp add: read_effect_def)
  qed
  have a: "answer_ok T G l n k T W' (ae_lsn ae) a"
  proof -
    have l: "rae_lsn a = ae_lsn ae" using e by (simp add: read_effect_def)
    have "if rae_ok a then agree n W' G \<and> (\<not> rae_is_empty_ae a \<longrightarrow> n < int (length G) \<and> agree (n + 1) W' G) else k \<le> n - 2"
      if "ae_lsn ae = l - 1"
    proof -
      have "ae_prelog_index ae = n - 1" using le(3) that by simp
      then show ?thesis using e no by (auto simp: read_effect_def add.commute split: if_splits)
    qed
    with l le(2) show ?thesis by (simp add: answer_ok_def)
  qed
  have b: "answer_ok T G l n k T W' (ae_lsn ae) b \<and> rae_lsn b < ae_lsn ae" if "answer_ok T G l n k u W z b" "b \<in> set r" for b
    using that k u(2) le(2) by (cases "u = T") (auto simp: answer_ok_def)
  have "ae_term d = T \<or> T < ae_term d" if "d \<in> set q" for d using i(8) ae that by force
  then have none: "\<not> ae_term d < T" if "d \<in> set q" for d using that by force
  have "answers_ok T G l n k T W' (ae_lsn ae) q (r @ [a])"
  proof (rule answers_okE [OF i(10)])
    fix old new assume o: "r = old @ new" "\<And>a. a \<in> set old \<Longrightarrow> \<not> rae_ok a" "old \<noteq> [] \<Longrightarrow> k = -1"
      "sorted_wrt (<) (map rae_lsn new)" "\<And>a. a \<in> set new \<Longrightarrow> answer_ok T G l n k u W z a"
    have "rae_lsn a = ae_lsn ae" using e by (simp add: read_effect_def)
    then show ?thesis
      by (intro answers_okI [of _ old "new @ [a]"]) (use o none a b in \<open>auto simp: sorted_wrt_append\<close>)
  qed
  moreover have "request_ok T l n k T (ae_lsn ae) d" if "d \<in> set q" for d
    using i(9) [of d] that le k u by (cases "u = T") (auto simp: request_ok_def)
  ultimately show ?thesis using i keep by (auto simp: link_inv_def)
qed

text \<open>In its term \<open>T\<close> it refuses a request of an earlier term.\<close>

lemma link_read_old:
  assumes inv: "link_inv T G l n k u W z (ae # q) r" and ae: "ae_term ae < T" and a: "\<not> rae_ok a" and u: "T \<le> u"
  shows "link_inv T G l n k u W z q (r @ [a])"
proof -
  note i = link_invD [OF inv]
  have "answers_ok T G l n k u W z q (r @ [a])"
  proof (rule answers_okE [OF i(10)])
    fix old new assume o: "r = old @ new" "\<And>a. a \<in> set old \<Longrightarrow> \<not> rae_ok a"
      "\<And>d. d \<in> set (ae # q) \<Longrightarrow> ae_term d < T \<Longrightarrow> k = -1 \<and> new = []"
    then have "k = -1" "new = []" using ae by auto
    with o a show ?thesis by (intro answers_okI [of _ "old @ [a]" "[]"]) auto
  qed
  then show ?thesis using i u by (auto simp: link_inv_def)
qed

end
