(* ===== verification/Raft_Link_Steps.thy ===== *)
theory Raft_Link_Steps
  imports Raft_Links
begin

text \<open>
  What the handlers do to the two ends of a link: the fields that \<open>link_inv\<close> is about, and the types of the messages
  they send.
\<close>

section \<open>Sequence numbers\<close>

text \<open>Sending changes the network, the random numbers, the timers, and the receiver's sequence number.\<close>

lemma net_call_shape: "okp (\<lambda>t. \<exists>n. t = s\<lparr>network_m := n\<rparr>) (net_call P A ty v m s)"
  by (auto simp: net_call_def okp_map_outcome intro: okpI)

lemma arm_retry_shape:
  assumes "\<And>t. okp (\<lambda>u. u = t) (busy t)"
  shows "okp (\<lambda>t. \<exists>r rt. t = s\<lparr>rand_m := r, retry_timers_m := rt\<rparr>) (arm_retry_timer A ex h busy v s)"
proof (cases "map_of (retry_timers_m s) v")
  case (Some x)
  let ?t = "s\<lparr>rand_m := \<lambda>n. rand_m s (Suc n), retry_timers_m := put v (snd (expires_from_now A (ex (rand_m s 0)) x)) (retry_timers_m s)\<rparr>"
  have "okp (\<lambda>t. \<exists>r rt. t = s\<lparr>rand_m := r, retry_timers_m := rt\<rparr>) (busy ?t)"
    by (rule okp_mono [OF assms]) blast
  with Some show ?thesis
    by (simp add: arm_retry_timer_def call_rand_def split_def Let_def) blast
qed (simp add: arm_retry_timer_def)

lemma send_arm_shape:
  assumes "\<And>t. okp (\<lambda>u. u = t) (busy t)"
  shows "okp (\<lambda>t. \<exists>n r rt. t = s\<lparr>network_m := n, rand_m := r, retry_timers_m := rt\<rparr>)
    (seq (net_call P A ty v m s) (arm_retry_timer A ex h busy v))"
  unfolding okp_seq
proof (rule okp_mono [OF net_call_shape])
  fix t assume "\<exists>n. t = s\<lparr>network_m := n\<rparr>"
  then obtain n where t: "t = s\<lparr>network_m := n\<rparr>" by blast
  show "okp (\<lambda>t. \<exists>n r rt. t = s\<lparr>network_m := n, rand_m := r, retry_timers_m := rt\<rparr>) (arm_retry_timer A ex h busy v t)"
    by (rule okp_mono [OF arm_retry_shape [OF assms]]) (auto simp: t)
qed

lemma AE_shape:
  "okp (\<lambda>t. \<exists>n r rt. t = s\<lparr>current_rpc_lsn_m := put v (at0 (current_rpc_lsn_m s) v + 1) (current_rpc_lsn_m s),
      nextIndex_m := touch v (nextIndex_m s), network_m := n, rand_m := r, retry_timers_m := rt\<rparr>) (AE P A v s)"
  (is "okp ?Q _")
proof -
  let ?s = "s\<lparr>current_rpc_lsn_m := put v (at0 (current_rpc_lsn_m s) v + 1) (current_rpc_lsn_m s),
      nextIndex_m := touch v (nextIndex_m s)\<rparr>"
  have "snd (build_rpc_ae v s) = ?s" by (simp add: build_rpc_ae_def Let_def)
  moreover have "okp ?Q (seq (net_call P A APPEND_ENTRY v m ?s)
      (arm_retry_timer A random_ae_retry_expire (AE_handler v) (Throw AE_waiting) v))" for m
    by (rule okp_mono [OF send_arm_shape]) auto
  ultimately show ?thesis unfolding AE_def split_def Let_def okp_with_res by simp
qed

lemma RV_shape:
  "okp (\<lambda>t. \<exists>n r rt. t = s\<lparr>current_rpc_lsn_m := put v (at0 (current_rpc_lsn_m s) v + 1) (current_rpc_lsn_m s),
      network_m := n, rand_m := r, retry_timers_m := rt\<rparr>) (RV P A v s)"
  (is "okp ?Q _")
proof -
  let ?s = "s\<lparr>current_rpc_lsn_m := put v (at0 (current_rpc_lsn_m s) v + 1) (current_rpc_lsn_m s)\<rparr>"
  have "snd (build_rpc_rv v s) = ?s" by (simp add: build_rpc_rv_def Let_def)
  moreover have "okp ?Q (seq (net_call P A REQUEST_VOTE v m ?s)
      (arm_retry_timer A random_rv_retry_expire (RV_handler v) Ok v))" for m
    by (rule okp_mono [OF send_arm_shape]) auto
  ultimately show ?thesis unfolding RV_def split_def Let_def by simp
qed

section \<open>Handlers that leave the links alone\<close>

text \<open>The handler sends only messages of the types \<open>K\<close>.\<close>

definition speaks :: "RPC_TYPE set \<Rightarrow> 't RaftServer \<Rightarrow> 't RaftServer \<Rightarrow> bool" where
  "speaks K s t \<longleftrightarrow> (\<exists>xs. sent s t (map (\<lambda>(w, x). (w, wire x)) xs) \<and> (\<forall>(w, x) \<in> set xs. fst x \<in> K))"

text \<open>If the term stays, a member of the cluster has heard no less of the others than before.\<close>

definition hears :: "'t RaftServer \<Rightarrow> 't RaftServer \<Rightarrow> bool" where
  "hears s t \<longleftrightarrow> (term_m t = term_m s \<longrightarrow> (\<forall>v. at0 (follower_rpc_lsn_m s) v \<le> at0 (follower_rpc_lsn_m t) v))"

text \<open>What it has noted of the others stays, at most sequence numbers are skipped.\<close>

definition recalls :: "'t RaftServer \<Rightarrow> 't RaftServer \<Rightarrow> bool" where
  "recalls s t \<longleftrightarrow> (term_m t = term_m s \<longrightarrow>
     (\<forall>v. at0 (current_rpc_lsn_m s) v \<le> at0 (current_rpc_lsn_m t) v \<and> at0 (nextIndex_m t) v = at0 (nextIndex_m s) v) \<and>
     (\<forall>v. v \<noteq> addr_of s \<longrightarrow> at0 (Follower_saved_index_m t) v = at0 (Follower_saved_index_m s) v))"

definition calm :: "RPC_TYPE set \<Rightarrow> 't RaftServer \<Rightarrow> 't RaftServer \<Rightarrow> bool" where
  "calm K s t \<longleftrightarrow> speaks K s t \<and> hears s t \<and> recalls s t"

lemma speaks_quiet: "sent s t [] \<Longrightarrow> speaks K s t"
  unfolding speaks_def by (intro exI [of _ "[]"]) simp

lemma speaks_one: "sent s t [(w, wire x)] \<Longrightarrow> fst x \<in> K \<Longrightarrow> speaks K s t"
  unfolding speaks_def by (intro exI [of _ "[(w, x)]"]) simp

lemma speaks_round:
  assumes "sent s t (map (\<lambda>v. (v, wire (f v))) vs)" "\<And>v. v \<in> set vs \<Longrightarrow> fst (f v) \<in> K"
  shows "speaks K s t"
proof -
  have "sent s t (map (\<lambda>(w, x). (w, wire x)) (map (\<lambda>v. (v, f v)) vs))" using assms(1) by (simp add: comp_def)
  then show ?thesis
    using assms(2) unfolding speaks_def by (intro exI [of _ "map (\<lambda>v. (v, f v)) vs"]) auto
qed

lemma calm_term: "term_m t \<noteq> term_m s \<Longrightarrow> speaks K s t \<Longrightarrow> calm K s t"
  by (simp add: calm_def hears_def recalls_def)

lemma calm_refl: "calm K s s"
  by (simp add: calm_def hears_def recalls_def speaks_quiet sent_same)

lemma calm_net: "speaks K s (s\<lparr>network_m := n\<rparr>) \<Longrightarrow> calm K s (s\<lparr>network_m := n\<rparr>)"
  by (simp add: calm_def hears_def recalls_def)

lemma net_call_calm:
  assumes "rpc_inv (network_m s)" "ty \<in> K"
  shows "okp (calm K s) (net_call P A ty v m s)"
  by (rule okp_mono [OF net_call_sends [OF assms(1)]]) (use assms(2) in \<open>auto intro!: calm_net speaks_one\<close>)

lemma trans2F_calm:
  assumes "T \<noteq> term_m s"
  shows "okp (calm K s) (trans2F A T s)"
  using conjI [OF trans2F_effect [of s T A] trans2F_keeps [of s T A], folded okp_conj]
  by (rule okp_mono) (use assms in \<open>auto intro!: calm_term speaks_quiet sent_same\<close>)

lemma trans2C_calm:
  assumes "raft_inv P m0 s"
  shows "okp (calm {REQUEST_VOTE} s) (trans2C P A s)"
proof -
  have c: "rpc_inv (network_m s)" "distinct (configuration_m s)"
    using assms by (simp_all add: raft_inv_def conf_inv_def)
  show ?thesis
    using conjI [OF trans2C_effect [of s P A] trans2C_sends [OF c, of P A], folded okp_conj]
    by (rule okp_mono) (auto intro!: calm_term speaks_round [where f = "\<lambda>v. (REQUEST_VOTE, ser_rv P (candidate_rv s))"])
qed

lemma RV_calm:
  assumes "raft_inv P m0 s"
  shows "okp (calm {REQUEST_VOTE} s) (RV P A v s)"
  using conjI [OF RV_sends [OF raft_inv_log(5) [OF assms], of v P A] RV_shape [of v s P A], folded okp_conj]
proof (rule okp_mono)
  fix t assume t: "(sent s t [(v, wire (REQUEST_VOTE, ser_rv P (rv_to s v)))] \<and>
      (\<forall>w. w \<noteq> v \<longrightarrow> at0 (current_rpc_lsn_m t) w = at0 (current_rpc_lsn_m s) w)) \<and>
      (\<exists>n r rt. t = s\<lparr>current_rpc_lsn_m := put v (at0 (current_rpc_lsn_m s) v + 1) (current_rpc_lsn_m s),
      network_m := n, rand_m := r, retry_timers_m := rt\<rparr>)"
  then have "speaks {REQUEST_VOTE} s t" by (intro speaks_one) auto
  with t show "calm {REQUEST_VOTE} s t" by (auto simp: calm_def hears_def recalls_def)
qed

lemma rv_body_shape:
  "okp (\<lambda>t. current_rpc_lsn_m t = current_rpc_lsn_m s \<and> nextIndex_m t = nextIndex_m s \<and>
      Follower_saved_index_m t = Follower_saved_index_m s \<and>
      (\<forall>v. at0 (follower_rpc_lsn_m s) v \<le> at0 (follower_rpc_lsn_m t) v)) (rv_body P A rv s)"
  (is "okp ?Q _")
proof -
  let ?v = "(rv_ip rv, rv_port rv)"
  define u where "u = snd (should_ignore_remote_rpc ?v (rv_lsn rv) s)"
  have "?Q u" by (auto simp: u_def should_ignore_remote_rpc_def Let_def)
  then have "okp ?Q (make_resp_rv P A b ?v l u)" "okp ?Q (seq (make_resp_rv P A b ?v l u) (\<lambda>s. Ok (s\<lparr>already_voted_m := True\<rparr>)))"
    "okp ?Q (Ok u)" for b l
    by (auto simp: make_resp_rv_def net_call_def wp intro!: okpI)
  then show ?thesis
    unfolding rv_body_def split_def Let_def okp_if okp_with_res u_def [symmetric] by simp
qed

lemma react2rv_calm:
  assumes "raft_inv P m0 s"
  shows "okp (calm {RESP_VOTE} s) (react2rv P A rv s)"
proof -
  have e: "okp (\<lambda>t. speaks {RESP_VOTE} s t \<and> (term_m s < rv_term rv \<longrightarrow> term_m t \<noteq> term_m s)) (react2rv P A rv s)"
  proof (rule okp_mono [OF react2rv_effect [OF raft_inv_log(1,5) [OF assms]]])
    fix t assume e: "vote_effect P rv s t"
    have "vote_replies P s rv = [] \<or> (\<exists>b. vote_replies P s rv = [vote_reply P s rv b])"
      by (auto simp: vote_replies_def)
    moreover have "speaks {RESP_VOTE} s t" if "sent s t [vote_reply P s rv b]" for b
      using that by (intro speaks_one) (auto simp: vote_reply_def)
    ultimately have "speaks {RESP_VOTE} s t" using e speaks_quiet unfolding vote_effect_def by metis
    then show "speaks {RESP_VOTE} s t \<and> (term_m s < rv_term rv \<longrightarrow> term_m t \<noteq> term_m s)"
      using e by (auto simp: vote_effect_def)
  qed
  have "okp (\<lambda>t. hears s t \<and> recalls s t) (react2rv P A rv s)" if "\<not> term_m s < rv_term rv"
  proof -
    have "okp (\<lambda>t. hears s t \<and> recalls s t) (rv_body P A rv s)"
      by (rule okp_mono [OF rv_body_shape]) (auto simp: hears_def recalls_def)
    moreover have "okp (\<lambda>t. hears s t \<and> recalls s t) (make_resp_rv P A False v l s)" for v l
      unfolding make_resp_rv_def by (rule okp_mono [OF net_call_shape]) (auto simp: hears_def recalls_def)
    ultimately show ?thesis using that by (simp add: react2rv_split wp)
  qed
  then have "okp (\<lambda>t. \<not> term_m s < rv_term rv \<longrightarrow> hears s t \<and> recalls s t) (react2rv P A rv s)"
    by (cases "term_m s < rv_term rv") simp_all
  from conjI [OF e this, folded okp_conj] show ?thesis
    by (rule okp_mono) (cases "term_m s < rv_term rv"; auto simp: calm_def hears_def recalls_def)
qed

lemma client_calm:
  assumes "raft_inv P m0 s"
  shows "okp (calm {} s) (append_client_apply_to_entries P c str s)" "okp (calm {} s) (get_from_state_machine c str s)"
proof -
  show "okp (calm {} s) (get_from_state_machine c str s)"
    by (auto simp: get_from_state_machine_def okp_map_outcome calm_def hears_def recalls_def intro!: okpI speaks_quiet sent_same)
  have "server_m s = addr_of s" using assms by (simp add: raft_inv_def conf_inv_def)
  then show "okp (calm {} s) (append_client_apply_to_entries P c str s)"
    by (auto simp: append_client_apply_to_entries_def Let_def wp insert_entry_def calm_def hears_def recalls_def
        intro!: okpI speaks_quiet sent_same)
qed

lemma posted_calm:
  assumes "raft_inv P m0 s"
  shows "okp (calm {RESP_CLIENT_APPLY, RESP_CLIENT_QUERY} s) (server_step P A (Posted p) s)"
  using calm_refl [of "{RESP_CLIENT_APPLY, RESP_CLIENT_QUERY}" s] net_call_calm [OF raft_inv_log(5) [OF assms]]
  by (auto simp: write_resp_apply_call_def write_resp_query_call_def split: post.splits option.splits)

lemma react2ae_old_calm:
  assumes "raft_inv P m0 s" "ae_term ae < term_m s"
  shows "okp (calm {RESP_APPEND} s) (react2ae P A ae s)"
  using assms net_call_calm [OF raft_inv_log(5) [OF assms(1)], of RESP_APPEND "{RESP_APPEND}"]
  by (simp add: react2ae_split make_resp_ae_def)

section \<open>Handlers of a primary that send AppendEntries\<close>

lemma AE_hears:
  assumes "raft_inv P m0 s"
  shows "okp (\<lambda>t. speaks {APPEND_ENTRY} s t \<and> hears s t) (AE P A v s)"
  using conjI [OF AE_sends [OF raft_inv_log(5) [OF assms], of v P A] AE_shape [of v s P A], folded okp_conj]
  by (rule okp_mono) (auto simp: hears_def simp del: split_paired_All intro: speaks_one)

text \<open>Handling an answer touches nothing else than what is noted of the member it is from.\<close>

definition deal_rest :: "endpoint \<Rightarrow> 't RaftServer \<Rightarrow> 't RaftServer \<Rightarrow> bool" where
  "deal_rest v s t \<longleftrightarrow> follower_rpc_lsn_m t = follower_rpc_lsn_m s \<and>
     (\<forall>w. at0 (current_rpc_lsn_m s) w \<le> at0 (current_rpc_lsn_m t) w) \<and>
     (\<forall>w. w \<noteq> v \<longrightarrow> at0 (nextIndex_m t) w = at0 (nextIndex_m s) w \<and> at0 (current_rpc_lsn_m t) w = at0 (current_rpc_lsn_m s) w)"

lemma deal_rest_resend:
  assumes "deal_rest v s t"
  shows "okp (deal_rest v s) (case map_of (retry_timers_m t) v of None \<Rightarrow> Throw Null_deref t
      | Some x \<Rightarrow> AE P A v (t\<lparr>retry_timers_m := g t x\<rparr>))"
proof -
  have "okp (deal_rest v s) (AE P A v (t\<lparr>retry_timers_m := y\<rparr>))" for y
    by (rule okp_mono [OF AE_shape]) (use assms in \<open>auto simp: deal_rest_def add_increasing2 simp del: split_paired_All\<close>)
  then show ?thesis by (simp split: option.split)
qed

lemma deal_rest_update:
  assumes "deal_rest v s t"
  shows "okp (deal_rest v s) (primary_update_commit_index v i t)"
proof -
  have "okp (\<lambda>u. \<exists>k c. u = t\<lparr>Follower_saved_index_m := put v i (Follower_saved_index_m t), commit_index_m := k, smc_m := c\<rparr>)
      (primary_update_commit_index v i t)"
    unfolding primary_update_commit_index_def Let_def okp_if
    by (auto intro!: okp_mono [OF apply_frame] simp: fun_eq_iff)
  then show ?thesis
    by (rule okp_mono) (use assms in \<open>auto simp: deal_rest_def simp del: split_paired_All\<close>)
qed

lemma deal_rest_effect: "okp (deal_rest v s) (primary_deal_resp_ae_with_same_term P A v r s)"
proof -
  have touch: "deal_rest v s (s\<lparr>current_rpc_lsn_m := touch v (current_rpc_lsn_m s)\<rparr>)"
    "deal_rest v s (s\<lparr>current_rpc_lsn_m := touch v (current_rpc_lsn_m s), nextIndex_m := touch v (nextIndex_m s)\<rparr>)"
    "deal_rest v s (s\<lparr>current_rpc_lsn_m := touch v (current_rpc_lsn_m s), nextIndex_m := put v n (touch v (nextIndex_m s))\<rparr>)" for n
    by (simp_all add: deal_rest_def)
  have u: "okp (deal_rest v s) (seq (primary_update_commit_index v i t)
      (\<lambda>t. case map_of (retry_timers_m t) v of None \<Rightarrow> Throw Null_deref t
         | Some x \<Rightarrow> AE P A v (t\<lparr>retry_timers_m := g t x\<rparr>)))" if "deal_rest v s t" for i t g
    unfolding okp_seq by (rule okp_mono [OF deal_rest_update [OF that]]) (rule deal_rest_resend)
  have r: "okp (deal_rest v s) (case map_of (retry_timers_m s) v of None \<Rightarrow> Throw Null_deref t
      | Some x \<Rightarrow> AE P A v (t\<lparr>retry_timers_m := g x\<rparr>))"
    if "deal_rest v s t" "retry_timers_m t = retry_timers_m s" for t g
    using deal_rest_resend [OF that(1), of P A "\<lambda>t. g"] that(2) by simp
  show ?thesis
    unfolding primary_deal_resp_ae_with_same_term_def Let_def okp_if
    by (cases "rae_ok r") (auto intro!: touch u deal_rest_update r)
qed

lemma deal_hears:
  assumes "raft_inv P m0 s" "state_m s = primary"
  shows "okp (\<lambda>t. speaks {APPEND_ENTRY} s t \<and> hears s t) (primary_deal_resp_ae_with_same_term P A v r s)"
  using conjI [OF primary_deal_effect [OF assms, of P v r A] deal_rest_effect [of v s P A r], folded okp_conj]
proof (rule okp_mono)
  fix t assume t: "ack_effect P v r s t \<and> deal_rest v s t"
  have "speaks {APPEND_ENTRY} s t" if "sends_ae P v n c s t" for n c
    using that by (intro speaks_one) (auto simp: sends_ae_def)
  then have "speaks {APPEND_ENTRY} s t" using t by (auto simp: ack_effect_def Let_def speaks_quiet split: if_splits)
  with t show "speaks {APPEND_ENTRY} s t \<and> hears s t" by (simp add: hears_def deal_rest_def)
qed

text \<open>A new primary sends each other member one request.\<close>

lemma trans2P_links:
  fixes s :: "'t RaftServer"
  assumes "raft_inv P m0 s"
  shows "okp (\<lambda>t. frame (primary_state A s) t \<and> follower_rpc_lsn_m t = follower_rpc_lsn_m s \<and>
      at0 (current_rpc_lsn_m t) = (\<lambda>w. at0 (current_rpc_lsn_m s) w + (if w \<in> set (others s) then 1 else 0)) \<and>
      sent s t (map (\<lambda>v. (v, wire (APPEND_ENTRY, ser_ae P (heartbeat s v)))) (others s))) (trans2P P A s)"
proof -
  let ?p = "primary_state A s"
  have c: "rpc_inv (network_m s)" "distinct (configuration_m s)" "entries_inv (entries_m s)"
    using assms by (simp_all add: raft_inv_def conf_inv_def log_inv_def)
  have p: "network_m ?p = network_m s" "configuration_m ?p = configuration_m s" "port_m ?p = port_m s"
    "current_rpc_lsn_m ?p = current_rpc_lsn_m s" "follower_rpc_lsn_m ?p = follower_rpc_lsn_m s"
    by (simp_all add: primary_state_def cancel_all_timers_def)
  have f: "okp (frame ?p) (trans2P P A s)" unfolding trans2P_eq by (intro frame_for_others frame_AE)
  have h: "okp (\<lambda>t. follower_rpc_lsn_m t = follower_rpc_lsn_m s) (trans2P P A s)"
    unfolding trans2P_eq for_others_def
  proof (rule okp_for_each)
    fix x and t :: "'t RaftServer" assume t: "follower_rpc_lsn_m t = follower_rpc_lsn_m s"
    have "okp (\<lambda>t. follower_rpc_lsn_m t = follower_rpc_lsn_m s) (AE P A x t)"
      by (rule okp_mono [OF AE_shape]) (use t in auto)
    with t show "okp (\<lambda>t. follower_rpc_lsn_m t = follower_rpc_lsn_m s) (if port_of x \<noteq> port_m t then AE P A x t else Ok t)"
      by simp
  qed (simp add: p)
  have l: "okp (\<lambda>t. at0 (current_rpc_lsn_m t) = (\<lambda>w. at0 (current_rpc_lsn_m s) w + (if w \<in> set (others s) then 1 else 0)))
      (trans2P P A s)"
  proof -
    have one: "okp (\<lambda>u. rpc_inv (network_m u) \<and> port_m u = port_m t \<and>
        at0 (current_rpc_lsn_m u) = (at0 (current_rpc_lsn_m t))(v := at0 (current_rpc_lsn_m t) v + 1)) (AE P A v t)"
      if "rpc_inv (network_m t)" for v and t :: "'t RaftServer"
      using conjI [OF frame_AE [of t P A v] AE_shape [of v t P A], folded okp_conj]
      by (rule okp_mono) (use that in \<open>auto simp: log_frame_def fun_eq_iff\<close>)
    have "okp (\<lambda>u. at0 (current_rpc_lsn_m u) = (\<lambda>w. at0 (current_rpc_lsn_m ?p) w +
        (if w \<in> set (configuration_m ?p) \<and> port_of w \<noteq> port_m ?p then 1 else 0))) (for_others (AE P A) ?p)"
      unfolding for_others_def using c(1,2) by (intro for_each_lsn one) (simp_all add: p)
    then show ?thesis unfolding trans2P_eq by (rule okp_mono) (simp add: p fun_eq_iff)
  qed
  show ?thesis
    unfolding okp_conj using f h l trans2P_sends [OF c, of P A] by (simp add: okp_conj)
qed

lemma trans2P_hears:
  assumes "raft_inv P m0 s"
  shows "okp (\<lambda>t. speaks {APPEND_ENTRY} s t \<and> hears s t) (trans2P P A s)"
  by (rule okp_mono [OF trans2P_links [OF assms]])
    (auto simp: hears_def intro!: speaks_round [where f = "\<lambda>v. (APPEND_ENTRY, ser_ae P (heartbeat s v))"])

section \<open>Every handler, at the member's end\<close>

text \<open>Handling anything but an AppendEntries sends no answer to one.\<close>

lemma react2resp_rv_hears:
  assumes "raft_inv P m0 s"
  shows "okp (\<lambda>t. speaks {APPEND_ENTRY} s t \<and> hears s t) (react2resp_rv P A r s)"
proof -
  have win: "okp (\<lambda>t. speaks {APPEND_ENTRY} s t \<and> hears s t) (trans2P P A (s\<lparr>current_rpc_lsn_m := l, winned_votes_m := w\<rparr>))" for l w
  proof -
    have "raft_inv P m0 (s\<lparr>current_rpc_lsn_m := l, winned_votes_m := w\<rparr>)"
      using assms by (simp add: raft_inv_def conf_inv_def log_inv_def book_inv_def)
    from trans2P_hears [OF this, of A] show ?thesis
      by (rule okp_mono) (simp add: speaks_def hears_def sent_def)
  qed
  have "okp (\<lambda>t. speaks {APPEND_ENTRY} s t \<and> hears s t) (candidate_deal_resp_rv_with_same_term P A v r s)" for v
    unfolding candidate_deal_resp_rv_with_same_term_def Let_def okp_if
    using win by (auto simp: hears_def intro!: speaks_quiet sent_same split: option.splits)
  moreover have "okp (\<lambda>t. speaks {APPEND_ENTRY} s t \<and> hears s t) (trans2F A T s)" if "term_m s < T" for T
    by (rule okp_mono [OF trans2F_calm]) (use that in \<open>auto simp: calm_def\<close>)
  moreover have "speaks {APPEND_ENTRY} s s \<and> hears s s" by (simp add: hears_def speaks_quiet sent_same)
  ultimately show ?thesis by (simp add: react2resp_rv_def Let_def wp)
qed

lemma react2resp_ae_hears:
  assumes "raft_inv P m0 s"
  shows "okp (\<lambda>t. speaks {APPEND_ENTRY} s t \<and> hears s t) (react2resp_ae P A r s)"
proof -
  have "okp (\<lambda>t. speaks {APPEND_ENTRY} s t \<and> hears s t) (trans2F A T s)" if "term_m s < T" for T
    by (rule okp_mono [OF trans2F_calm]) (use that in \<open>auto simp: calm_def\<close>)
  moreover have "speaks {APPEND_ENTRY} s s \<and> hears s s" by (simp add: hears_def speaks_quiet sent_same)
  ultimately show ?thesis using deal_hears [OF assms] by (simp add: react2resp_ae_def Let_def wp)
qed

lemma speaks_mono: "speaks K s t \<Longrightarrow> K \<subseteq> L \<Longrightarrow> speaks L s t"
  unfolding speaks_def by (fastforce simp del: split_paired_Ex)

lemma calm_hears: "okp (calm K s) m \<Longrightarrow> K \<subseteq> L \<Longrightarrow> okp (\<lambda>t. speaks L s t \<and> hears s t) m"
  by (erule okp_mono) (auto simp: calm_def intro: speaks_mono)

lemma hears_mono: "okp (\<lambda>t. speaks K s t \<and> hears s t) m \<Longrightarrow> K \<subseteq> L \<Longrightarrow> okp (\<lambda>t. speaks L s t \<and> hears s t) m"
  by (erule okp_mono) (auto intro: speaks_mono)

abbreviation plain :: "RPC_TYPE set" where
  "plain \<equiv> - {ERROR, RESP_APPEND}"

theorem member_hears:
  assumes "raft_inv P m0 s" "\<And>m peer. ev \<noteq> Incoming APPEND_ENTRY m peer"
  shows "okp (\<lambda>t. speaks plain s t \<and> hears s t) (server_step P A ev s)"
proof (cases ev)
  case (Incoming ty m peer)
  have "speaks plain s s \<and> hears s s" by (simp add: hears_def speaks_quiet sent_same)
  then show ?thesis
    using Incoming assms(2) [of m peer] calm_hears [OF react2rv_calm [OF assms(1)], of plain]
      hears_mono [OF react2resp_ae_hears [OF assms(1)], of plain] hears_mono [OF react2resp_rv_hears [OF assms(1)], of plain]
      calm_hears [OF client_calm(1) [OF assms(1)], of plain] calm_hears [OF client_calm(2) [OF assms(1)], of plain]
    by (simp add: reactToIncomingMsg_def)
next
  case (Timer_event h err)
  have "speaks plain s s \<and> hears s s" by (simp add: hears_def speaks_quiet sent_same)
  then have "okp (\<lambda>t. speaks plain s t \<and> hears s t) (timer_handler P A h err s)"
    using calm_hears [OF trans2C_calm [OF assms(1), of A], of plain] hears_mono [OF AE_hears [OF assms(1)], of plain]
      calm_hears [OF RV_calm [OF assms(1)], of plain]
    by (cases h) (simp_all add: run_handler_def trans2F_handler_def trans2C_handler_def AE_retry_handler_def
      RV_retry_handler_def wp split: error_code.splits option.splits)
  with Timer_event show ?thesis by simp
next
  case (Posted p)
  show ?thesis unfolding Posted by (rule calm_hears [OF posted_calm [OF assms(1)]]) simp
qed

section \<open>Every handler, at the primary's end\<close>

text \<open>The AppendEntries among the messages that go to \<open>w\<close>.\<close>

definition aes_to :: "endpoint \<Rightarrow> (endpoint \<times> RPC_TYPE \<times> string) list \<Rightarrow> string list" where
  "aes_to w xs = map (\<lambda>(u, ty, m). m) (filter (\<lambda>(u, ty, m). u = w \<and> ty = APPEND_ENTRY) xs)"

lemma aes_to_simps [simp]:
  "aes_to w [] = []" "aes_to w ((u, ty, m) # xs) = (if u = w \<and> ty = APPEND_ENTRY then [m] else []) @ aes_to w xs"
  by (simp_all add: aes_to_def)

lemma aes_to_none: "\<forall>(u, x) \<in> set xs. fst x \<in> K \<Longrightarrow> APPEND_ENTRY \<notin> K \<Longrightarrow> aes_to w xs = []"
  by (induction xs) auto

text \<open>What a primary does to a member when it handles no answer of its: nothing, or it repeats the request for the
  member's next entry.\<close>

definition serves :: "pb \<Rightarrow> endpoint \<Rightarrow> 't RaftServer \<Rightarrow> 't RaftServer \<Rightarrow> (endpoint \<times> RPC_TYPE \<times> string) list \<Rightarrow> bool" where
  "serves P w s t xs \<longleftrightarrow>
     at0 (nextIndex_m t) w = at0 (nextIndex_m s) w \<and> at0 (Follower_saved_index_m t) w = at0 (Follower_saved_index_m s) w \<and>
     (aes_to w xs = [] \<and> at0 (current_rpc_lsn_m s) w \<le> at0 (current_rpc_lsn_m t) w \<or>
      (\<exists>c. aes_to w xs = [ser_ae P (ae_at s w (at0 (nextIndex_m s) w) c)] \<and>
           at0 (current_rpc_lsn_m s) w < at0 (current_rpc_lsn_m t) w))"

definition serves_all :: "pb \<Rightarrow> (endpoint \<Rightarrow> bool) \<Rightarrow> 't RaftServer \<Rightarrow> 't RaftServer \<Rightarrow> bool" where
  "serves_all P D s t \<longleftrightarrow> (\<exists>xs. sent s t (map (\<lambda>(w, x). (w, wire x)) xs) \<and> (\<forall>(w, x) \<in> set xs. fst x \<noteq> ERROR) \<and>
     (\<forall>w. w \<noteq> addr_of s \<longrightarrow> \<not> D w \<longrightarrow> serves P w s t xs))"

lemma calm_serves:
  assumes "calm K s t" "term_m t = term_m s" "K \<inter> {APPEND_ENTRY, ERROR} = {}"
  shows "serves_all P D s t"
proof -
  obtain xs where xs: "sent s t (map (\<lambda>(w, x). (w, wire x)) xs)" "\<forall>(w, x) \<in> set xs. fst x \<in> K"
    using assms(1) unfolding calm_def speaks_def by blast
  have "\<forall>(w, x) \<in> set xs. fst x \<noteq> ERROR" using xs(2) assms(3) by auto
  moreover have "serves P w s t xs" if "w \<noteq> addr_of s" for w
    using assms aes_to_none [OF xs(2), of w] that unfolding calm_def recalls_def serves_def by (auto simp del: split_paired_All)
  ultimately show ?thesis using xs(1) unfolding serves_all_def by blast
qed

lemma serves_one:
  assumes "sent s t [(v, wire (ty, m))]" "ty \<noteq> ERROR" "\<And>w. w \<noteq> addr_of s \<Longrightarrow> \<not> D w \<Longrightarrow> serves P w s t [(v, ty, m)]"
  shows "serves_all P D s t"
  unfolding serves_all_def by (intro exI [of _ "[(v, ty, m)]"]) (use assms in auto)

lemma AE_serves:
  assumes "raft_inv P m0 s"
  shows "okp (serves_all P D s) (AE P A v s)"
proof (cases "fst (build_rpc_ae v s)")
  case (Inl e)
  then show ?thesis by (simp add: AE_def split_def Let_def)
next
  case (Inr ae)
  note a = build_ae_at [OF assms Inr]
  show ?thesis
    using conjI [OF AE_sends [OF raft_inv_log(5) [OF assms], of v P A] AE_shape [of v s P A], folded okp_conj]
  proof (rule okp_mono)
    fix t assume t: "(sent s t [(v, wire (APPEND_ENTRY, ser_ae P (ae_to s v)))] \<and>
      (\<forall>w. w \<noteq> v \<longrightarrow> at0 (current_rpc_lsn_m t) w = at0 (current_rpc_lsn_m s) w)) \<and>
      (\<exists>n r rt. t = s\<lparr>current_rpc_lsn_m := put v (at0 (current_rpc_lsn_m s) v + 1) (current_rpc_lsn_m s),
      nextIndex_m := touch v (nextIndex_m s), network_m := n, rand_m := r, retry_timers_m := rt\<rparr>)"
    then have "serves P w s t [(v, APPEND_ENTRY, ser_ae P (ae_at s v (at0 (nextIndex_m s) v) (commit_index_m s)))]" for w
      by (auto simp: serves_def)
    then show "serves_all P D s t" using t unfolding a(4) a(3) by (intro serves_one) auto
  qed
qed

lemma deal_serves:
  assumes "raft_inv P m0 s" "state_m s = primary"
  shows "okp (serves_all P (\<lambda>w. w = v) s) (primary_deal_resp_ae_with_same_term P A v r s)"
  using conjI [OF primary_deal_effect [OF assms, of P v r A] conjI [OF deal_rest_effect [of v s P A r] deal_frame_effect [of v r s P A],
    folded okp_conj], folded okp_conj]
proof (rule okp_mono)
  fix t assume t: "ack_effect P v r s t \<and> deal_rest v s t \<and> deal_frame v (rae_ok r) s t"
  have f: "serves P w s t xs" if "w \<noteq> v" "aes_to w xs = []" for w xs
    using t that by (simp add: serves_def deal_rest_def deal_frame_def del: split_paired_All)
  have one: "serves_all P (\<lambda>w. w = v) s t" if "sends_ae P v n c s t" for n c
    by (rule serves_one [of _ _ v APPEND_ENTRY]) (use that f in \<open>auto simp: sends_ae_def\<close>)
  have none: "serves_all P (\<lambda>w. w = v) s t" if "sent s t []"
    unfolding serves_all_def by (rule exI [of _ "[]"]) (use that f in auto)
  show "serves_all P (\<lambda>w. w = v) s t" using t one none by (auto simp: ack_effect_def Let_def split: if_splits)
qed

text \<open>Whether the event is the answer of \<open>w\<close> to an AppendEntries of the term.\<close>

fun answered :: "pb \<Rightarrow> int \<Rightarrow> event \<Rightarrow> endpoint \<Rightarrow> bool" where
  "answered P T (Incoming ty m peer) w = (ty = RESP_APPEND \<and> rae_term (parse_resp_ae P m) = T \<and>
     (rae_ip (parse_resp_ae P m), rae_port (parse_resp_ae P m)) = w)"
| "answered P T ev w = False"

lemma answer_effect:
  assumes "raft_inv P m0 s" "state_m s = primary" "rae_term (parse_resp_ae P m) = term_m s"
    and "v = (rae_ip (parse_resp_ae P m), rae_port (parse_resp_ae P m))"
  shows "okp (\<lambda>t. ack_effect P v (parse_resp_ae P m) s t \<and> deal_rest v s t \<and> deal_frame v (rae_ok (parse_resp_ae P m)) s t)
    (server_step P A (Incoming RESP_APPEND m peer) s)"
  using conjI [OF primary_deal_effect [OF assms(1,2), of P v "parse_resp_ae P m" A]
      conjI [OF deal_rest_effect [of v s P A "parse_resp_ae P m"] deal_frame_effect [of v "parse_resp_ae P m" s P A],
        folded okp_conj], folded okp_conj] assms(2-4)
  by (simp add: reactToIncomingMsg_def react2resp_ae_def Let_def)

theorem primary_serves:
  assumes "raft_inv P m0 s" "has_room s" "state_m s = primary"
  shows "okp (\<lambda>t. state_m t = primary \<longrightarrow> term_m t = term_m s \<longrightarrow> serves_all P (answered P (term_m s) ev) s t) (server_step P A ev s)"
proof (cases ev)
  case (Incoming ty m peer)
  let ?Q = "\<lambda>t. state_m t = primary \<longrightarrow> term_m t = term_m s \<longrightarrow> serves_all P (answered P (term_m s) ev) s t"
  have calm: "okp ?Q x" if "okp (calm K s) x" "K \<inter> {APPEND_ENTRY, ERROR} = {}" for K x
    using that(1) by (rule okp_mono) (use calm_serves that(2) in blast)
  have same: "?Q s" using calm_serves [OF calm_refl [of "{}" s]] by simp
  have ae: "okp ?Q (react2ae P A ae s)" for ae
  proof (cases "ae_term ae < term_m s")
    case True
    show ?thesis by (rule calm [OF react2ae_old_calm [OF assms(1) True]]) simp
  next
    case False
    show ?thesis
      by (rule okp_mono [OF react2ae_effect [OF raft_inv_log(1) [OF assms(1)] assms(2) raft_inv_log(5) [OF assms(1)]]])
        (use False in \<open>auto simp: ae_effect_def\<close>)
  qed
  have t2f: "okp ?Q (trans2F A T s)" if "term_m s < T" for T
    by (rule calm [OF trans2F_calm [of T s "{}"]]) (use that in auto)
  have "okp ?Q (react2resp_ae P A (parse_resp_ae P m) s)" if ty: "ty = RESP_APPEND"
  proof -
    let ?r = "parse_resp_ae P m"
    have "okp ?Q (primary_deal_resp_ae_with_same_term P A (rae_ip ?r, rae_port ?r) ?r s)" if "rae_term ?r = term_m s"
      by (rule okp_mono [OF deal_serves [OF assms(1,3)]])
        (use that ty Incoming in \<open>auto simp: fun_eq_iff elim!: back_subst [of "\<lambda>D. serves_all P D s _"]\<close>)
    with t2f same assms(3) show ?thesis
      by (cases "rae_term ?r = term_m s") (simp_all add: react2resp_ae_def Let_def)
  qed
  moreover have "okp ?Q (react2resp_rv P A r s)" for r
    using t2f same assms(3) by (cases "rrv_term r = term_m s") (simp_all add: react2resp_rv_def Let_def)
  moreover have eq: "server_step P A ev s = reactToIncomingMsg P A ty m peer s" by (simp add: Incoming)
  ultimately show ?thesis
    using ae same calm [OF react2rv_calm [OF assms(1)]] calm [OF client_calm(1) [OF assms(1)]]
      calm [OF client_calm(2) [OF assms(1)]] assms(3)
    unfolding eq reactToIncomingMsg_def okp_if by simp
next
  case (Timer_event h err)
  let ?Q = "\<lambda>t. state_m t = primary \<longrightarrow> term_m t = term_m s \<longrightarrow> serves_all P (answered P (term_m s) ev) s t"
  have "okp ?Q (trans2C P A s)" "okp ?Q (RV P A v s)" "okp ?Q (AE P A v s)" "?Q s" for v
    using calm_serves [OF calm_refl [of "{}" s]]
    by (auto intro: okp_mono [OF trans2C_calm [OF assms(1)]] okp_mono [OF RV_calm [OF assms(1)]]
        okp_mono [OF AE_serves [OF assms(1)]] calm_serves)
  then have "okp ?Q (timer_handler P A h err s)"
    by (cases h) (simp_all add: run_handler_def trans2F_handler_def trans2C_handler_def AE_retry_handler_def
      RV_retry_handler_def wp split: error_code.splits option.splits)
  with Timer_event show ?thesis by simp
next
  case (Posted p)
  show ?thesis
    unfolding Posted by (rule okp_mono [OF posted_calm [OF assms(1)]]) (auto intro: calm_serves)
qed

text \<open>A candidate that becomes primary: every other member's next entry is the end of its log, none is believed
  saved, and the requests it sends are for that entry.\<close>

definition starts :: "pb \<Rightarrow> 't RaftServer \<Rightarrow> 't RaftServer \<Rightarrow> bool" where
  "starts P s t \<longleftrightarrow> entries_m t = entries_m s \<and>
     (\<exists>xs. sent s t (map (\<lambda>(w, x). (w, wire x)) xs) \<and> (\<forall>(w, x) \<in> set xs. fst x \<noteq> ERROR) \<and>
     (\<forall>w \<in> set (configuration_m s). w \<noteq> addr_of s \<longrightarrow>
        at0 (nextIndex_m t) w = Entries_size (entries_m s) \<and> at0 (Follower_saved_index_m t) w = -1 \<and>
        (\<forall>m \<in> set (aes_to w xs). \<exists>ae. m = ser_ae P ae \<and> ae_term ae = term_m s \<and>
           ae_lsn ae < at0 (current_rpc_lsn_m t) w \<and> ae_prelog_index ae = Entries_size (entries_m s) - 1)))"

lemma trans2P_starts:
  assumes "raft_inv P m0 s"
  shows "okp (\<lambda>t. starts P s t \<and> term_m t = term_m s) (trans2P P A s)"
proof (rule okp_mono [OF trans2P_links [OF assms]])
  fix t assume t: "frame (primary_state A s) t \<and> follower_rpc_lsn_m t = follower_rpc_lsn_m s \<and>
      at0 (current_rpc_lsn_m t) = (\<lambda>w. at0 (current_rpc_lsn_m s) w + (if w \<in> set (others s) then 1 else 0)) \<and>
      sent s t (map (\<lambda>v. (v, wire (APPEND_ENTRY, ser_ae P (heartbeat s v)))) (others s))"
  let ?xs = "map (\<lambda>v. (v, APPEND_ENTRY, ser_ae P (heartbeat s v))) (others s)"
  have "server_m s = addr_of s" using assms by (simp add: raft_inv_def conf_inv_def)
  then have f: "at0 (nextIndex_m t) w = Entries_size (entries_m s) \<and> at0 (Follower_saved_index_m t) w = -1"
    if "w \<in> set (configuration_m s)" "w \<noteq> addr_of s" for w
    using t that by (auto simp: log_frame_def primary_state_def cancel_all_timers_def at0_put_all)
  have m: "\<exists>ae. m = ser_ae P ae \<and> ae_term ae = term_m s \<and> ae_lsn ae < at0 (current_rpc_lsn_m t) w \<and>
      ae_prelog_index ae = Entries_size (entries_m s) - 1" if "m \<in> set (aes_to w ?xs)" for m w
  proof -
    have "m = ser_ae P (heartbeat s w)" "w \<in> set (others s)" using that by (auto simp: aes_to_def)
    then show ?thesis using t by (intro exI [of _ "heartbeat s w"]) (auto simp: heartbeat_def)
  qed
  have "sent s t (map (\<lambda>(w, x). (w, wire x)) ?xs)" using t by (simp add: comp_def)
  moreover have "\<forall>(w, x) \<in> set ?xs. fst x \<noteq> ERROR" by auto
  moreover have "entries_m t = entries_m s" "term_m t = term_m s"
    using t by (simp_all add: log_frame_def vote_frame_def primary_state_def cancel_all_timers_def)
  ultimately show "starts P s t \<and> term_m t = term_m s" using f m unfolding starts_def by blast
qed

theorem candidate_starts:
  assumes "raft_inv P m0 s" "state_m s = candidate" "has_room s"
  shows "okp (\<lambda>t. state_m t = primary \<longrightarrow> starts P s t) (server_step P A ev s)"
proof (rule okpI)
  fix t assume t: "server_step P A ev s = Ok t"
  have e: "election_step P ev s t" using okpD [where Q = "election_step P ev s", OF server_step_election t] .
  show "state_m t = primary \<longrightarrow> starts P s t"
  proof
    assume p: "state_m t = primary"
    show "starts P s t"
    proof (cases "\<exists>m peer. ev = Incoming RESP_VOTE m peer")
      case True
      then obtain r where r: "react2resp_rv P A r s = Ok t" using t by (auto simp: reactToIncomingMsg_def)
      have win: "okp (\<lambda>t. starts P s t) (trans2P P A (s\<lparr>current_rpc_lsn_m := l, winned_votes_m := w\<rparr>))" for l w
      proof -
        have "raft_inv P m0 (s\<lparr>current_rpc_lsn_m := l, winned_votes_m := w\<rparr>)"
          using assms by (simp add: raft_inv_def conf_inv_def log_inv_def book_inv_def)
        from trans2P_starts [OF this, of A] show ?thesis by (rule okp_mono) (simp add: starts_def sent_def)
      qed
      have "okp (\<lambda>t. state_m t = primary \<longrightarrow> starts P s t) (candidate_deal_resp_rv_with_same_term P A v r s)" for v
        unfolding candidate_deal_resp_rv_with_same_term_def Let_def okp_if
        using okp_mono [OF win] assms(2) by (simp split: option.splits)
      moreover have "okp (\<lambda>t. state_m t = primary \<longrightarrow> starts P s t) (trans2F A T s)" for T
        by (rule okp_mono [OF trans2F_effect]) simp
      ultimately have "okp (\<lambda>t. state_m t = primary \<longrightarrow> starts P s t) (react2resp_rv P A r s)"
        using assms(2) by (simp add: react2resp_rv_def Let_def)
      with r p show ?thesis by simp
    next
      case False
      have "term_m t = term_m s"
        using okpD [OF server_step_polls [OF assms(1,3)] t] p by (simp add: polls_def)
      with False e p assms(2) show ?thesis by (cases ev) (auto simp: election_step_def)
    qed
  qed
qed

end
