(* ===== verification/Raft_Ballot.thy ===== *)
theory Raft_Ballot
  imports Raft_Link_Steps
begin

text \<open>
  One server's votes, counted where they leave it: in the bytes that its handlers hand to the network. Beyond the handler
  of a vote request nobody sends an answer to one, so a server votes at most once in a term in which it handles no
  AppendEntries, its own candidature included; and it can vote twice when it does.
\<close>

section \<open>Votes among the messages sent\<close>

lemma length_show_nat_mono: "m \<le> n \<Longrightarrow> length (show_nat m) \<le> length (show_nat n)"
proof (induction m arbitrary: n rule: show_nat.induct)
  case (1 m)
  show ?case
  proof (cases "m < 10")
    case True
    then have "length (show_nat m) = 1" by (simp add: show_nat.simps [of m])
    then show ?thesis by (metis One_nat_def Suc_leI length_greater_0_conv show_nat_nonempty)
  next
    case False
    then have "\<not> n < 10" using "1.prems" by simp
    with False "1.IH" [of "n div 10"] "1.prems" show ?thesis
      by (simp add: show_nat.simps [of m] show_nat.simps [of n] div_le_mono)
  qed
qed

lemma length_wire: "length (wire x) = length (sprintf_4d (int (Suc (length (snd x))))) + Suc (length (snd x))"
  by (simp add: wire_def to_string_type)

text \<open>The bytes determine the message.\<close>

lemma wire_determines:
  assumes "wire x = wire y"
  shows "x = y"
proof -
  have less: "length (wire x) < length (wire y)" if "length (snd x) < length (snd y)" for x y
    using that length_show_nat_mono [of "Suc (length (snd x))" "Suc (length (snd y))"]
    unfolding length_wire by (simp add: sprintf_4d_def to_string_def Let_def nat_add_distrib max_def)
  have l: "length (snd x) = length (snd y)"
    using less [of x y] less [of y x] arg_cong [OF assms, of length] by (metis linorder_neqE_nat less_irrefl)
  have e: "digit_char (nat (rpc_type_num (fst x))) # snd x = digit_char (nat (rpc_type_num (fst y))) # snd y"
    using assms unfolding wire_def l to_string_type by simp
  then have "atoi [digit_char (nat (rpc_type_num (fst x)))] = atoi [digit_char (nat (rpc_type_num (fst y)))]" by simp
  then have "rpc_type_num (fst x) = rpc_type_num (fst y)" by (simp add: atoi_type)
  then have "fst x = fst y" by (cases "fst x"; cases "fst y") simp_all
  with e show ?thesis by (simp add: prod_eq_iff)
qed

text \<open>The bytes of a positive answer to a vote request, of term \<open>T\<close>.\<close>

definition positive_vote :: "pb \<Rightarrow> int \<Rightarrow> string \<Rightarrow> bool" where
  "positive_vote P T b \<longleftrightarrow> (\<exists>r. b = wire (RESP_VOTE, ser_resp_rv P r) \<and> rrv_ok r \<and> rrv_term r = T)"

lemma positive_vote_wire:
  assumes "pb_law P"
  shows "positive_vote P T (wire (RESP_VOTE, ser_resp_rv P r)) \<longleftrightarrow> rrv_ok r \<and> rrv_term r = T"
    and "ty \<noteq> RESP_VOTE \<Longrightarrow> \<not> positive_vote P T (wire (ty, m))"
proof -
  have "ser_resp_rv P r = ser_resp_rv P r' \<Longrightarrow> r = r'" for r r'
    by (metis assms pb_lawD(5))
  then show "positive_vote P T (wire (RESP_VOTE, ser_resp_rv P r)) \<longleftrightarrow> rrv_ok r \<and> rrv_term r = T"
    by (auto simp: positive_vote_def dest!: wire_determines)
  show "ty \<noteq> RESP_VOTE \<Longrightarrow> \<not> positive_vote P T (wire (ty, m))"
    by (auto simp: positive_vote_def dest!: wire_determines)
qed

text \<open>How many of them were handed to the network between two states.\<close>

definition votes_cast :: "pb \<Rightarrow> int \<Rightarrow> 't RaftServer \<Rightarrow> 't RaftServer \<Rightarrow> nat" where
  "votes_cast P T s t = length (filter (\<lambda>(w, b). positive_vote P T b) (calls (network_m s) (network_m t)))"

lemma votes_cast_sent: "sent s t ms \<Longrightarrow> votes_cast P T s t = length (filter (\<lambda>(w, b). positive_vote P T b) ms)"
  by (simp add: sent_def votes_cast_def)

lemma no_votes_cast:
  assumes "pb_law P" "speaks K s t" "RESP_VOTE \<notin> K"
  shows "votes_cast P T s t = 0"
proof -
  obtain xs where xs: "sent s t (map (\<lambda>(w, x). (w, wire x)) xs)" "\<forall>(w, x) \<in> set xs. fst x \<in> K"
    using assms(2) by (auto simp: speaks_def)
  have "\<not> positive_vote P T (wire x)" if "(w, x) \<in> set xs" for w x
    using bspec [OF xs(2) that] assms(3) positive_vote_wire(2) [OF assms(1), of "fst x" T "snd x"] by fastforce
  then show ?thesis unfolding votes_cast_sent [OF xs(1)] by (auto simp: filter_empty_conv)
qed

section \<open>Every handler\<close>

text \<open>A handler of anything but a vote request sends no answer to one.\<close>

lemma other_handlers_speak:
  assumes "raft_inv P m0 s" "has_room s" "\<And>m peer. ev \<noteq> Incoming REQUEST_VOTE m peer"
  shows "okp (speaks (- {RESP_VOTE}) s) (server_step P A ev s)"
proof (cases ev)
  case (Incoming ty m peer)
  have "okp (speaks (- {RESP_VOTE}) s) (react2ae P A ae s)" for ae
  proof (rule okp_mono [OF react2ae_effect [OF raft_inv_log(1) [OF assms(1)] assms(2) raft_inv_log(5) [OF assms(1)]]])
    fix t assume e: "ae_effect P ae s t"
    have "speaks (- {RESP_VOTE}) s t" if "sent s t [ae_reply P s ae b]" for b
      using that by (intro speaks_one) (auto simp: ae_reply_def)
    with e show "speaks (- {RESP_VOTE}) s t" by (auto simp: ae_effect_def intro: speaks_quiet split: if_splits)
  qed
  moreover have "okp (speaks (- {RESP_VOTE}) s) m" if "okp (\<lambda>t. speaks {APPEND_ENTRY} s t \<and> hears s t) m" for m
    using that by (rule okp_mono) (auto intro: speaks_mono)
  moreover have "okp (speaks (- {RESP_VOTE}) s) m" if "okp (calm {} s) m" for m
    using that by (rule okp_mono) (auto simp: calm_def intro: speaks_mono)
  moreover have "speaks (- {RESP_VOTE}) s s" by (simp add: speaks_quiet sent_same)
  ultimately show ?thesis
    using Incoming assms(3) [of m peer] react2resp_ae_hears [OF assms(1)] react2resp_rv_hears [OF assms(1)] client_calm [OF assms(1)]
    by (simp add: reactToIncomingMsg_def)
next
  case (Timer_event h err)
  have "speaks (- {RESP_VOTE}) s s" by (simp add: speaks_quiet sent_same)
  moreover have "okp (speaks (- {RESP_VOTE}) s) (trans2C P A s)"
    by (rule okp_mono [OF trans2C_calm [OF assms(1)]]) (auto simp: calm_def intro: speaks_mono)
  moreover have "okp (speaks (- {RESP_VOTE}) s) (AE P A v s)" for v
    by (rule okp_mono [OF AE_hears [OF assms(1)]]) (auto intro: speaks_mono)
  moreover have "okp (speaks (- {RESP_VOTE}) s) (RV P A v s)" for v
    by (rule okp_mono [OF RV_calm [OF assms(1)]]) (auto simp: calm_def intro: speaks_mono)
  ultimately have "okp (speaks (- {RESP_VOTE}) s) (timer_handler P A h err s)"
    by (cases h) (simp_all add: run_handler_def trans2F_handler_def trans2C_handler_def AE_retry_handler_def
      RV_retry_handler_def wp split: error_code.splits option.splits)
  with Timer_event show ?thesis by simp
next
  case (Posted p)
  show ?thesis
    unfolding Posted by (rule okp_mono [OF posted_calm [OF assms(1)]]) (auto simp: calm_def intro: speaks_mono)
qed

text \<open>So a vote is cast by a follower that has not voted in the term, and recorded.\<close>

lemma casts_one_vote:
  assumes "pb_law P" "raft_inv P m0 s" "has_room s" "server_step P A ev s = Ok t"
  shows "votes_cast P T s t \<le> 1"
    and "0 < votes_cast P T s t \<Longrightarrow> term_m s \<le> T \<and> (term_m s = T \<longrightarrow> state_m s = follower \<and> \<not> already_voted_m s) \<and>
      term_m t = T \<and> already_voted_m t \<and> state_m t = follower"
proof -
  have "votes_cast P T s t \<le> 1 \<and> (0 < votes_cast P T s t \<longrightarrow> term_m s \<le> T \<and>
      (term_m s = T \<longrightarrow> state_m s = follower \<and> \<not> already_voted_m s) \<and> term_m t = T \<and> already_voted_m t \<and> state_m t = follower)"
  proof (cases "\<exists>m peer. ev = Incoming REQUEST_VOTE m peer")
    case True
    then obtain rv where "react2rv P A rv s = Ok t" using assms(4) by (auto simp: reactToIncomingMsg_def)
    from okpD [OF react2rv_effect [OF raft_inv_log(1,5) [OF assms(2)]] this]
    have e: "vote_effect P rv s t" .
    have p: "positive_vote P T (snd (vote_reply P s rv b)) \<longleftrightarrow> b \<and> max (term_m s) (rv_term rv) = T" for b
      using positive_vote_wire(1) [OF assms(1)] by (simp add: vote_reply_def)
    have "sent s t (vote_replies P s rv)" using e by (simp add: vote_effect_def)
    note v = votes_cast_sent [OF this, of P T]
    show ?thesis
      using e unfolding v by (auto simp: vote_replies_def split_def p grants_def vote_effect_def max_def split: if_splits)
  next
    case False
    then have "speaks (- {RESP_VOTE}) s t" using okpD [OF other_handlers_speak [OF assms(2,3)] assms(4)] by blast
    from no_votes_cast [OF assms(1) this] show ?thesis by simp
  qed
  then show "votes_cast P T s t \<le> 1"
    and "0 < votes_cast P T s t \<Longrightarrow> term_m s \<le> T \<and> (term_m s = T \<longrightarrow> state_m s = follower \<and> \<not> already_voted_m s) \<and>
      term_m t = T \<and> already_voted_m t \<and> state_m t = follower" by blast+
qed

section \<open>Along a run\<close>

text \<open>The votes of term \<open>T\<close> in one element of a run: those sent by its handler, and the one a new candidate counts for
  itself.\<close>

definition ballots_of :: "pb \<Rightarrow> 't asio \<Rightarrow> int \<Rightarrow> event \<times> 't RaftServer \<Rightarrow> nat" where
  "ballots_of P A T = (\<lambda>(ev, s). let t = state_of (server_step P A ev s) in
     votes_cast P T s t + (if term_m s < T \<and> term_m t = T \<and> state_m t = candidate then 1 else 0))"

lemma run_ballots:
  assumes "server_run P A s tr t" "pb_law P" "raft_inv P m0 s" "\<forall>(ev, s) \<in> set tr. \<not> ae_of_term P T ev"
  shows "(\<Sum>x \<leftarrow> tr. ballots_of P A T x) \<le> 1 \<and>
    (0 < (\<Sum>x \<leftarrow> tr. ballots_of P A T x) \<longrightarrow>
       T < term_m t \<or> (term_m t = T \<and> (already_voted_m t \<or> state_m t \<noteq> follower)))"
  using assms(1,4)
proof induction
  case run_start
  then show ?case by simp
next
  case (run_event tr t ev u)
  define n where "n = (\<Sum>x \<leftarrow> tr. ballots_of P A T x)"
  have i: "raft_inv P m0 t" using server_run_inv [OF run_event.hyps(1) assms(3)] .
  have e: "election_step P ev t u" using run_event.hyps(3) by (rule election_stepD)
  have IH: "n \<le> 1" "0 < n \<Longrightarrow> T < term_m t \<or> (term_m t = T \<and> (already_voted_m t \<or> state_m t \<noteq> follower))"
    using run_event by (auto simp: n_def)
  have sum: "(\<Sum>x \<leftarrow> tr @ [(ev, t)]. ballots_of P A T x) = n + ballots_of P A T (ev, t)" by (simp add: n_def)
  note v = casts_one_vote [OF assms(2) i run_event.hyps(2,3), of T]
  have b: "ballots_of P A T (ev, t) = votes_cast P T t u +
      (if term_m t < T \<and> term_m u = T \<and> state_m u = candidate then 1 else 0)"
    using run_event.hyps(3) by (simp add: ballots_of_def)
  have no: "\<not> ae_of_term P T ev" using run_event.prems by simp
  show ?case
  proof (cases "ballots_of P A T (ev, t) = 0")
    case True
    with IH e no show ?thesis unfolding sum by (auto simp: election_step_def)
  next
    case False
    then have "ballots_of P A T (ev, t) = 1 \<and> n = 0 \<and> term_m u = T \<and> (already_voted_m u \<or> state_m u \<noteq> follower)"
      using v IH unfolding b by (auto split: if_splits)
    then show ?thesis unfolding sum by simp
  qed
next
  case (run_background tr t u)
  with background_keeps(1) [OF run_background.hyps(2)] show ?case by (auto simp: vote_frame_def)
qed

text \<open>C10. One vote per term: along any run of one server, however its handlers interleave with the worker threads,
  sockets and the clock, it hands at most one positive answer of term \<open>T\<close> to the network, and none if it stands for
  election in that term, provided it handles no AppendEntries of term \<open>T\<close> in that run. (The next theorem shows
  that the proviso is needed.)\<close>

theorem one_vote_per_term:
  assumes "pb_law P" "raft_inv P m0 s" "server_run P A s tr t" "\<forall>(ev, s) \<in> set tr. \<not> ae_of_term P T ev"
  shows "(\<Sum>x \<leftarrow> tr. ballots_of P A T x) \<le> 1"
  using run_ballots [OF assms(3,1,2,4)] by blast

lemma granted_is_cast:
  assumes "vote_effect codec rv s t" "grants rv s"
  shows "votes_cast codec (max (term_m s) (rv_term rv)) s t = 1"
proof -
  have "sent s t [vote_reply codec s rv True]" using assms by (auto simp: vote_effect_def vote_replies_def grants_def)
  then show ?thesis by (simp add: votes_cast_sent vote_reply_def positive_vote_wire(1) [OF codec_law])
qed

lemma first_grant: "grants (rv_from ''10.0.0.2'' 8002) node1"
  by (simp add: grants_def rv_from_def seen_lsn_def log_acceptable_def node1_facts)

theorem one_vote_per_term_witness:
  "\<exists>t. server_run codec counting_asio node1 [(ask ''10.0.0.2'' 8002, node1)] t \<and> votes_cast codec 1 node1 t = 1 \<and>
     (\<Sum>x \<leftarrow> [(ask ''10.0.0.2'' 8002, node1)]. ballots_of codec counting_asio 1 x) \<le> 1"
proof -
  have "surely (\<lambda>t. vote_effect codec (rv_from ''10.0.0.2'' 8002) node1 t \<and> raft_inv codec [] t)
      (server_step codec counting_asio (ask ''10.0.0.2'' 8002) node1)"
    using node1_inv by (intro ask_step) (simp_all add: node1_facts)
  then obtain t where t: "server_step codec counting_asio (ask ''10.0.0.2'' 8002) node1 = Ok t"
      "vote_effect codec (rv_from ''10.0.0.2'' 8002) node1 t" by (auto dest: surelyD)
  have r: "server_run codec counting_asio node1 [(ask ''10.0.0.2'' 8002, node1)] t"
    using run_event [OF run_start node1_facts(6) t(1)] by simp
  have "\<forall>(ev, s) \<in> set [(ask ''10.0.0.2'' 8002, node1)]. \<not> ae_of_term codec 1 ev" by simp
  from one_vote_per_term [OF codec_law node1_inv r this] r granted_is_cast [OF t(2) first_grant] show ?thesis
    by (auto simp: rv_from_def node1_facts)
qed

text \<open>The proviso is needed: there is a run of a freshly constructed server in which it sends its vote to
  two servers in term 1. Between the two requests it handles a heartbeat of term 1, which runs
  \<open>trans2F\<close> and clears \<open>already_voted_\<close>.\<close>

theorem same_term_heartbeat_frees_the_vote:
  "\<exists>tr u. server_run codec counting_asio node1 tr u \<and>
     map fst tr = [ask ''10.0.0.2'' 8002, beat, ask ''10.0.0.3'' 8003] \<and>
     2 \<le> (\<Sum>x \<leftarrow> tr. ballots_of codec counting_asio 1 x)"
proof -
  have n: "raft_inv codec [] node1" "term_m node1 = 0" "log_of (entries_m node1) = []" "has_room node1"
    "configuration_m node1 = cfg3" "commit_index_m node1 = -1"
    using node1_inv by (simp_all add: node1_eq)
  have "surely (\<lambda>t. vote_effect codec (rv_from ''10.0.0.2'' 8002) node1 t \<and> raft_inv codec [] t)
      (server_step codec counting_asio (ask ''10.0.0.2'' 8002) node1)"
    using n by (intro ask_step) (simp_all add: node1_eq)
  then obtain a where a: "server_step codec counting_asio (ask ''10.0.0.2'' 8002) node1 = Ok a"
    "vote_effect codec (rv_from ''10.0.0.2'' 8002) node1 a" "raft_inv codec [] a" by (auto dest: surelyD)
  have g1: "grants (rv_from ''10.0.0.2'' 8002) node1"
    using n by (simp add: grants_def rv_from_def seen_lsn_def log_acceptable_def)
  have a': "log_frame node1 a" "term_m a = 1" "state_m a = follower"
    "at0 (follower_rpc_lsn_m a) = lsn_after node1 1 (''10.0.0.2'', 8002) 0"
    using a(2) n by (simp_all add: vote_effect_def rv_from_def)
  have "surely (\<lambda>t. ae_effect codec first_heartbeat a t \<and> raft_inv codec [] t)
      (server_step codec counting_asio beat a)"
    using a a' by (intro beat_step)
  then obtain b where b: "server_step codec counting_asio beat a = Ok b"
    "ae_effect codec first_heartbeat a b" "raft_inv codec [] b" by (auto dest: surelyD)
  have "seen_lsn a 1 (''10.0.0.2'', 8002) = 0" and s3: "seen_lsn a 1 (''10.0.0.3'', 8003) = -1"
    using a' n by (simp_all add: seen_lsn_def lsn_after_def)
  then have b': "term_m b = 1" "state_m b = follower" "\<not> already_voted_m b" "accepted first_heartbeat a b"
    "at0 (follower_rpc_lsn_m b) = lsn_after a 1 (''10.0.0.2'', 8002) 1"
    using b(2) a' by (simp_all add: ae_effect_def first_heartbeat_def log_matches_def)
  have log: "log_of (entries_m b) = []" "log_of (entries_m a) = []"
    using b'(4) a'(1) n by (simp_all add: accepted_def log_after_def first_heartbeat_def log_frame_def)
  have g2: "grants (rv_from ''10.0.0.3'' 8003) b"
    using b' s3 log by (simp add: grants_def rv_from_def seen_lsn_def log_acceptable_def lsn_after_def)
  have ab: "ip_m b = ip_m a" "port_m b = port_m a" using b'(4) by (simp_all add: accepted_def)
  moreover have "ip_m a = ''10.0.0.1''" "port_m a = 8001" using a'(1) by (simp_all add: log_frame_def node1_eq)
  ultimately have "surely (\<lambda>t. vote_effect codec (rv_from ''10.0.0.3'' 8003) b t \<and> raft_inv codec [] t)
      (server_step codec counting_asio (ask ''10.0.0.3'' 8003) b)"
    using b(3) b' by (intro ask_step) simp_all
  then obtain c where c: "server_step codec counting_asio (ask ''10.0.0.3'' 8003) b = Ok c"
    "vote_effect codec (rv_from ''10.0.0.3'' 8003) b c" by (auto dest: surelyD)
  have room: "has_room a" "has_room b"
    using log a(3) b(3) entries.size_log [of "entries_m a"] entries.size_log [of "entries_m b"]
    by (simp_all add: raft_inv_def log_inv_def entries_room_def Entries_size_def)
  let ?tr = "[(ask ''10.0.0.2'' 8002, node1), (beat, a), (ask ''10.0.0.3'' 8003, b)]"
  have "server_run codec counting_asio node1 ?tr c"
    using run_event [OF run_event [OF run_event [OF run_start n(4) a(1)] room(1) b(1)] room(2) c(1)] by simp
  moreover have "votes_cast codec 1 node1 a = 1" "votes_cast codec 1 b c = 1"
    using granted_is_cast [OF a(2) g1] granted_is_cast [OF c(2) g2] n b' by (simp_all add: rv_from_def)
  then have "2 \<le> (\<Sum>x \<leftarrow> ?tr. ballots_of codec counting_asio 1 x)"
    using a(1) c(1) by (simp add: ballots_of_def)
  ultimately show ?thesis by (intro exI [of _ ?tr] exI [of _ c]) simp
qed

end
