(* ===== verification/Raft_First_Entry.thy ===== *)
theory Raft_First_Entry
  imports Raft_Votes
begin

text \<open>
  A run of the three-server cluster of \<open>Raft_Split\<close> in which the protocol does its work: the second server is
  elected by the vote of the first, takes a command, and brings it to the first server with its retry timer. Its states
  are the witnesses of the properties of whole clusters.
\<close>

section \<open>Sequence numbers of a new primary\<close>

lemma trans2P_lsn:
  assumes "rpc_inv (network_m s)" "distinct (configuration_m s)"
  shows "okp (\<lambda>t. \<forall>v \<in> set (others s). at0 (current_rpc_lsn_m t) v = at0 (current_rpc_lsn_m s) v + 1) (trans2P P A s)"
proof -
  let ?s = "primary_state A s"
  have p: "network_m ?s = network_m s" "configuration_m ?s = configuration_m s" "port_m ?s = port_m s"
    "current_rpc_lsn_m ?s = current_rpc_lsn_m s"
    by (simp_all add: primary_state_def cancel_all_timers_def)
  have "okp (\<lambda>u. rpc_inv (network_m u) \<and> port_m u = port_m t \<and>
        at0 (current_rpc_lsn_m u) = (at0 (current_rpc_lsn_m t))(v := at0 (current_rpc_lsn_m t) v + 1)) (AE P A v t)"
    if "rpc_inv (network_m t)" for v t
    using conjI [OF frame_AE [of t P A v] conjI [OF AE_sends [OF that, of v P A] AE_lsn [OF that, of v P A], folded okp_conj], folded okp_conj]
    by (rule okp_mono) (use that in \<open>auto simp: log_frame_def fun_eq_iff\<close>)
  then have "okp (\<lambda>u. at0 (current_rpc_lsn_m u) = (\<lambda>w. at0 (current_rpc_lsn_m ?s) w +
      (if w \<in> set (configuration_m ?s) \<and> port_of w \<noteq> port_m ?s then 1 else 0))) (for_others (AE P A) ?s)"
    unfolding for_others_def using assms p by (intro for_each_lsn) simp_all
  then show ?thesis unfolding trans2P_eq by (rule okp_mono) (auto simp: p)
qed

section \<open>The primary\<close>

lemma server3_server: "server_m (started3 v) = v"
  by (simp add: started3_def server3_eq)

lemma win_B:
  assumes "stands srvB s"
  shows "surely (\<lambda>t. raft_inv codec [] t \<and> state_m t = primary \<and> term_m t = 1 \<and> entries_m t = empty_log \<and>
      commit_index_m t = -1 \<and> configuration_m t = cfg3 \<and> addr_of t = srvB \<and>
      at0 (nextIndex_m t) srvA = 0 \<and> at0 (current_rpc_lsn_m t) srvA = 2 \<and> server_m t = srvB \<and>
      at0 (Follower_saved_index_m t) srvB = -1 \<and> sent s t (map (\<lambda>w. (w, wire (APPEND_ENTRY, ser_ae codec (heartbeat_from srvB)))) (others (started3 srvB))))
    (react2resp_rv codec counting_asio yes_from_A s)"
proof -
  let ?x = "s\<lparr>current_rpc_lsn_m := touch srvA (current_rpc_lsn_m s), winned_votes_m := 2\<rparr>"
  have f: "log_frame (started3 srvB) s" "raft_inv codec [] s" and
    k: "term_m s = 1" "state_m s = candidate" "winned_votes_m s = 1" "at0 (current_rpc_lsn_m s) srvA = 1"
    using assms by (simp_all add: stands_def)
  then have e: "entries_m s = empty_log" "configuration_m s = cfg3" "majority_m s = 2" "commit_index_m s = -1"
    "ip_m s = ''10.0.0.2''" "port_m s = 8002" "server_m s = srvB"
    by (simp_all add: log_frame_def started3_facts server3_server)
  have eq: "react2resp_rv codec counting_asio yes_from_A s = trans2P codec counting_asio ?x"
    using k e(3) by (simp add: react2resp_rv_def candidate_deal_resp_rv_with_same_term_def yes_from_A_def Let_def)
  have c: "rpc_inv (network_m ?x)" "distinct (configuration_m ?x)"
    using f(2) by (simp_all add: raft_inv_def conf_inv_def)
  have fr: "okp (frame (primary_state counting_asio ?x)) (trans2P codec counting_asio ?x)"
    unfolding trans2P_eq by (intro frame_for_others frame_AE)
  have inv: "okp (raft_inv codec []) (trans2P codec counting_asio ?x)"
    using react2resp_inv(2) [OF f(2)] eq by metis
  obtain t where t: "react2resp_rv codec counting_asio yes_from_A s = Ok t" "state_m t = primary" "term_m t = 1"
    "sent s t (map (\<lambda>w. (w, wire (APPEND_ENTRY, ser_ae codec (heartbeat_from srvB)))) (others (started3 srvB)))"
    using surelyD [OF win3 [OF _ assms]] by blast
  have "raft_inv codec [] t" "frame (primary_state counting_asio ?x) t"
    "\<forall>v \<in> set (others ?x). at0 (current_rpc_lsn_m t) v = at0 (current_rpc_lsn_m ?x) v + 1"
    using okpD [OF inv] okpD [OF fr] okpD [OF trans2P_lsn [OF c, of codec counting_asio]] t(1) unfolding eq by blast+
  then show ?thesis
    using t k(4) e by (simp add: log_frame_def vote_frame_def primary_state_def cancel_all_timers_def at0_put_all)
qed

text \<open>What is needed of the primary: its log \<open>xs\<close>, that it has not got an answer from the first server yet, and the
  number of its next message to it.\<close>

definition heads :: "int \<Rightarrow> rpc_Entry list \<Rightarrow> (handler list \<times> bool) RaftServer \<Rightarrow> bool" where
  "heads n xs t \<longleftrightarrow> raft_inv codec [] t \<and> state_m t = primary \<and> term_m t = 1 \<and> log_of (entries_m t) = xs \<and>
     commit_index_m t = -1 \<and> configuration_m t = cfg3 \<and> ip_m t = ''10.0.0.2'' \<and> port_m t = 8002 \<and>
     at0 (nextIndex_m t) srvA = 0 \<and> at0 (current_rpc_lsn_m t) srvA = n \<and> server_m t = srvB \<and>
     at0 (Follower_saved_index_m t) srvB = int (length xs) - 1"

definition first_entry :: rpc_Entry where
  "first_entry = \<lparr>en_term = 1, en_index = 0, en_msg = ''x=1''\<rparr>"

definition first_ae :: AppendEntryRpc where
  "first_ae = \<lparr>ae_term = 1, ae_prelog_term = -1, ae_commit_index = -1, ae_lsn = 2, ae_ip = ''10.0.0.2'', ae_port = 8002,
     ae_entry = [first_entry], ae_prelog_index = -1\<rparr>"

abbreviation "command \<equiv> Incoming CLIENT_APPLY ''x=1'' (''127.0.0.1'', 50000)"

lemma take_command:
  assumes "heads 2 [] s" "entries_m s = empty_log"
  shows "surely (\<lambda>t. heads 2 [first_entry] t \<and> sent s t []) (server_step codec counting_asio command s)"
proof -
  have i: "raft_inv codec [] s" and e: "entries_inv (entries_m s)" "has_room s" "\<not> wr_fails (data_m (entries_m s))"
    using assms by (simp_all add: heads_def) (simp add: empty_log_def)
  obtain t where t: "append_client_apply_to_entries codec (''127.0.0.1'', 50000) ''x=1'' s = Ok t"
    "\<exists>es. log_of es = log_of (entries_m s) @ [\<lparr>en_term = term_m s, en_index = Entries_size (entries_m s), en_msg = ''x=1''\<rparr>] \<and>
      t = s\<lparr>entries_m := es,
            entryIndex_to_socketAddr_map_m := put (Entries_size (entries_m s)) (''127.0.0.1'', 50000) (entryIndex_to_socketAddr_map_m s),
            Follower_saved_index_m := put (server_m s) (Entries_size (entries_m s)) (Follower_saved_index_m s)\<rparr>"
    using surelyD [OF append_client_total [OF e, of "''x=1''" "(''127.0.0.1'', 50000)" codec]] by blast
  have "raft_inv codec [] t" using okpD [OF append_client_inv [OF i e(2)] t(1)] .
  then show ?thesis using t assms by (auto simp: heads_def first_entry_def reactToIncomingMsg_def sent_same)
qed

text \<open>Time passes: no retry timer has a wait pending any more.\<close>

definition timers_run :: "(handler list \<times> bool) RaftServer \<Rightarrow> (handler list \<times> bool) RaftServer" where
  "timers_run s = s\<lparr>candidate_timer_m := candidate_timer_m s, retry_timers_m := map (\<lambda>(v, t). (v, ([], False))) (retry_timers_m s)\<rparr>"

lemma timers_run_clock: "background P s (timers_run s)"
proof -
  have "keys (map (\<lambda>(v, t). (v, ([], False))) m) = keys m" for m :: "(endpoint \<times> handler list \<times> bool) list"
    by (simp add: keys_def image_image case_prod_beta)
  from clock [OF this] show ?thesis unfolding timers_run_def .
qed

lemma timers_run_heads: "heads n xs s \<Longrightarrow> heads n xs (timers_run s)"
  using background_inv [OF _ timers_run_clock [of codec s], of "[]"] by (auto simp: heads_def timers_run_def)

lemma first_ae_length: "length (ser_ae codec first_ae) < 5120"
  using length_small_int [of "-1"] length_small_int [of 0] length_small_int [of 1] length_small_int [of 2] length_small_int [of 8002]
  by (simp add: first_ae_def first_entry_def codec_def enc_ae_def enc_list_def enc_entry_def length_enc_str)

lemma first_log_fits:
  assumes h: "heads m [first_entry] s" and "0 \<le> n" "n \<le> 1" "-1 \<le> c" "c < 1" and m: "0 \<le> m" "m < 10"
  shows "length (ser_ae codec (ae_at s srvA n c)) < 5120"
proof -
  have f: "log_of (entries_m s) = [first_entry]" "term_m s = 1" "ip_m s = ''10.0.0.2''" "port_m s = 8002"
    "at0 (current_rpc_lsn_m s) srvA = m" "Entries_size (entries_m s) = 1"
    using h entries.size_log [OF raft_inv_log(1), of codec "[]" s] by (simp_all add: heads_def)
  have "length (enc_entry first_entry) \<le> 27" using length_small_int [of 0] length_small_int [of 1]
    by (simp add: enc_entry_def first_entry_def length_enc_str)
  moreover have "n = 0 \<or> n = 1" using assms(2,3) by auto
  ultimately show ?thesis
    using f assms(4,5) m length_small_int [of "-1"] length_small_int [of 0] length_small_int [of c] length_small_int [of 1]
      length_small_int [of m] length_small_int [of 8002]
    by (elim disjE) (simp_all add: ae_at_def codec_def enc_ae_def enc_list_def length_enc_str, simp add: first_entry_def)
qed

lemma retry_sends:
  assumes h: "heads 2 [first_entry] s" and t: "map_of (retry_timers_m s) srvA = Some ([], False)"
  shows "surely (\<lambda>t. heads 3 [first_entry] t \<and> sent s t [(srvA, wire (APPEND_ENTRY, ser_ae codec first_ae))])
    (server_step codec counting_asio (Timer_event (AE_handler srvA) No_error) s)"
proof -
  have i: "raft_inv codec [] s" and f: "state_m s = primary" "log_of (entries_m s) = [first_entry]" "term_m s = 1" "commit_index_m s = -1"
    "ip_m s = ''10.0.0.2''" "port_m s = 8002" "at0 (nextIndex_m s) srvA = 0" "at0 (current_rpc_lsn_m s) srvA = 2" "configuration_m s = cfg3"
    using h by (simp_all add: heads_def)
  note l = raft_inv_log [OF i]
  have z: "Entries_size (entries_m s) = 1" using entries.size_log [OF l(1)] f(2) by simp
  have at: "ae_at s srvA 0 (-1) = first_ae"
    using f z by (simp add: ae_at_def first_ae_def)
  have fit: "length (ser_ae codec (ae_at s srvA n c)) < 9999" if "0 \<le> n" "n \<le> 1" "-1 \<le> c" "c < 1" for n c
    using first_log_fits [OF h that] by simp
  have "srvA \<in> keys (retry_timers_m s)" using t by (simp add: keys_iff_map_of)
  then have "can_send codec counting_asio s srvA"
    using l(1) fit f z by (simp add: can_send_def ae_fits_def counting_asio_def)
  then have "surely (\<lambda>t. True) (AE codec counting_asio srvA s)"
    by (rule AE_total [OF _ counting_asio_law t]) simp
  then obtain t' where t': "AE codec counting_asio srvA s = Ok t'" by (auto dest: surelyD)
  have "fst (build_rpc_ae srvA s) = Inr first_ae"
    using build_rpc_ae_spec [OF l(1) refl, of srvA] f z at by (simp add: ae_at_def)
  then have "ae_to s srvA = first_ae" by (simp add: ae_to_def)
  then have "sent s t' [(srvA, wire (APPEND_ENTRY, ser_ae codec first_ae))]" "frame s t'" "raft_inv codec [] t'"
    "at0 (current_rpc_lsn_m t') srvA = 3"
    using okpD [OF AE_sends [OF l(5)] t'] okpD [OF frame_AE t'] okpD [OF AE_inv [OF i] t'] okpD [OF AE_lsn [OF l(5)] t'] f
    by simp_all
  then show ?thesis
    using t' t h by (simp add: AE_retry_handler_def counting_asio_def log_frame_def vote_frame_def heads_def)
qed

section \<open>The member\<close>

text \<open>The first server when it has the entry, and its answer.\<close>

definition took :: "(handler list \<times> bool) RaftServer \<Rightarrow> bool" where
  "took t \<longleftrightarrow> raft_inv codec [] t \<and> state_m t = follower \<and> term_m t = 1 \<and> log_of (entries_m t) = [first_entry] \<and>
     configuration_m t = cfg3 \<and> ip_m t = ''10.0.0.1'' \<and> port_m t = 8001"

definition ack_A :: Resp_AppendEntryRpc where
  "ack_A = \<lparr>rae_ok = True, rae_term = 1, rae_lsn = 2, rae_ip = ''10.0.0.1'', rae_port = 8001, rae_is_empty_ae = False\<rparr>"

lemma ack_length: "length (ser_resp_ae codec ack_A) < 5120"
  using length_small_int [of 1] length_small_int [of 2] length_small_int [of 8001]
  by (simp add: ack_A_def codec_def enc_resp_ae_def length_enc_bool length_enc_str)

lemma member_takes:
  assumes i: "raft_inv codec [] a" and f: "log_frame (started3 srvA) a" "term_m a = 1" "state_m a = follower"
    "at0 (follower_rpc_lsn_m a) = lsn_after (started3 srvA) 1 srvB 0"
  shows "surely (\<lambda>t. took t \<and> sent a t [(srvB, wire (RESP_APPEND, ser_resp_ae codec ack_A))])
    (react2ae codec counting_asio first_ae a)"
proof -
  have k: "ip_m a = ''10.0.0.1''" "port_m a = 8001" "entries_m a = empty_log" "configuration_m a = cfg3" "commit_index_m a = -1"
    using f(1) by (simp_all add: log_frame_def started3_facts)
  have len: "length (ser_resp_ae codec \<lparr>rae_ok = b, rae_term = 1, rae_lsn = 2, rae_ip = ''10.0.0.1'', rae_port = 8001,
      rae_is_empty_ae = False\<rparr>) < 5120" for b
    using length_small_int [of 1] length_small_int [of 2] length_small_int [of 8001]
    by (simp add: codec_def enc_resp_ae_def length_enc_bool length_enc_str)
  have "surely (\<lambda>t. True) (react2ae codec counting_asio first_ae a)"
  proof (rule react2ae_total [OF i _ counting_asio_law])
    show "ae_safe first_ae a" using k by (simp add: ae_safe_def first_ae_def log_after_def)
    show "reply_fits codec first_ae a"
      unfolding reply_fits_def using len k f(2) less_trans [OF len, of 9999] by (simp add: first_ae_def)
  qed (use k f(3) in \<open>simp_all add: ae_wf_def first_ae_def first_entry_def counting_asio_def empty_log_def\<close>, simp add: empty_log_def [symmetric])
  then obtain t where t: "react2ae codec counting_asio first_ae a = Ok t" by (auto dest: surelyD)
  have "ae_effect codec first_ae a t"
    using okpD [OF react2ae_effect t] raft_inv_log [OF i] k by simp
  moreover have "seen_lsn a 1 srvB = 0" using f by (simp add: seen_lsn_def lsn_after_def started3_facts)
  ultimately have "state_m t = follower" "sent a t [ae_reply codec a first_ae True]" "log_of (entries_m t) = [first_entry]"
    using f(2) k by (simp_all add: ae_effect_def first_ae_def log_matches_def accepted_def log_after_def)
  moreover have "raft_inv codec [] t" using okpD [OF react2ae_inv [OF i] t] k by simp
  ultimately show ?thesis
    using t k f(2) \<open>ae_effect codec first_ae a t\<close> \<open>seen_lsn a 1 srvB = 0\<close>
    by (simp add: ae_reply_def first_ae_def took_def ack_A_def ae_effect_def accepted_def log_matches_def)
qed

section \<open>The run\<close>

definition three :: "(handler list \<times> bool) RaftServer \<Rightarrow> (handler list \<times> bool) RaftServer \<Rightarrow> (handler list \<times> bool) RaftServer \<Rightarrow>
    endpoint \<Rightarrow> (handler list \<times> bool) RaftServer" where
  "three a b c = server3(srvA := a, srvB := b, srvC := c)"

lemma three_simps [simp]:
  "three a b c srvA = a" "three a b c srvB = b" "three a b c srvC = c"
  "(three a b c)(srvA := x) = three x b c" "(three a b c)(srvB := x) = three a x c" "(three a b c)(srvC := x) = three a b x"
  by (simp_all add: three_def fun_eq_iff)

definition fits :: "string \<Rightarrow> bool" where
  "fits b \<longleftrightarrow> (\<exists>x. b = wire x \<and> wire_fits x)"

lemma fits_short: "fits b \<Longrightarrow> length b < 5125"
  by (auto simp: fits_def wire_fits_def wire_def length_sprintf_4d to_string_type)

lemma fits3:
  "fits (canvass srvB)" "fits (wire (APPEND_ENTRY, ser_ae codec (heartbeat_from srvB)))"
  "fits (wire (RESP_VOTE, ser_resp_rv codec yes_from_A))" "fits (wire (APPEND_ENTRY, ser_ae codec first_ae))"
  "length (ser_resp_ae codec r) < 5120 \<Longrightarrow> fits (wire (RESP_APPEND, ser_resp_ae codec r))"
  unfolding fits_def wire_fits_def
  using rv_from_length [of srvB] heartbeat_from_length [of srvB] answer_length first_ae_length by force+

text \<open>The moves by which all three servers start and the second one is elected.\<close>

abbreviation "move3 \<equiv> cluster_move codec counting_asio [] cfg3"
abbreviation "first_beat \<equiv> wire (APPEND_ENTRY, ser_ae codec (heartbeat_from srvB))"
abbreviation "yes_A \<equiv> wire (RESP_VOTE, ser_resp_rv codec yes_from_A)"

lemma start3:
  "move3 None (three (server3 srvA) b c, []) (three (started3 srvA) b c, [])"
  "move3 None (three a (server3 srvB) c, []) (three a (started3 srvB) c, [])"
  "move3 None (three a b (server3 srvC), []) (three a b (started3 srvC), [])"
proof -
  show "move3 None (three (server3 srvA) b c, []) (three (started3 srvA) b c, [])"
    using start [of srvA cfg3 counting_asio "three (server3 srvA) b c" "started3 srvA"] by (simp add: run3)
  show "move3 None (three a (server3 srvB) c, []) (three a (started3 srvB) c, [])"
    using start [of srvB cfg3 counting_asio "three a (server3 srvB) c" "started3 srvB"] by (simp add: run3)
  show "move3 None (three a b (server3 srvC), []) (three a b (started3 srvC), [])"
    using start [of srvC cfg3 counting_asio "three a b (server3 srvC)" "started3 srvC"] by (simp add: run3)
qed

lemma moves3:
  "\<not> from_network ev \<Longrightarrow> has_room b \<Longrightarrow> server_step codec counting_asio ev b = Ok t \<Longrightarrow> sent b t ms \<Longrightarrow>
     move3 (Some (srvB, ev)) (three a b c, net) (three a t c, net @ outgoing srvB ms)"
  "next_message v srvA m net rest \<Longrightarrow> handles codec counting_asio [] m a t \<Longrightarrow> sent a t ms \<Longrightarrow>
     move3 None (three a b c, net) (three t b c, rest @ outgoing srvA ms)"
  "next_message v srvB m net rest \<Longrightarrow> handles codec counting_asio [] m b t \<Longrightarrow> sent b t ms \<Longrightarrow>
     move3 None (three a b c, net) (three a t c, rest @ outgoing srvB ms)"
  using local_event [where w = srvB and cfg = cfg3 and \<sigma> = "three a b c" and P = codec and A = counting_asio and ev = ev and t = t and ms = ms and net = net and junk = "[]"]
    receive [where w = srvA and cfg = cfg3 and \<sigma> = "three a b c" and P = codec and A = counting_asio and junk = "[]" and v = v and b = m and t = t and ms = ms and net = net and rest = rest]
    receive [where w = srvB and cfg = cfg3 and \<sigma> = "three a b c" and P = codec and A = counting_asio and junk = "[]" and v = v and b = m and t = t and ms = ms and net = net and rest = rest]
  by simp_all

lemma election3:
  obtains a b1 b2 where
    "move3 (Some (srvB, Timer_event Run_handler No_error)) (three (started3 srvA) (started3 srvB) c, [])
       (three (started3 srvA) b1 c, [(srvB, srvA, canvass srvB), (srvB, srvC, canvass srvB)])"
    "move3 None (three (started3 srvA) b1 c, [(srvB, srvA, canvass srvB), (srvB, srvC, canvass srvB)])
       (three a b1 c, [(srvB, srvC, canvass srvB), (srvA, srvB, yes_A)])"
    "move3 None (three a b1 c, [(srvB, srvC, canvass srvB), (srvA, srvB, yes_A)])
       (three a b2 c, [(srvB, srvC, canvass srvB), (srvB, srvA, first_beat), (srvB, srvC, first_beat)])"
    "stands srvB b1" "raft_inv codec [] a" "log_frame (started3 srvA) a" "term_m a = 1" "state_m a = follower"
    "at0 (follower_rpc_lsn_m a) = lsn_after (started3 srvA) 1 srvB 0" "heads 2 [] b2" "entries_m b2 = empty_log"
proof -
  let ?A = "started3 srvA" and ?B = "started3 srvB"
  have cl: "clean []" by (simp add: clean_def)
  obtain b1 where b1: "server_step codec counting_asio (Timer_event Run_handler No_error) ?B = Ok b1" "stands srvB b1"
    "sent ?B b1 [(srvA, canvass srvB), (srvC, canvass srvB)]"
    using surelyD [OF stand3 [of srvB]] by (auto simp: started3_facts)
  obtain a1 where a1: "react2rv codec counting_asio (rv_from ''10.0.0.2'' 8002) ?A = Ok a1" "raft_inv codec [] a1"
    "log_frame ?A a1" "term_m a1 = 1" "state_m a1 = follower" "at0 (follower_rpc_lsn_m a1) = lsn_after ?A 1 srvB 0"
    "sent ?A a1 [(srvB, yes_A)]"
    using vote_for_B by blast
  obtain b2 where b2: "react2resp_rv codec counting_asio yes_from_A b1 = Ok b2" "heads 2 [] b2" "entries_m b2 = empty_log"
    "sent b1 b2 [(srvA, first_beat), (srvC, first_beat)]"
    using surelyD [OF win_B [OF b1(2)]] by (auto simp: started3_facts heads_def)
  have room: "has_room ?A" "has_room ?B" "has_room b1"
    using b1(2) by (simp_all add: stands_def log_frame_def started3_facts)
  have rv: "handles codec counting_asio [] (canvass srvB) ?A a1"
    using a1(1) room(1) recv_wire [of "(REQUEST_VOTE, ser_rv codec (rv_from ''10.0.0.2'' 8002))", OF _ cl] rv_from_length [of srvB] codec_law
    by (simp add: handles_def wire_fits_def reactToIncomingMsg_def)
  have yes: "handles codec counting_asio [] yes_A b1 b2"
    using b2(1) room(3) recv_wire [of "(RESP_VOTE, ser_resp_rv codec yes_from_A)", OF _ cl] answer_length codec_law
    by (simp add: handles_def wire_fits_def reactToIncomingMsg_def)
  have m1: "move3 (Some (srvB, Timer_event Run_handler No_error)) (three ?A ?B c, [])
      (three ?A b1 c, [(srvB, srvA, canvass srvB), (srvB, srvC, canvass srvB)])"
    using moves3(1) [OF _ room(2) b1(1,3), where net = "[]"] by (simp add: outgoing_def)
  have m2: "move3 None (three ?A b1 c, [(srvB, srvA, canvass srvB), (srvB, srvC, canvass srvB)])
      (three a1 b1 c, [(srvB, srvC, canvass srvB), (srvA, srvB, yes_A)])"
    using moves3(2) [OF next_first [where ys = "[(srvB, srvC, canvass srvB)]"] rv a1(7)] by (simp add: outgoing_def)
  have n: "next_message srvA srvB yes_A [(srvB, srvC, canvass srvB), (srvA, srvB, yes_A)] [(srvB, srvC, canvass srvB)]"
    by (intro next_intros) simp
  have m3: "move3 None (three a1 b1 c, [(srvB, srvC, canvass srvB), (srvA, srvB, yes_A)])
      (three a1 b2 c, [(srvB, srvC, canvass srvB), (srvB, srvA, first_beat), (srvB, srvC, first_beat)])"
    using moves3(3) [OF n yes b2(4)] by (simp add: outgoing_def)
  show ?thesis by (rule that [OF m1 m2 m3 b1(2) a1(2-6) b2(2,3)])
qed

lemma votes3:
  "vote_in codec (canvass srvB) = None" "vote_in codec first_beat = None" "vote_in codec yes_A = Some 1"
  "vote_in codec (wire (APPEND_ENTRY, ser_ae codec first_ae)) = None"
  "length (ser_resp_ae codec r) < 5120 \<Longrightarrow> vote_in codec (wire (RESP_APPEND, ser_resp_ae codec r)) = None"
proof -
  have w: "wire_fits (REQUEST_VOTE, ser_rv codec (rv_from (ip_of srvB) (port_of srvB)))"
    "wire_fits (APPEND_ENTRY, ser_ae codec (heartbeat_from srvB))" "wire_fits (RESP_VOTE, ser_resp_rv codec yes_from_A)" "wire_fits (APPEND_ENTRY, ser_ae codec first_ae)"
    using first_ae_length rv_from_length [of srvB] heartbeat_from_length [of srvB] answer_length by (simp_all add: wire_fits_def)
  show "vote_in codec (canvass srvB) = None" "vote_in codec first_beat = None" "vote_in codec yes_A = Some 1"
    "vote_in codec (wire (APPEND_ENTRY, ser_ae codec first_ae)) = None"
    using w codec_law by (simp_all add: vote_in_wire yes_from_A_def)
  show "length (ser_resp_ae codec r) < 5120 \<Longrightarrow> vote_in codec (wire (RESP_APPEND, ser_resp_ae codec r)) = None"
    by (simp add: vote_in_wire wire_fits_def)
qed

lemma image_filter3:
  "f ` {w \<in> set [x, y, z]. Q w} = (if Q x then {f x} else {}) \<union> (if Q y then {f y} else {}) \<union> (if Q z then {f z} else {})"
  by auto

lemma cast3:
  "cast_now codec cfg3 (three a b c, net) (three a' b' c', net') =
     (set (flying codec net') - set (flying codec net)) \<union>
     (if state_m a' = candidate \<and> term_m a < term_m a' then {(srvA, term_m a', srvA)} else {}) \<union>
     (if state_m b' = candidate \<and> term_m b < term_m b' then {(srvB, term_m b', srvB)} else {}) \<union>
     (if state_m c' = candidate \<and> term_m c < term_m c' then {(srvC, term_m c', srvC)} else {})"
  unfolding cast_now_def fst_conv snd_conv image_filter3 three_simps by (simp only: Un_assoc)

lemma vote_onceI:
  "flying P net = F \<Longrightarrow> distinct F \<Longrightarrow> C \<inter> B = {} \<Longrightarrow>
   \<forall>w T c c'. (w, T, c) \<in> B \<union> C \<longrightarrow> (w, T, c') \<in> B \<union> C \<longrightarrow> c = c' \<Longrightarrow> vote_once P (\<sigma>, net) B C"
  by (simp add: vote_once_def)

definition single :: "ballot set \<Rightarrow> bool" where
  "single B \<longleftrightarrow> (\<forall>w T c c'. (w, T, c) \<in> B \<longrightarrow> (w, T, c') \<in> B \<longrightarrow> c = c')"

abbreviation safe_reach :: "(handler list \<times> bool) cluster \<times> ballot set \<Rightarrow> bool" where
  "safe_reach \<equiv> reachable (safe_init counting_asio [] cfg3) (safe_step codec counting_asio [] cfg3)"

lemma onward:
  assumes "safe_reach ((three a b c, net), B)" "move3 l (three a b c, net) (three a' b' c', net')"
    and "case l of None \<Rightarrow> True | Some (w, ev) \<Rightarrow> orderly counting_asio ev (three a b c w)"
    and "\<And>v w b. (v, w, b) \<in> set net' \<Longrightarrow> fits b"
    and "cast_now codec cfg3 (three a b c, net) (three a' b' c', net') = C" "vote_once codec (three a' b' c', net') B C"
  shows "safe_reach ((three a' b' c', net'), B \<union> C)"
proof (rule reachable_step [OF assms(1)])
  have "short_messages (three a' b' c', net')" using assms(4) fits_short by (fastforce simp: short_messages_def)
  then have "ballot_step codec counting_asio [] cfg3 ((three a b c, net), B) ((three a' b' c', net'), B \<union> C)"
    using assms(2,5,6) by (auto simp: ballot_step_def intro: cluster_stepI)
  then show "safe_step codec counting_asio [] cfg3 ((three a b c, net), B) ((three a' b' c', net'), B \<union> C)"
    using assms(2,3) unfolding safe_step_def fst_conv by blast
qed

text \<open>A step after which nobody is a candidate and no vote is on its way casts no ballot.\<close>

lemma quiet:
  assumes "safe_reach ((three a b c, net), B)" "move3 l (three a b c, net) (\<sigma>, net')" "\<sigma> = three a' b' c'"
    and "case l of None \<Rightarrow> True | Some (w, ev) \<Rightarrow> orderly counting_asio ev (three a b c w)"
    and "state_m a' \<noteq> candidate" "state_m b' \<noteq> candidate" "state_m c' \<noteq> candidate"
    and "\<And>v w b. (v, w, b) \<in> set net' \<Longrightarrow> fits b" "flying codec net' = []" "single B"
  shows "safe_reach ((three a' b' c', net'), B)"
proof -
  have "cast_now codec cfg3 (three a b c, net) (three a' b' c', net') = {}"
    unfolding cast3 assms(9) using assms(5-7) by simp
  moreover have "vote_once codec (three a' b' c', net') B {}"
    by (rule vote_onceI [OF assms(9)]) (use assms(10) in \<open>auto simp: single_def\<close>)
  ultimately have "safe_reach ((three a' b' c', net'), B \<union> {})"
    using assms(2,3) by (intro onward [OF assms(1) _ assms(4,8)]) simp_all
  then show ?thesis by simp
qed

lemma follower3: "state_m (started3 v) = follower" "state_m (server3 v) = follower" "term_m (started3 v) = 0"
  by (simp_all add: started3_facts) (simp_all add: server3_eq)

lemma started_run: "safe_reach ((three (started3 srvA) (started3 srvB) (started3 srvC), []), {})"
proof -
  note fo = follower3
  have "safe_init counting_asio [] cfg3 ((server3, []), {})"
    using cluster3_init by (simp add: safe_init_def fresh_init_def) (simp add: server3_eq)
  then have "safe_reach ((three (server3 srvA) (server3 srvB) (server3 srvC), []), {})"
    by (simp add: three_def reachable_init)
  then have "safe_reach ((three (started3 srvA) (server3 srvB) (server3 srvC), []), {})"
    by (rule quiet [OF _ start3(1) refl]) (simp_all add: fo flying_simps single_def)
  then have "safe_reach ((three (started3 srvA) (started3 srvB) (server3 srvC), []), {})" by (rule quiet [OF _ start3(2) refl]) (simp_all add: fo flying_simps single_def)
  then show ?thesis by (rule quiet [OF _ start3(3) refl]) (simp_all add: fo flying_simps single_def)
qed

text \<open>The second server is elected in a safe run; its heartbeat to the first server is lost.\<close>

abbreviation two_ballots :: "ballot set" where
  "two_ballots \<equiv> {(srvA, 1, srvB), (srvB, 1, srvB)}"

lemma elected_run:
  obtains a b where "safe_reach ((three a b (started3 srvC), [(srvB, srvC, canvass srvB), (srvB, srvC, first_beat)]), two_ballots)"
    "raft_inv codec [] a" "log_frame (started3 srvA) a" "term_m a = 1" "state_m a = follower"
    "at0 (follower_rpc_lsn_m a) = lsn_after (started3 srvA) 1 srvB 0"
    "heads 2 [] b" "entries_m b = empty_log"
proof -
  let ?A = "started3 srvA" and ?B = "started3 srvB" and ?C = "started3 srvC"
  let ?n1 = "[(srvB, srvA, canvass srvB), (srvB, srvC, canvass srvB)]"
  let ?n2 = "[(srvB, srvC, canvass srvB), (srvA, srvB, yes_A)]"
  let ?n3 = "[(srvB, srvC, canvass srvB), (srvB, srvA, first_beat), (srvB, srvC, first_beat)]"
  let ?n4 = "[(srvB, srvC, canvass srvB), (srvB, srvC, first_beat)]"
  note fit = fits3(1-4)
  note fo = follower3
  have fl: "flying codec ?n1 = []" "flying codec ?n2 = [(srvA, 1, srvB)]" "flying codec ?n3 = []"
    "flying codec ?n4 = []"
    by (simp_all only: flying_simps votes3 option.case append_Nil append_Nil2)
  have si: "single two_ballots" by (auto simp: single_def)
  obtain a b1 b2 where mv: "move3 (Some (srvB, Timer_event Run_handler No_error)) (three ?A ?B ?C, []) (three ?A b1 ?C, ?n1)"
    "move3 None (three ?A b1 ?C, ?n1) (three a b1 ?C, ?n2)" "move3 None (three a b1 ?C, ?n2) (three a b2 ?C, ?n3)"
    and b1: "stands srvB b1"
    and f: "raft_inv codec [] a" "log_frame ?A a" "term_m a = 1" "state_m a = follower"
      "at0 (follower_rpc_lsn_m a) = lsn_after ?A 1 srvB 0" "heads 2 [] b2" "entries_m b2 = empty_log"
    by (rule election3)
  have g: "state_m b1 = candidate" "term_m b1 = 1" "state_m b2 = primary"
    using b1 f(6) by (simp_all add: stands_def heads_def)
  have C1: "cast_now codec cfg3 (three ?A ?B ?C, []) (three ?A b1 ?C, ?n1) = {(srvB, 1, srvB)}"
    unfolding cast3 fl by (simp add: fo g)
  have C2: "cast_now codec cfg3 (three ?A b1 ?C, ?n1) (three a b1 ?C, ?n2) = {(srvA, 1, srvB)}"
    unfolding cast3 fl by (simp add: fo f g)
  have v1: "vote_once codec (three ?A b1 ?C, ?n1) {} {(srvB, 1, srvB)}"
    and v2: "vote_once codec (three a b1 ?C, ?n2) ({} \<union> {(srvB, 1, srvB)}) {(srvA, 1, srvB)}"
    by (rule vote_onceI, rule fl, simp, simp, (auto)[1])+
  note started_run
  then have "safe_reach ((three ?A b1 ?C, ?n1), {} \<union> {(srvB, 1, srvB)})"
    by (rule onward [OF _ mv(1) _ _ C1 v1]) (use fit in auto)
  then have "safe_reach ((three a b1 ?C, ?n2), ({} \<union> {(srvB, 1, srvB)}) \<union> {(srvA, 1, srvB)})"
    by (rule onward [OF _ mv(2) _ _ C2 v2]) (use fit in auto)
  then have "safe_reach ((three a b1 ?C, ?n2), two_ballots)" by simp
  then have "safe_reach ((three a b2 ?C, ?n3), two_ballots)"
    by (rule quiet [OF _ mv(3) refl _ _ _ _ _ fl(3) si]) (use f g fo fit in auto)
  then have "safe_reach ((three a b2 ?C, ?n4), two_ballots)"
    by (rule quiet [OF _ lose [where w = srvA and v = srvB and b = first_beat] refl _ _ _ _ _ fl(4) si])
      (use f g fo fit in \<open>auto intro!: next_intros\<close>)
  from that [OF this f] show ?thesis .
qed

text \<open>It takes a command, its retry timer runs out, and the first server accepts the entry.\<close>

abbreviation "first_ask \<equiv> wire (APPEND_ENTRY, ser_ae codec first_ae)"

lemma timers_run_idle:
  assumes "heads n xs s"
  shows "map_of (retry_timers_m (timers_run s)) srvA = Some ([], False)"
proof -
  have "raft_inv codec [] s" "configuration_m s = cfg3" using assms by (simp_all add: heads_def)
  then have "srvA \<in> keys (retry_timers_m s)" by (simp add: raft_inv_def conf_inv_def)
  then show ?thesis by (auto simp: timers_run_def keys_iff_map_of map_of_map)
qed

lemma asked_run:
  obtains a b where "safe_reach ((three a b (started3 srvC),
      [(srvB, srvC, canvass srvB), (srvB, srvC, first_beat), (srvB, srvA, first_ask)]), two_ballots)"
    "raft_inv codec [] a" "log_frame (started3 srvA) a" "term_m a = 1" "state_m a = follower"
    "at0 (follower_rpc_lsn_m a) = lsn_after (started3 srvA) 1 srvB 0"
    "heads 3 [first_entry] b"
proof -
  let ?C = "started3 srvC"
  let ?n4 = "[(srvB, srvC, canvass srvB), (srvB, srvC, first_beat)]"
  let ?n5 = "[(srvB, srvC, canvass srvB), (srvB, srvC, first_beat), (srvB, srvA, first_ask)]"
  note fit = fits3(1-4) and fo = follower3
  have si: "single two_ballots" by (auto simp: single_def)
  have fl: "flying codec ?n4 = []" "flying codec ?n5 = []"
    by (simp_all only: flying_simps votes3 option.case append_Nil append_Nil2)
  obtain a b2 where r4: "safe_reach ((three a b2 ?C, ?n4), two_ballots)"
    and a: "raft_inv codec [] a" "log_frame (started3 srvA) a" "term_m a = 1" "state_m a = follower"
      "at0 (follower_rpc_lsn_m a) = lsn_after (started3 srvA) 1 srvB 0"
    and b2: "heads 2 [] b2" "entries_m b2 = empty_log"
    by (rule elected_run)
  obtain b3 where b3: "server_step codec counting_asio command b2 = Ok b3" "heads 2 [first_entry] b3" "sent b2 b3 []"
    using surelyD [OF take_command [OF b2]] by blast
  let ?b4 = "timers_run b3"
  have b4: "heads 2 [first_entry] ?b4" using timers_run_heads [OF b3(2)] .
  note t4 = timers_run_idle [OF b3(2)]
  obtain b5 where b5: "server_step codec counting_asio (Timer_event (AE_handler srvA) No_error) ?b4 = Ok b5"
    "heads 3 [first_entry] b5" "sent ?b4 b5 [(srvA, first_ask)]"
    using surelyD [OF retry_sends [OF b4 t4]] by blast
  have room: "has_room b2" "has_room ?b4"
    using b2 b4 room_log [OF raft_inv_log(1), of codec "[]" ?b4] by (simp_all add: heads_def)
  have st: "state_m b3 = primary" "state_m ?b4 = primary" "state_m b5 = primary" using b3(2) b4 b5(2) by (simp_all add: heads_def)
  have m5: "move3 (Some (srvB, command)) (three a b2 ?C, ?n4) (three a b3 ?C, ?n4)"
    using moves3(1) [OF _ room(1) b3(1,3), where net = ?n4] by (simp add: outgoing_def)
  have m7: "move3 (Some (srvB, Timer_event (AE_handler srvA) No_error)) (three a ?b4 ?C, ?n4) (three a b5 ?C, ?n5)"
    using moves3(1) [OF _ room(2) b5(1,3), where net = ?n4] by (simp add: outgoing_def)
  have "safe_reach ((three a b3 ?C, ?n4), two_ballots)"
    by (rule quiet [OF r4 m5 refl _ _ _ _ _ fl(1) si]) (use a b2 st fo fit in \<open>auto simp: heads_def\<close>)
  then have "safe_reach ((three a ?b4 ?C, ?n4), two_ballots)"
    by (rule quiet [OF _ other [where w = srvB] _ _ _ _ _ _ fl(1) si]) (use a timers_run_clock st fo fit in auto)
  then have "safe_reach ((three a b5 ?C, ?n5), two_ballots)"
    by (rule quiet [OF _ m7 refl _ _ _ _ _ fl(2) si]) (use a t4 st fo fit in \<open>auto simp: counting_asio_def\<close>)
  then show ?thesis by (rule that [OF _ a b5(2)])
qed

abbreviation "first_ack \<equiv> wire (RESP_APPEND, ser_resp_ae codec ack_A)"

lemma first_entry_run:
  obtains a b where "safe_reach ((three a b (started3 srvC),
      [(srvB, srvC, canvass srvB), (srvB, srvC, first_beat), (srvA, srvB, first_ack)]), two_ballots)"
    "took a" "heads 3 [first_entry] b"
proof -
  let ?C = "started3 srvC"
  let ?n5 = "[(srvB, srvC, canvass srvB), (srvB, srvC, first_beat), (srvB, srvA, first_ask)]"
  let ?n6 = "[(srvB, srvC, canvass srvB), (srvB, srvC, first_beat), (srvA, srvB, first_ack)]"
  have cl: "clean []" by (simp add: clean_def)
  obtain a1 b where r5: "safe_reach ((three a1 b ?C, ?n5), two_ballots)"
    and a1: "raft_inv codec [] a1" "log_frame (started3 srvA) a1" "term_m a1 = 1" "state_m a1 = follower"
      "at0 (follower_rpc_lsn_m a1) = lsn_after (started3 srvA) 1 srvB 0"
    and b: "heads 3 [first_entry] b"
    by (rule asked_run)
  obtain a2 where a2: "react2ae codec counting_asio first_ae a1 = Ok a2" "took a2" "sent a1 a2 [(srvB, first_ack)]"
    using surelyD [OF member_takes [OF a1]] by blast
  have "has_room a1" using a1(2) by (simp add: log_frame_def started3_facts)
  then have ae: "handles codec counting_asio [] first_ask a1 a2"
    using a2(1) handles_ae [where ae = first_ae and A = counting_asio and s = a1 and t = a2, OF codec_law _ cl] first_ae_length
    by (simp add: wire_fits_def)
  have n: "next_message srvB srvA first_ask ?n5 [(srvB, srvC, canvass srvB), (srvB, srvC, first_beat)]"
    by (intro next_intros) simp_all
  have m: "move3 None (three a1 b ?C, ?n5) (three a2 b ?C, ?n6)"
    using moves3(2) [OF n ae a2(3)] by (simp add: outgoing_def)
  have fl: "flying codec ?n6 = []"
    by (simp_all only: flying_simps votes3(1-4) votes3(5) [OF ack_length] option.case append_Nil append_Nil2)
  have st: "state_m a2 = follower" "state_m b = primary" using a2(2) b by (simp_all add: took_def heads_def)
  have "safe_reach ((three a2 b ?C, ?n6), two_ballots)"
    by (rule quiet [OF r5 m refl _ _ _ _ _ fl]) (use st follower3 fits3(1-4) fits3(5) [OF ack_length] in \<open>auto simp: single_def\<close>)
  then show ?thesis by (rule that [OF _ a2(2) b])
qed

text \<open>The logs of the two servers at the end of this run are an instance of \<open>logs_match\<close>.\<close>

theorem logs_match_witness:
  "\<exists>\<sigma> net B. safe_reach ((\<sigma>, net), B) \<and> log_of (entries_m (\<sigma> srvA)) = [first_entry] \<and>
     log_matching (log_of (entries_m (\<sigma> srvA))) (log_of (entries_m (\<sigma> srvB)))"
proof -
  obtain a b net where r: "safe_reach ((three a b (started3 srvC), net), two_ballots)" and a: "took a" by (rule first_entry_run)
  let ?\<sigma> = "three a b (started3 srvC)"
  have "clean []" by (simp add: clean_def)
  then have "log_matching (log_of (entries_m (?\<sigma> srvA))) (log_of (entries_m (?\<sigma> srvB)))"
    by (intro logs_match [OF r codec_law]) simp_all
  moreover have "log_of (entries_m (?\<sigma> srvA)) = [first_entry]" using a by (simp add: took_def)
  ultimately show ?thesis using r by blast
qed

text \<open>Before it took the command, the second server was the only primary of term 1, by \<open>one_primary_per_term\<close>.\<close>

theorem one_primary_per_term_witness:
  "\<exists>\<sigma> net B. safe_reach ((\<sigma>, net), B) \<and> state_m (\<sigma> srvB) = primary \<and> term_m (\<sigma> srvB) = 1 \<and>
     (\<forall>w \<in> set cfg3. state_m (\<sigma> w) = primary \<and> term_m (\<sigma> w) = 1 \<longrightarrow> w = srvB)"
proof -
  obtain a b net where r: "safe_reach ((three a b (started3 srvC), net), two_ballots)" and "heads 2 [] b"
    by (rule elected_run)
  then have p: "state_m (three a b (started3 srvC) srvB) = primary" "term_m (three a b (started3 srvC) srvB) = 1"
    by (simp_all add: heads_def)
  have "w = srvB" if "w \<in> set cfg3" "state_m (three a b (started3 srvC) w) = primary" "term_m (three a b (started3 srvC) w) = 1" for w
    by (rule one_primary_per_term [OF safe_ballots [OF r] _ that(1) _ that(2) p(1)]) (use that(3) p(2) in \<open>simp_all add: clean_def\<close>)
  with r p show ?thesis by blast
qed

section \<open>An election by the theorem\<close>

lemma answer_lengths:
  "length (ser_resp_rv codec (yes_from_A\<lparr>rrv_ok := b\<rparr>)) < 5120"
  using length_small_int [of 0] length_small_int [of 1] length_small_int [of 8001]
  by (simp add: yes_from_A_def codec_def enc_resp_rv_def length_enc_bool length_enc_str)

lemma started3_reachable:
  "reachable (cluster_init counting_asio [] cfg3) (cluster_step codec counting_asio [] cfg3)
     (three (started3 srvA) (started3 srvB) (started3 srvC), [])"
proof -
  have "reachable (cluster_init counting_asio [] cfg3) (cluster_step codec counting_asio [] cfg3)
      (three (server3 srvA) (server3 srvB) (server3 srvC), [])"
    using cluster3_init by (simp add: three_def reachable_init)
  then show ?thesis
    using reachable_step cluster_stepI [OF start3(1)] cluster_stepI [OF start3(2)] cluster_stepI [OF start3(3)] by meson
qed


end
