(* ===== verification/Raft_Answers.thy ===== *)
theory Raft_Answers
  imports Raft_First_Entry Raft_Outcomes
begin

text \<open>
  What becomes of a client's command: from the message with the command to the result that its client gets, along any
  run of the primary with its worker threads. The handlers touch the state machine controller only in three ways
  (\<open>smc_moved\<close>); while a server stays primary in its term its log only grows, and \<open>entryIndex_to_socketAddr_map_\<close> keeps
  what it has for the positions of the log.
\<close>

section \<open>The controller and the io thread\<close>

lemma commit_ok:
  assumes inv: "smc_inv P m0 fin c" "entries_inv es" and ok: "update_commit_index_and_apply n es c = Ok c'"
  shows "smc_inv P m0 fin c' \<and> tasks_of c' = tasks_of c @ apply_tasks (log_of es) (applied_index_m c + 1) n \<and>
    posted_m c' = posted_m c \<and> applied_index_m c' = max (applied_index_m c) n \<and> (applied_index_m c < n \<longrightarrow> n < Entries_size es)"
proof -
  have a: "-1 \<le> applied_index_m c" "\<not> stop_m (write_pool_m c)" using inv(1) by (simp_all add: smc_inv_def)
  consider "n < Entries_size es" | "n \<le> applied_index_m c" | "applied_index_m c < n" "Entries_size es \<le> n" by linarith
  then show ?thesis
  proof cases
    case 1
    then show ?thesis
      using smc_inv_commit [OF inv 1 ok] update_commit_index_and_apply_eq [OF inv(2) a(1) 1 a(2)] ok
      by (auto simp: tasks_of_def)
  next
    case 2
    then have "c' = c\<lparr>smc_commit_index_m := n\<rparr>"
      using ok by (simp add: update_commit_index_and_apply_def apply_loop.simps [of es "c\<lparr>smc_commit_index_m := n\<rparr>"])
    then show ?thesis using 2 inv(1) by (simp add: smc_inv_def tasks_of_def apply_tasks_def max_def)
  next
    case 3
    have "\<nexists>d. apply_loop es (c\<lparr>smc_commit_index_m := n\<rparr>) = Ok d"
    proof (cases "applied_index_m c < Entries_size es")
      case True
      then show ?thesis using apply_loop_past_end [OF inv(2), of "c\<lparr>smc_commit_index_m := n\<rparr>"] a 3 by auto
    next
      case False
      then have "Entries_get es (applied_index_m c + 1) = Inl Entries_get_range"
        using a(1) by (intro entries.get_range [OF inv(2)]) simp_all
      with 3 show ?thesis
        by (subst apply_loop.simps) (simp add: smc_apply_to_state_machine_def)
    qed
    with ok show ?thesis by (simp add: update_commit_index_and_apply_def)
  qed
qed

text \<open>What a handler of the io thread may do to the controller, with the log \<open>es\<close>.\<close>

definition smc_moved :: "Entries \<Rightarrow> SMC \<Rightarrow> SMC \<Rightarrow> bool" where
  "smc_moved es c c' \<longleftrightarrow> c' = c \<or> (\<exists>n. update_commit_index_and_apply n es c = Ok c') \<or>
     (\<exists>q a. smc_get_from_state_machine q a c = Ok c')"

abbreviation io_moved :: "'t RaftServer \<Rightarrow> 't RaftServer \<Rightarrow> bool" where
  "io_moved s t \<equiv> smc_moved (entries_m t) (smc_m s) (smc_m t)"

lemma smc_moved_refl [simp]: "smc_moved es c c"
  by (simp add: smc_moved_def)

lemma smc_moved_query: "smc_get_from_state_machine q a c = Ok c' \<Longrightarrow> smc_moved es c c'"
  unfolding smc_moved_def by blast

lemma io_moved_frame: "io_moved s t \<Longrightarrow> log_frame t u \<Longrightarrow> io_moved s u"
  by (simp add: log_frame_def)

lemma frame_io_moved: "okp (frame s) m \<Longrightarrow> okp (io_moved s) m"
  by (erule okp_mono) (simp add: log_frame_def)

lemma okp_io_moved_frame: "okp (io_moved s) m \<Longrightarrow> (\<And>t. okp (frame t) (f t)) \<Longrightarrow> okp (io_moved s) (seq m f)"
  unfolding okp_seq by (erule okp_mono) (metis (no_types, lifting) okp_mono io_moved_frame)

lemma apply_moved:
  "okp (\<lambda>t. entries_m t = entries_m s \<and> io_moved s t) (apply_to_state_machine n s)"
  by (auto simp: apply_to_state_machine_def okp_map_outcome smc_moved_def intro!: okpI)

lemma follower_moved: "okp (io_moved s) (follower_update_commit_index n s)"
proof -
  have "okp (io_moved s) (apply_to_state_machine n (s\<lparr>commit_index_m := k\<rparr>))" for n k
    by (rule okp_mono [OF apply_moved]) auto
  then show ?thesis by (simp add: follower_update_commit_index_def Let_def wp)
qed

lemma primary_moved: "okp (\<lambda>t. entries_m t = entries_m s \<and> io_moved s t) (primary_update_commit_index v i s)"
proof -
  have "okp (\<lambda>t. entries_m t = entries_m s \<and> io_moved s t)
      (apply_to_state_machine n (s\<lparr>Follower_saved_index_m := f, commit_index_m := k\<rparr>))" for n k f
    by (rule okp_mono [OF apply_moved]) auto
  then show ?thesis by (simp add: primary_update_commit_index_def Let_def wp)
qed

text \<open>Nothing takes an entry out of \<open>entryIndex_to_socketAddr_map_\<close>: an AppendEntries that cuts the log leaves the clients of
  the entries it cuts in the map, so the result of the entry that comes to stand there goes to a client that has not
  sent it, when this server is primary again by then (\<open>client_answer\<close> is about one term for this reason).\<close>

lemma ae_keeps_clients:
  "okp (\<lambda>t. entryIndex_to_socketAddr_map_m t = entryIndex_to_socketAddr_map_m s) (react2ae P A ae s)"
proof -
  let ?k = "\<lambda>t. entryIndex_to_socketAddr_map_m t = entryIndex_to_socketAddr_map_m s"
  have resp: "okp ?k (make_resp_ae P A b v l e t)" if "?k t" for b v l e t
    by (rule okp_mono [OF frame_make_resp_ae]) (use that in \<open>simp add: log_frame_def\<close>)
  have up: "okp ?k (seq (follower_update_commit_index n t) (make_resp_ae P A b v l e))" if "?k t" for n b v l e t
  proof -
    have "okp ?k (follower_update_commit_index n t)"
      using that by (auto simp: follower_update_commit_index_def Let_def wp intro!: okp_mono [OF apply_frame])
    then show ?thesis unfolding okp_seq by (rule okp_mono) (rule resp)
  qed
  have acc: "okp ?k (accept_ae P A ae t)" if "?k t" for t
    using that up by (auto simp: accept_ae_def Let_def wp insert_entry_def split: list.split intro!: okpI)
  have ign: "entryIndex_to_socketAddr_map_m (snd (should_ignore_remote_rpc v l t)) = entryIndex_to_socketAddr_map_m t" for v l t
    by (simp add: should_ignore_remote_rpc_def Let_def)
  have "okp ?k (ae_body P A ae t)" if "?k t" for t
    unfolding ae_body_def split_def Let_def by (simp add: wp that resp acc ign)
  then have "okp (\<lambda>t. okp ?k (ae_body P A ae t)) (trans2F A (ae_term ae) s)"
    by (intro okp_mono [OF trans2F_effect]) (simp add: log_frame_def)
  then show ?thesis using resp by (simp add: react2ae_split wp)
qed

section \<open>Every handler\<close>

lemma accept_ae_moved: "okp (io_moved s) (accept_ae P A ae s)"
proof -
  have tail: "okp (io_moved t) (seq (follower_update_commit_index n t) (make_resp_ae P A True v l e))" for n t v l e
    by (rule okp_io_moved_frame [OF follower_moved frame_make_resp_ae])
  have "okp (\<lambda>t. okp (io_moved s) (seq (follower_update_commit_index n t) (make_resp_ae P A True v l e))) (insert_entry P i x s)"
    for n v l e i x
  proof (rule okp_mono)
    show "okp (\<lambda>t. smc_m t = smc_m s) (insert_entry P i x s)" by (auto simp: insert_entry_def okp_map_outcome intro: okpI)
  qed (use tail in metis)
  then show ?thesis using tail by (simp add: accept_ae_def Let_def wp split: list.split)
qed

lemma react2ae_moved: "okp (io_moved s) (react2ae P A ae s)"
proof -
  have resp: "okp (io_moved s) (make_resp_ae P A b v l e t)" if "smc_m t = smc_m s" for b v l e t
    using frame_io_moved [OF frame_make_resp_ae] that by metis
  have acc: "okp (io_moved s) (accept_ae P A ae t)" if "smc_m t = smc_m s" for t
    using accept_ae_moved that by metis
  have ign: "smc_m (snd (should_ignore_remote_rpc v l t)) = smc_m t" for v l t
    by (simp add: should_ignore_remote_rpc_def Let_def)
  have "okp (io_moved s) (ae_body P A ae t)" if "smc_m t = smc_m s" for t
    unfolding ae_body_def split_def Let_def by (simp add: wp that resp acc ign)
  then have "okp (\<lambda>t. okp (io_moved s) (ae_body P A ae t)) (trans2F A (ae_term ae) s)"
    by (intro okp_mono [OF trans2F_effect]) (simp add: log_frame_def)
  then show ?thesis using resp by (simp add: react2ae_split wp)
qed

lemma deal_moved: "okp (io_moved s) (primary_deal_resp_ae_with_same_term P A v r s)"
proof -
  have re: "okp (frame t) (case map_of (retry_timers_m t) v of None \<Rightarrow> Throw Null_deref t
      | Some x \<Rightarrow> AE P A v (t\<lparr>retry_timers_m := put v (g x) (retry_timers_m t)\<rparr>))" for t :: "'a RaftServer" and g
  proof (cases "map_of (retry_timers_m t) v")
    case (Some x)
    then have "v \<in> keys (retry_timers_m t)" by (simp add: keys_iff_map_of)
    then have "frame t (t\<lparr>retry_timers_m := put v (g x) (retry_timers_m t)\<rparr>)"
      by (auto simp: log_frame_def vote_frame_def)
    with Some show ?thesis using frame_AE [of "t\<lparr>retry_timers_m := put v (g x) (retry_timers_m t)\<rparr>" P A v]
      by (auto elim!: okp_mono intro: log_frame_trans vote_frame_trans)
  qed simp
  have up: "okp (io_moved s) (primary_update_commit_index v i y)" if "smc_m y = smc_m s" for i y
    by (rule okp_mono [OF primary_moved [of y]]) (use that in auto)
  have again: "okp (io_moved s) (seq (primary_update_commit_index v i y)
      (\<lambda>t. case map_of (retry_timers_m t) v of None \<Rightarrow> Throw Null_deref t
      | Some x \<Rightarrow> AE P A v (t\<lparr>retry_timers_m := put v (g x) (retry_timers_m t)\<rparr>)))" if "smc_m y = smc_m s" for i y g
    by (rule okp_io_moved_frame [OF up [OF that] re])
  have refused: "okp (io_moved s) (case map_of (retry_timers_m s) v of None \<Rightarrow> Throw Null_deref t
      | Some x \<Rightarrow> AE P A v (t\<lparr>retry_timers_m := put v (g x) (retry_timers_m s)\<rparr>))"
    if "smc_m t = smc_m s" "retry_timers_m t = retry_timers_m s" for t g
    using frame_io_moved [OF re [of t g]] that by (simp cong: option.case_cong)
  show ?thesis
    unfolding primary_deal_resp_ae_with_same_term_def Let_def okp_if get_core_def
    by (cases "rae_ok r") (simp_all add: up again refused cong: option.case_cong)
qed

lemma trans2P_moved: "smc_m s = smc_m r \<Longrightarrow> okp (io_moved r) (trans2P P A s)"
  unfolding trans2P_eq
  by (rule okp_mono [OF frame_for_others [OF frame_AE]])
    (simp add: log_frame_def primary_state_def cancel_all_timers_def)

lemma server_step_moved:
  assumes "raft_inv P m0 s" "has_room s"
  shows "okp (io_moved s) (server_step P A ev s)"
proof (cases ev)
  case (Incoming ty m peer)
  have "okp (io_moved s) (react2rv P A rv s)" for rv
    by (rule okp_mono [OF react2rv_effect]) (use assms in \<open>auto simp: vote_effect_def log_frame_def raft_inv_def log_inv_def conf_inv_def\<close>)
  moreover have fo: "okp (io_moved s) (trans2F A T s)" for T
    by (rule okp_mono [OF trans2F_effect]) (simp add: log_frame_def)
  moreover have "okp (io_moved s) (candidate_deal_resp_rv_with_same_term P A v r s)" for v r
    by (auto simp: candidate_deal_resp_rv_with_same_term_def Let_def wp trans2P_moved split: option.split)
  moreover have "okp (io_moved s) (append_client_apply_to_entries P c str s)" for c str
    by (auto simp: append_client_apply_to_entries_def Let_def wp insert_entry_def intro!: okpI)
  moreover have "okp (io_moved s) (get_from_state_machine c str s)" for c str
    unfolding get_from_state_machine_def okp_map_outcome by (rule okpI) (simp add: smc_moved_query)
  ultimately show ?thesis
    using Incoming react2ae_moved [of s P A] deal_moved [of s P A]
    by (simp add: reactToIncomingMsg_def react2resp_ae_def react2resp_rv_def Let_def wp)
next
  case (Timer_event h err)
  have "okp (io_moved s) (trans2C P A s)" by (rule okp_mono [OF trans2C_effect]) (simp add: log_frame_def)
  then show ?thesis
    using Timer_event frame_io_moved [OF frame_AE [of s P A]] frame_io_moved [OF frame_RV [of s P A]]
    by (cases h) (simp_all add: run_handler_def trans2F_handler_def trans2C_handler_def AE_retry_handler_def
      RV_retry_handler_def wp split: error_code.splits option.splits)
next
  case (Posted p)
  then show ?thesis
    using frame_io_moved [OF frame_net_call [of s P A]]
    by (auto simp: write_resp_apply_call_def write_resp_query_call_def wp split: post.splits option.splits)
qed

text \<open>What a primary keeps while its term lasts: the log only grows, and the clients of the positions it has stay.\<close>

definition log_grows :: "'t RaftServer \<Rightarrow> 't RaftServer \<Rightarrow> bool" where
  "log_grows s t \<longleftrightarrow> (\<exists>new. log_of (entries_m t) = log_of (entries_m s) @ new) \<and>
     (\<forall>j < Entries_size (entries_m s).
        map_of (entryIndex_to_socketAddr_map_m t) j = map_of (entryIndex_to_socketAddr_map_m s) j)"

lemma frame_grows: "log_frame s t \<Longrightarrow> log_grows s t"
  by (simp add: log_frame_def log_grows_def)

definition stays :: "'t RaftServer \<Rightarrow> 't RaftServer \<Rightarrow> bool" where
  "stays s t \<longleftrightarrow> (state_m t = primary \<longrightarrow> term_m t = term_m s \<longrightarrow> log_grows s t)"

lemma frame_stays: "okp (log_frame s) m \<Longrightarrow> okp (stays s) m"
  by (erule okp_mono) (simp add: stays_def frame_grows)

lemma frame_stays': "okp (frame s) m \<Longrightarrow> okp (stays s) m"
  by (erule okp_mono) (simp add: stays_def frame_grows)

lemma deal_stays: "okp (stays s) (primary_deal_resp_ae_with_same_term P A v r s)"
proof -
  let ?k = "\<lambda>t. entries_m t = entries_m s \<and> entryIndex_to_socketAddr_map_m t = entryIndex_to_socketAddr_map_m s"
  have re: "okp ?k (case map_of (retry_timers_m t) v of None \<Rightarrow> Throw Null_deref t
      | Some x \<Rightarrow> AE P A v (t\<lparr>retry_timers_m := g t x\<rparr>))" if "?k t" for t g
  proof -
    have "okp ?k (AE P A v (t\<lparr>retry_timers_m := y\<rparr>))" for y
      by (rule okp_mono [OF frame_AE]) (use that in \<open>simp add: log_frame_def\<close>)
    then show ?thesis by (simp split: option.split)
  qed
  have up: "okp ?k (primary_update_commit_index v i y)" if "?k y" for i y
    using that by (auto simp: primary_update_commit_index_def Let_def wp intro!: okp_mono [OF apply_frame])
  have again: "okp ?k (seq (primary_update_commit_index v i y)
      (\<lambda>t. case map_of (retry_timers_m t) v of None \<Rightarrow> Throw Null_deref t
      | Some x \<Rightarrow> AE P A v (t\<lparr>retry_timers_m := g t x\<rparr>)))" if "?k y" for i y g
    unfolding okp_seq by (rule okp_mono [OF up [OF that]]) (rule re)
  have refused: "okp ?k (case map_of (retry_timers_m s) v of None \<Rightarrow> Throw Null_deref t
      | Some x \<Rightarrow> AE P A v (t\<lparr>retry_timers_m := g x\<rparr>))" if "?k t" "retry_timers_m t = retry_timers_m s" for t g
    using re [OF that(1), of "\<lambda>t. g"] that(2) by simp
  have "okp ?k (primary_deal_resp_ae_with_same_term P A v r s)"
    unfolding primary_deal_resp_ae_with_same_term_def Let_def okp_if get_core_def
    by (cases "rae_ok r") (auto intro!: up again refused)
  then show ?thesis by (rule okp_mono) (simp add: stays_def log_grows_def)
qed

lemma react2ae_stays:
  assumes "raft_inv P m0 s" "has_room s" "state_m s = primary"
  shows "okp (stays s) (react2ae P A ae s)"
proof (rule okp_mono [OF react2ae_effect])
  fix t assume e: "ae_effect P ae s t"
  show "stays s t"
    using e assms(3) by (auto simp: stays_def ae_effect_def accepted_def frame_grows split: if_splits)
qed (use assms in \<open>simp_all add: raft_inv_def log_inv_def conf_inv_def\<close>)

lemma append_client_stays:
  assumes "raft_inv P m0 s" "has_room s"
  shows "okp (stays s) (append_client_apply_to_entries P c str s)"
proof -
  let ?n = "Entries_size (entries_m s)"
  have e: "entries_inv (entries_m s)" using assms(1) by (simp add: raft_inv_def log_inv_def)
  have n: "0 \<le> ?n" "nat ?n = length (log_of (entries_m s))" using e by (simp_all add: entries.size_log)
  let ?s = "s\<lparr>entryIndex_to_socketAddr_map_m := put ?n c (entryIndex_to_socketAddr_map_m s)\<rparr>"
  let ?e = "\<lparr>en_term = term_m s, en_index = ?n, en_msg = str\<rparr>"
  have "okp (\<lambda>t. \<exists>es. t = ?s\<lparr>entries_m := es\<rparr> \<and> entries_inv es \<and> log_of es = take (nat ?n) (log_of (entries_m ?s)) @ [?e])
      (insert_entry P ?n ?e ?s)"
    using assms(2) e n by (intro insert_entry_effect) simp_all
  then show ?thesis
    using n by (auto simp: append_client_apply_to_entries_def Let_def wp stays_def log_grows_def elim!: okp_mono)
qed

lemma primary_stays:
  assumes "raft_inv P m0 s" "has_room s" "state_m s = primary"
  shows "okp (stays s) (server_step P A ev s)"
proof (cases ev)
  case (Incoming ty m peer)
  have "okp (stays s) (react2rv P A rv s)" for rv
    by (rule okp_mono [OF react2rv_effect])
      (use assms in \<open>auto simp: vote_effect_def stays_def frame_grows raft_inv_def log_inv_def conf_inv_def\<close>)
  moreover have "okp (stays s) (trans2F A T s)" for T
    by (rule frame_stays, rule okp_mono [OF trans2F_effect]) simp
  moreover have "okp (stays s) (get_from_state_machine c str s)" for c str
    unfolding get_from_state_machine_def okp_map_outcome by (rule okpI) (simp add: stays_def log_grows_def)
  moreover have "stays s s" by (simp add: stays_def log_grows_def)
  ultimately show ?thesis
    using Incoming react2ae_stays [OF assms, of A] append_client_stays [OF assms(1,2)] deal_stays [of s P A] assms(3)
    by (simp add: reactToIncomingMsg_def react2resp_ae_def react2resp_rv_def Let_def wp)
next
  case (Timer_event h err)
  have "okp (stays s) (trans2C P A s)" by (rule frame_stays, rule okp_mono [OF trans2C_effect]) simp
  moreover have "stays s s" by (simp add: stays_def log_grows_def)
  ultimately show ?thesis
    using Timer_event frame_stays' [OF frame_AE [of s P A]] frame_stays' [OF frame_RV [of s P A]]
    by (cases h) (simp_all add: run_handler_def trans2F_handler_def trans2C_handler_def AE_retry_handler_def
      RV_retry_handler_def wp split: error_code.splits option.splits)
next
  case (Posted p)
  have "stays s s" by (simp add: stays_def log_grows_def)
  then show ?thesis
    using Posted frame_stays' [OF frame_net_call [of s P A]]
    by (auto simp: write_resp_apply_call_def write_resp_query_call_def wp split: post.splits option.splits)
qed

section \<open>The worker threads\<close>

lemma thread_effect:
  assumes "smc_inv P m0 fin c" "smc_thread_step P c c'"
  shows "\<exists>x. smc_inv P m0 (fin @ x) c' \<and> x @ tasks_of c' = tasks_of c \<and> applied_index_m c' = applied_index_m c \<and>
    (\<forall>i r. Write_resp_apply i r \<in> set (posted_m c') \<longrightarrow> Write_resp_apply i r \<in> set (posted_m c) \<or>
       (\<exists>str. Apply_task str i \<in> set x \<and> r = ser_resp_apply P \<lparr>ra_ok = True\<rparr>))"
proof -
  obtain w where w: "workers_m (write_pool_m c) = [w]"
    using assms(1) one_worker unfolding smc_inv_def by blast
  from assms(2) show ?thesis
  proof cases
    case (write_take k p)
    have "\<not> stop_m (write_pool_m c)" using assms(1) by (simp add: smc_inv_def)
    then have "tasks_of c' = tasks_of c"
      using write_take w by (auto simp: tasks_of_def worker_take_def running_def split: if_splits list.splits)
    then show ?thesis using write_take smc_inv_write_take [OF assms(1) write_take(2)] by (intro exI [of _ "[]"]) simp
  next
    case (write_finish k t p)
    then have wt: "w = Running t" and p: "p = (write_pool_m c)\<lparr>workers_m := [Waiting]\<rparr>"
      using w by (auto simp: worker_finish_def split: if_splits worker.splits)
    have run: "running (write_pool_m c) = [t]" "running p = []" by (simp_all add: running_def w wt p)
    obtain str i where t: "t = Apply_task str i"
      using assms(1) run by (cases t) (auto simp: smc_inv_def tasks_of_def is_query_def)
    have "t # tasks_of c' = tasks_of c" using run by (simp add: write_finish(1) t p tasks_of_def split_def Let_def)
    then show ?thesis
      using smc_inv_write_finish [OF assms(1) write_finish(2)] write_finish(1)
      by (intro exI [of _ "[t]"]) (auto simp: t split_def Let_def EasyStateMachine_apply_def)
  next
    case (read_take k p)
    then show ?thesis using smc_inv_read_take [OF assms(1) read_take(2)] by (intro exI [of _ "[]"]) (simp add: tasks_of_def)
  next
    case (read_finish k t p)
    have k: "k < length (workers_m (read_pool_m c))" "workers_m (read_pool_m c) ! k = Running t"
      using read_finish(2) by (auto simp: worker_finish_def split: if_splits worker.splits)
    have "Running t \<in> set (workers_m (read_pool_m c))" using k nth_mem by metis
    then have "t \<in> set (running (read_pool_m c))" by (force simp: running_def)
    then have "is_query t" using assms(1) by (simp add: smc_inv_def)
    then obtain str a where t: "t = Query_task str a" by (cases t) (simp_all add: is_query_def)
    show ?thesis
      using smc_inv_read_finish [OF assms(1) read_finish(2)] read_finish(1)
      by (intro exI [of _ "[]"]) (simp add: t split_def Let_def tasks_of_def)
  qed
qed

text \<open>A result is only posted for a position that has been handed over.\<close>

definition results_known :: "SMC \<Rightarrow> bool" where
  "results_known c \<longleftrightarrow> (\<forall>i r. Write_resp_apply i r \<in> set (posted_m c) \<longrightarrow> i \<le> applied_index_m c)"

lemma smc_moved_facts:
  assumes "smc_moved es c c'" "entries_inv es" "smc_inv P m0 fin c"
  shows "smc_inv P m0 fin c'" "posted_m c' = posted_m c" "applied_index_m c \<le> applied_index_m c'"
    "set (tasks_of c') \<subseteq> set (tasks_of c) \<union> {Apply_task (en_msg (log_of es ! nat j)) j | j. True}"
proof -
  have "smc_inv P m0 fin c' \<and> posted_m c' = posted_m c \<and> applied_index_m c \<le> applied_index_m c' \<and>
    set (tasks_of c') \<subseteq> set (tasks_of c) \<union> {Apply_task (en_msg (log_of es ! nat j)) j | j. True}"
    using assms(1) unfolding smc_moved_def
  proof (elim disjE exE)
    fix n assume "update_commit_index_and_apply n es c = Ok c'"
    from commit_ok [OF assms(3,2) this] show ?thesis by (auto simp: apply_tasks_def)
  next
    fix q a assume q: "smc_get_from_state_machine q a c = Ok c'"
    then have "\<exists>p. c' = c\<lparr>read_pool_m := p\<rparr>" by (auto simp: smc_get_from_state_machine_def map_outcome_eq_Ok)
    with smc_inv_query [OF assms(3) q] show ?thesis by (auto simp: tasks_of_def)
  qed (use assms(3) in simp)
  then show "smc_inv P m0 fin c'" "posted_m c' = posted_m c" "applied_index_m c \<le> applied_index_m c'"
    "set (tasks_of c') \<subseteq> set (tasks_of c) \<union> {Apply_task (en_msg (log_of es ! nat j)) j | j. True}" by simp_all
qed

lemma task_bound:
  assumes "smc_inv P m0 fin c" "Apply_task str i \<in> set (fin @ tasks_of c)"
  shows "i \<le> applied_index_m c"
proof -
  have "map task_index (fin @ tasks_of c) = [0..applied_index_m c]" using assms(1) by (simp only: smc_inv_def)
  moreover have "i \<in> set (map task_index (fin @ tasks_of c))" using assms(2) by force
  ultimately have "i \<in> set [0..applied_index_m c]" by (simp only:)
  then show ?thesis by simp
qed

lemma results_known_thread:
  assumes "smc_inv P m0 fin c" "smc_thread_step P c c'" "results_known c"
  shows "results_known c'"
proof -
  obtain x where x: "x @ tasks_of c' = tasks_of c" "applied_index_m c' = applied_index_m c"
    "\<forall>i r. Write_resp_apply i r \<in> set (posted_m c') \<longrightarrow> Write_resp_apply i r \<in> set (posted_m c) \<or>
       (\<exists>str. Apply_task str i \<in> set x \<and> r = ser_resp_apply P \<lparr>ra_ok = True\<rparr>)"
    using thread_effect [OF assms(1,2)] by blast
  have "i \<le> applied_index_m c" if "Apply_task str i \<in> set x" for str i
    using task_bound [OF assms(1)] that x(1) by (metis Un_iff set_append)
  with x(2,3) assms(3) show ?thesis unfolding results_known_def by metis
qed

lemma results_step:
  assumes "raft_inv P m0 s \<and> results_known (smc_m s)" "raft_step P A s t"
  shows "raft_inv P m0 t \<and> results_known (smc_m t)"
proof
  show i: "raft_inv P m0 t" using assms raft_step_inv by blast
  obtain fin where c: "smc_inv P m0 fin (smc_m s)" using assms(1) by (auto simp: raft_inv_def log_inv_def)
  show "results_known (smc_m t)"
    using assms(2)
  proof cases
    case start
    have "okp (\<lambda>t. smc_m t = smc_m s) (run A s)"
      unfolding run_def by (rule okp_mono [OF frame_arm]) (simp add: log_frame_def)
    with start assms(1) show ?thesis by simp
  next
    case (event ev)
    have m: "io_moved s t" using server_step_moved [OF _ event(1)] assms(1) event(2) by (blast dest: okpD)
    have "entries_inv (entries_m t)" using i by (simp add: raft_inv_def log_inv_def)
    from smc_moved_facts(2,3) [OF m this c] assms(1) show ?thesis by (force simp: results_known_def)
  next
    case other
    then show ?thesis
    proof cases
      case (threads c')
      then show ?thesis using results_known_thread [OF c] assms(1) by simp
    qed (use assms(1) in \<open>auto simp: results_known_def\<close>)
  qed
qed

lemma ctor_smc: "RaftServer_ctor A f ip port cf es c rnd = Inr s \<Longrightarrow> smc_m s = c"
  by (cases "load_config_from_file f cf") (auto simp: RaftServer_ctor_def)

lemma results_init: "raft_init A m0 s \<Longrightarrow> raft_inv P m0 s \<and> results_known (smc_m s)"
proof
  assume i: "raft_init A m0 s"
  then have "posted_m (smc_m s) = []"
    by (auto simp: raft_init_def SMC_ctor_def dest!: ctor_smc split: if_splits)
  then show "results_known (smc_m s)" by (simp add: results_known_def)
qed (rule raft_init_inv)

interpretation results: invariant_system "raft_init A m0" "raft_step P A" "\<lambda>s. raft_inv P m0 s \<and> results_known (smc_m s)" for P A m0
  by unfold_locales (erule results_init, erule (1) results_step)

section \<open>One command\<close>

text \<open>The server is still primary, has the command \<open>str\<close> of the client \<open>c\<close> at position \<open>i\<close>, and whatever is or has been
  done for that position is for this command.\<close>

definition serves_client :: "pb \<Rightarrow> mock_state_machine \<Rightarrow> endpoint \<Rightarrow> int \<Rightarrow> string \<Rightarrow> 't RaftServer \<Rightarrow> bool" where
  "serves_client P m0 c i str s \<longleftrightarrow> state_m s = primary \<and> 0 \<le> i \<and> i < Entries_size (entries_m s) \<and>
     en_msg (log_of (entries_m s) ! nat i) = str \<and> map_of (entryIndex_to_socketAddr_map_m s) i = Some c \<and>
     (\<exists>fin. smc_inv P m0 fin (smc_m s) \<and>
        (\<forall>x. Apply_task x i \<in> set (fin @ tasks_of (smc_m s)) \<longrightarrow> x = str) \<and>
        (\<forall>r. Write_resp_apply i r \<in> set (posted_m (smc_m s)) \<longrightarrow>
           Apply_task str i \<in> set fin \<and> r = ser_resp_apply P \<lparr>ra_ok = True\<rparr>))"

lemma serves_handler:
  assumes s: "serves_client P m0 c i str s" and inv: "raft_inv P m0 s" and room: "has_room s"
    and ok: "server_step P A ev s = Ok t" and t: "term_m t = term_m s"
  shows "serves_client P m0 c i str t"
proof -
  have p: "state_m s = primary" using s by (simp add: serves_client_def)
  have p': "state_m t = primary"
    using election_stepD [OF ok] t p by (cases "state_m t") (auto simp: election_step_def)
  have it: "raft_inv P m0 t" using okpD [OF server_step_inv [OF inv room] ok] .
  have e: "entries_inv (entries_m s)" "entries_inv (entries_m t)" using inv it by (simp_all add: raft_inv_def log_inv_def)
  obtain new where g: "log_of (entries_m t) = log_of (entries_m s) @ new"
      "\<forall>j < Entries_size (entries_m s). map_of (entryIndex_to_socketAddr_map_m t) j = map_of (entryIndex_to_socketAddr_map_m s) j"
    using okpD [OF primary_stays [OF inv room p] ok] t p' by (auto simp: stays_def log_grows_def)
  have i: "0 \<le> i" "i < Entries_size (entries_m s)" using s by (simp_all add: serves_client_def)
  then have i': "nat i < length (log_of (entries_m s))" using entries.size_log [OF e(1)] by simp
  have l: "en_msg (log_of (entries_m t) ! nat i) = str" "i < Entries_size (entries_m t)"
    using g(1) i i' s entries.size_log [OF e(1)] entries.size_log [OF e(2)] by (simp_all add: nth_append serves_client_def)
  obtain fin where c: "smc_inv P m0 fin (smc_m s)" "\<forall>x. Apply_task x i \<in> set (fin @ tasks_of (smc_m s)) \<longrightarrow> x = str"
      "\<forall>r. Write_resp_apply i r \<in> set (posted_m (smc_m s)) \<longrightarrow>
           Apply_task str i \<in> set fin \<and> r = ser_resp_apply P \<lparr>ra_ok = True\<rparr>"
    using s by (auto simp: serves_client_def)
  note m = smc_moved_facts [OF okpD [OF server_step_moved [OF inv room] ok] e(2) c(1)]
  have "\<forall>x. Apply_task x i \<in> set (fin @ tasks_of (smc_m t)) \<longrightarrow> x = str" using c(2) m(4) l(1) by auto
  moreover have "map_of (entryIndex_to_socketAddr_map_m t) i = Some c" using g(2) i s by (simp add: serves_client_def)
  ultimately show ?thesis using p' i(1) l m(1,2) c(3) by (auto simp: serves_client_def)
qed

lemma serves_background:
  assumes s: "serves_client P m0 c i str s" and b: "background P s t"
  shows "serves_client P m0 c i str t"
proof -
  obtain fin where c: "smc_inv P m0 fin (smc_m s)" "\<forall>x. Apply_task x i \<in> set (fin @ tasks_of (smc_m s)) \<longrightarrow> x = str"
      "\<forall>r. Write_resp_apply i r \<in> set (posted_m (smc_m s)) \<longrightarrow>
           Apply_task str i \<in> set fin \<and> r = ser_resp_apply P \<lparr>ra_ok = True\<rparr>"
    using s by (auto simp: serves_client_def)
  from b show ?thesis
  proof cases
    case (threads c')
    obtain x where x: "smc_inv P m0 (fin @ x) c'" "x @ tasks_of c' = tasks_of (smc_m s)"
      "\<forall>i r. Write_resp_apply i r \<in> set (posted_m c') \<longrightarrow> Write_resp_apply i r \<in> set (posted_m (smc_m s)) \<or>
         (\<exists>str. Apply_task str i \<in> set x \<and> r = ser_resp_apply P \<lparr>ra_ok = True\<rparr>)"
      using thread_effect [OF c(1) threads(2)] by blast
    have k: "\<forall>y. Apply_task y i \<in> set ((fin @ x) @ tasks_of c') \<longrightarrow> y = str"
      using c(2) unfolding x(2) [symmetric] by simp
    have "Apply_task str i \<in> set (fin @ x) \<and> r = ser_resp_apply P \<lparr>ra_ok = True\<rparr>"
      if "Write_resp_apply i r \<in> set (posted_m c')" for r
      using that x(3) c(3) k by fastforce
    with k x(1) have "\<exists>fin. smc_inv P m0 fin c' \<and> (\<forall>y. Apply_task y i \<in> set (fin @ tasks_of c') \<longrightarrow> y = str) \<and>
        (\<forall>r. Write_resp_apply i r \<in> set (posted_m c') \<longrightarrow> Apply_task str i \<in> set fin \<and> r = ser_resp_apply P \<lparr>ra_ok = True\<rparr>)"
      by blast
    with s show ?thesis unfolding serves_client_def threads(1) by simp
  next
    case (post_taken p ps)
    with s c show ?thesis
      unfolding serves_client_def post_taken(1) by (auto simp: smc_inv_posted tasks_of_def)
  qed (use s in \<open>auto simp: serves_client_def\<close>)
qed

lemma serves_run:
  assumes "server_run P A s tr t" "raft_inv P m0 s" "serves_client P m0 c i str s"
  shows "term_m s \<le> term_m t \<and> (term_m t = term_m s \<longrightarrow> serves_client P m0 c i str t)"
  using assms(1)
proof induction
  case run_start
  then show ?case using assms(3) by simp
next
  case (run_event tr t ev u)
  have i: "raft_inv P m0 t" using server_run_inv [OF run_event.hyps(1) assms(2)] .
  have "term_m t \<le> term_m u" using election_stepD [OF run_event.hyps(3)] by (simp add: election_step_def)
  with run_event.IH serves_handler [OF _ i run_event.hyps(2,3)] show ?case by auto
next
  case (run_background tr t u)
  have "term_m u = term_m t" using background_keeps(1) [OF run_background.hyps(2)] by (simp add: vote_frame_def)
  with run_background.IH serves_background [OF _ run_background.hyps(2)] show ?case by metis
qed

lemma command_serves:
  assumes "raft_inv P m0 s" "results_known (smc_m s)" "has_room s" "state_m s = primary"
    and i: "i = Entries_size (entries_m s)" "applied_index_m (smc_m s) < i"
    and ok: "server_step P A (Incoming CLIENT_APPLY str c) s = Ok t"
  shows "serves_client P m0 c i str t \<and> term_m t = term_m s"
proof -
  let ?n = "Entries_size (entries_m s)"
  let ?s = "s\<lparr>entryIndex_to_socketAddr_map_m := put ?n c (entryIndex_to_socketAddr_map_m s)\<rparr>"
  let ?e = "\<lparr>en_term = term_m s, en_index = ?n, en_msg = str\<rparr>"
  have e: "entries_inv (entries_m s)" using assms(1) by (simp add: raft_inv_def log_inv_def)
  have n: "0 \<le> ?n" "nat ?n = length (log_of (entries_m s))" using e by (simp_all add: entries.size_log)
  have "okp (\<lambda>t. \<exists>es. t = ?s\<lparr>entries_m := es\<rparr> \<and> entries_inv es \<and> log_of es = take (nat ?n) (log_of (entries_m ?s)) @ [?e])
      (insert_entry P ?n ?e ?s)"
    using assms(3) e n by (intro insert_entry_effect) simp_all
  then obtain es f where t: "t = ?s\<lparr>entries_m := es, Follower_saved_index_m := f\<rparr>" "entries_inv es"
      "log_of es = log_of (entries_m s) @ [?e]"
    using ok n by (auto simp: reactToIncomingMsg_def append_client_apply_to_entries_def Let_def seq_eq_Ok dest!: okpD)
  obtain fin where fin: "smc_inv P m0 fin (smc_m s)" using assms(1) by (auto simp: raft_inv_def log_inv_def)
  have "Apply_task x i \<notin> set (fin @ tasks_of (smc_m s))" for x
    using task_bound [OF fin, of x i] i(2) by auto
  moreover have "Write_resp_apply i r \<notin> set (posted_m (smc_m s))" for r
    using assms(2) i(2) unfolding results_known_def by force
  ultimately show ?thesis
    using assms(4) fin i(1) n entries.size_log [OF t(2)] by (auto simp: serves_client_def t(1,3) nth_append)
qed

text \<open>C28. A client gets the answer to its own command. A primary takes a command of the client \<open>c\<close> as its log entry \<open>i\<close>, a
  position that it has not handed to its state machine before. At any time of any run of this server, as long as its term
  lasts, it is still primary and has the command at \<open>i\<close>; and when the result for \<open>i\<close> is the next call that a worker
  thread has posted, then the command has been executed, and the call sends exactly one message, the result, to \<open>c\<close>.\<close>

theorem client_answer:
  assumes "reachable (raft_init A m0) (raft_step P A) s" "state_m s = primary" "has_room s"
    and "i = Entries_size (entries_m s)" "applied_index_m (smc_m s) < i"
    and "server_step P A (Incoming CLIENT_APPLY str c) s = Ok t"
    and "server_run P A t tr u" "term_m u = term_m s"
    and "address_ok A (ip_of c)" "length (ser_resp_apply P \<lparr>ra_ok = True\<rparr>) < 9999"
  shows "state_m u = primary \<and> en_msg (log_of (entries_m u) ! nat i) = str \<and>
    (\<forall>res ps. posted_m (smc_m u) = Write_resp_apply i res # ps \<longrightarrow>
       (\<exists>fin. smc_inv P m0 fin (smc_m u) \<and> Apply_task str i \<in> set fin) \<and>
       (\<exists>w. server_step P A (Posted (Write_resp_apply i res)) (u\<lparr>smc_m := (smc_m u)\<lparr>posted_m := ps\<rparr>\<rparr>) = Ok w \<and>
          sent u w [(c, wire (RESP_CLIENT_APPLY, res))]))"
proof -
  have s: "raft_inv P m0 s" "results_known (smc_m s)" using results.reachable_inv [OF assms(1)] by simp_all
  have t: "serves_client P m0 c i str t" "term_m t = term_m s"
    using command_serves [OF s assms(3,2,4,5,6)] by simp_all
  have it: "raft_inv P m0 t" using okpD [OF server_step_inv [OF s(1) assms(3)] assms(6)] .
  have u: "serves_client P m0 c i str u" using serves_run [OF assms(7) it t(1)] t(2) assms(8) by simp
  have rpc: "rpc_inv (network_m u)" using server_run_inv [OF assms(7) it] by (rule raft_inv_rpc)
  have "(\<exists>fin. smc_inv P m0 fin (smc_m u) \<and> Apply_task str i \<in> set fin) \<and>
       (\<exists>w. server_step P A (Posted (Write_resp_apply i res)) (u\<lparr>smc_m := (smc_m u)\<lparr>posted_m := ps\<rparr>\<rparr>) = Ok w \<and>
          sent u w [(c, wire (RESP_CLIENT_APPLY, res))])"
    if p: "posted_m (smc_m u) = Write_resp_apply i res # ps" for res ps
  proof
    let ?u = "u\<lparr>smc_m := (smc_m u)\<lparr>posted_m := ps\<rparr>\<rparr>"
    obtain fin where f: "smc_inv P m0 fin (smc_m u)" "Apply_task str i \<in> set fin" "res = ser_resp_apply P \<lparr>ra_ok = True\<rparr>"
      using u p unfolding serves_client_def by (metis list.set_intros(1))
    then show "\<exists>fin. smc_inv P m0 fin (smc_m u) \<and> Apply_task str i \<in> set fin" by blast
    have "sends_only (c, wire (RESP_CLIENT_APPLY, res)) ?u (net_call P A RESP_CLIENT_APPLY c res ?u)"
      using rpc assms(9,10) f(3) by (intro net_call_only) simp_all
    then show "\<exists>w. server_step P A (Posted (Write_resp_apply i res)) ?u = Ok w \<and> sent u w [(c, wire (RESP_CLIENT_APPLY, res))]"
      using u by (auto simp: write_resp_apply_call_def serves_client_def sends_only_def sent_net)
  qed
  then show ?thesis using u by (simp add: serves_client_def)
qed

text \<open>The witness: the second of the three servers is elected, takes \<open>x=1\<close>, the first server acknowledges the entry, and
  the worker thread executes it.\<close>

abbreviation "reach3 \<equiv> reachable (raft_init counting_asio []) (raft_step codec counting_asio)"

lemma resp_rv_smc: "okp (\<lambda>t. smc_m t = smc_m s) (react2resp_rv P A r s)"
proof -
  have "okp (\<lambda>t. smc_m t = smc_m x) (trans2P P A x)" for x :: "'a RaftServer"
    unfolding trans2P_eq by (rule okp_mono [OF frame_for_others [OF frame_AE]])
      (simp add: log_frame_def primary_state_def cancel_all_timers_def)
  from this [of "s\<lparr>current_rpc_lsn_m := l, winned_votes_m := w\<rparr>" for l w]
  have "okp (\<lambda>t. smc_m t = smc_m s) (candidate_deal_resp_rv_with_same_term P A v r s)" for v
    by (simp add: candidate_deal_resp_rv_with_same_term_def Let_def wp split: option.split)
  moreover have "okp (\<lambda>t. smc_m t = smc_m s) (trans2F A T s)" for T
    by (rule okp_mono [OF trans2F_effect]) (simp add: log_frame_def)
  ultimately show ?thesis by (simp add: react2resp_rv_def Let_def wp)
qed

lemma new_primary: "\<exists>s. reach3 s \<and> heads 2 [] s \<and> entries_m s = empty_log \<and> smc_m s = fresh_smc"
proof -
  have "reach3 (server3 srvB)" by (rule reachable_init, rule server3_init) simp
  then have r0: "reach3 (started3 srvB)" using raft_step.start [OF run3] by (rule reachable_step)
  obtain b1 where b1: "server_step codec counting_asio (Timer_event Run_handler No_error) (started3 srvB) = Ok b1" "stands srvB b1"
    using surelyD [OF stand3 [of srvB]] by auto
  have r1: "reach3 b1" using r0 raft_step.event [OF room3 [OF started3_facts(3)] b1(1)] by (rule reachable_step)
  obtain b2 where b2: "react2resp_rv codec counting_asio yes_from_A b1 = Ok b2" "heads 2 [] b2" "entries_m b2 = empty_log"
    using surelyD [OF win_B [OF b1(2)]] by (auto simp: heads_def)
  have "smc_m b1 = smc_m (started3 srvB)" "has_room b1" using b1(2) by (simp_all add: stands_def log_frame_def started3_facts)
  moreover have "server_step codec counting_asio (Incoming RESP_VOTE (ser_resp_rv codec yes_from_A) srvA) b1 = Ok b2"
    using b2(1) codec_law by (simp add: reactToIncomingMsg_def)
  ultimately have "reach3 b2" using r1 raft_step.event reachable_step by metis
  moreover have "smc_m b2 = fresh_smc"
    using okpD [OF resp_rv_smc b2(1)] \<open>smc_m b1 = _\<close> by (simp add: started3_def server3_eq)
  ultimately show ?thesis using b2 by blast
qed

definition ack_first :: Resp_AppendEntryRpc where
  "ack_first = \<lparr>rae_ok = True, rae_term = 1, rae_lsn = 1, rae_ip = ''10.0.0.1'', rae_port = 8001, rae_is_empty_ae = False\<rparr>"

lemma ack_commits:
  assumes h: "heads 2 [first_entry] t"
  shows "\<exists>u. react2resp_ae codec counting_asio ack_first t = Ok u \<and> term_m u = 1 \<and>
    smc_m u = handed_over 0 (entries_m t) (smc_m t)"
proof -
  have i: "raft_inv codec [] t" and k: "state_m t = primary" "term_m t = 1" "configuration_m t = cfg3"
    "log_of (entries_m t) = [first_entry]" "at0 (nextIndex_m t) srvA = 0" "at0 (current_rpc_lsn_m t) srvA = 2"
    "server_m t = srvB" "at0 (Follower_saved_index_m t) srvB = 0"
    using h by (simp_all add: heads_def)
  have z: "Entries_size (entries_m t) = 1" using entries.size_log [OF raft_inv_log(1) [OF i]] k(4) by simp
  have fit: "ae_fits codec counting_asio t srvA"
    unfolding ae_fits_def z using first_log_fits [OF h, of n c for n c] by (force simp: counting_asio_def)
  have "ack_outcome codec counting_asio ack_first t (react2resp_ae codec counting_asio ack_first t)"
    using k fit by (intro react2resp_ae_outcome [OF i _ _ counting_asio_law]) (simp_all add: ack_first_def)
  then obtain k' where q: "quorum_commit (acknowledged srvA 1 k' t)"
      "ae_sent codec counting_asio (\<lambda>x. snd (expires_at_min counting_asio x)) srvA (acknowledged srvA 1 k' t)
        (react2resp_ae codec counting_asio ack_first t)"
    using k by (auto simp: ack_outcome_def ack_first_def Let_def)
  then obtain u where u: "react2resp_ae codec counting_asio ack_first t = Ok u" "term_m u = 1" "commit_index_m u = k'"
      "smc_m u = handed_over k' (entries_m t) (smc_m t)" "entries_m u = entries_m t"
    using k(2) by (auto simp: ae_sent_def acknowledged_def)
  have "raft_inv codec [] u" using okpD [OF react2resp_inv(1) [OF i] u(1)] .
  then have "k' \<le> 0" using u z by (simp add: raft_inv_def log_inv_def)
  moreover have "0 \<le> k'"
  proof (rule ccontr)
    assume "\<not> 0 \<le> k'"
    then have "int (card (savers (acknowledged srvA 1 k' t) 0)) < 2"
      using q(1) i k(3) by (simp add: quorum_commit_def acknowledged_def raft_inv_def conf_inv_def)
    moreover have "{srvA, srvB} \<subseteq> savers (acknowledged srvA 1 k' t) 0"
      using k by (simp add: savers_def acknowledged_def)
    then have "card {srvA, srvB} \<le> card (savers (acknowledged srvA 1 k' t) 0)"
      by (intro card_mono) (simp_all add: savers_def)
    ultimately show False by simp
  qed
  ultimately show ?thesis using u by auto
qed

lemma first_executed:
  assumes "log_of es = [first_entry]"
  shows "\<exists>c c'. smc_thread_step codec (handed_over 0 es fresh_smc) c \<and> smc_thread_step codec c c' \<and>
    posted_m c' = [Write_resp_apply 0 (ser_resp_apply codec \<lparr>ra_ok = True\<rparr>)]"
proof -
  let ?c = "handed_over 0 es fresh_smc" and ?t = "Apply_task ''x=1'' 0"
  have p: "write_pool_m ?c = \<lparr>workers_m = [Waiting], tasks_m = [?t], stop_m = False\<rparr>" "posted_m ?c = []"
    using assms by (simp_all add: handed_over_def fresh_smc_def SMC_ctor_def ThreadPool_ctor_def apply_tasks_def first_entry_def)
  let ?p = "\<lparr>workers_m = [Running ?t], tasks_m = [], stop_m = False\<rparr>"
  have "smc_thread_step codec ?c (?c\<lparr>write_pool_m := ?p\<rparr>)"
    by (rule write_take [where k = 0]) (simp add: p worker_take_def)
  moreover have "smc_thread_step codec (?c\<lparr>write_pool_m := ?p\<rparr>)
      (run_task codec ?t (?c\<lparr>write_pool_m := ?p, write_pool_m := \<lparr>workers_m = [Waiting], tasks_m = [], stop_m = False\<rparr>\<rparr>))"
    by (rule write_finish [where k = 0]) (simp add: worker_finish_def)
  ultimately show ?thesis by (force simp: p(2) split_def Let_def EasyStateMachine_apply_def)
qed

theorem client_answer_witness:
  "\<exists>s t u tr w. reach3 s \<and> server_step codec counting_asio command s = Ok t \<and> server_run codec counting_asio t tr u \<and>
     posted_m (smc_m u) = [Write_resp_apply 0 (ser_resp_apply codec \<lparr>ra_ok = True\<rparr>)] \<and>
     server_step codec counting_asio (Posted (Write_resp_apply 0 (ser_resp_apply codec \<lparr>ra_ok = True\<rparr>)))
       (u\<lparr>smc_m := (smc_m u)\<lparr>posted_m := []\<rparr>\<rparr>) = Ok w \<and>
     sent u w [((''127.0.0.1'', 50000), wire (RESP_CLIENT_APPLY, ser_resp_apply codec \<lparr>ra_ok = True\<rparr>))]"
proof -
  obtain s where s: "reach3 s" "heads 2 [] s" "entries_m s = empty_log" "smc_m s = fresh_smc" using new_primary by blast
  have room: "has_room s" "\<not> wr_fails (data_m (entries_m s))" "raft_inv codec [] s"
    using s(2,3) by (simp_all add: heads_def) (simp add: empty_log_def)
  obtain t where t: "server_step codec counting_asio command s = Ok t" "heads 2 [first_entry] t"
    using surelyD [OF take_command [OF s(2,3)]] by blast
  have "okp (\<lambda>t. smc_m t = smc_m s) (append_client_apply_to_entries codec c str s)" for c str
    by (auto simp: append_client_apply_to_entries_def Let_def wp insert_entry_def intro!: okpI)
  with t(1) s(4) have "smc_m t = fresh_smc" by (auto simp: reactToIncomingMsg_def dest: okpD)
  moreover have room_t: "has_room t" using t(2) room_log [OF raft_inv_log(1), of codec "[]" t] by (simp add: heads_def)
  ultimately obtain b where b: "react2resp_ae codec counting_asio ack_first t = Ok b" "term_m b = 1"
      "smc_m b = handed_over 0 (entries_m t) fresh_smc"
    using ack_commits [OF t(2)] by auto
  obtain c c' where c: "smc_thread_step codec (smc_m b) c" "smc_thread_step codec c c'"
      "posted_m c' = [Write_resp_apply 0 (ser_resp_apply codec \<lparr>ra_ok = True\<rparr>)]"
    using first_executed [of "entries_m t"] t(2) b(3) by (auto simp: heads_def)
  have "server_step codec counting_asio (Incoming RESP_APPEND (ser_resp_ae codec ack_first) srvA) t = Ok b"
    using b(1) codec_law by (simp add: reactToIncomingMsg_def)
  from run_background [OF run_background [OF run_event [OF run_start room_t this] threads [OF c(1)]], OF threads, of c'] c(2)
  have r: "server_run codec counting_asio t [(Incoming RESP_APPEND (ser_resp_ae codec ack_first) srvA, t)] (b\<lparr>smc_m := c'\<rparr>)"
    by simp
  have "length (ser_resp_apply codec \<lparr>ra_ok = True\<rparr>) < 9999"
    by (simp add: codec_def length_enc_bool)
  moreover have "state_m s = primary" "0 = Entries_size (entries_m s)" "applied_index_m (smc_m s) < 0"
    "term_m (b\<lparr>smc_m := c'\<rparr>) = term_m s" "address_ok counting_asio (ip_of (''127.0.0.1'', 50000))"
    using s b(2) by (simp_all add: heads_def fresh_smc_def SMC_ctor_def counting_asio_def)
  moreover have "posted_m (smc_m (b\<lparr>smc_m := c'\<rparr>)) = Write_resp_apply 0 (ser_resp_apply codec \<lparr>ra_ok = True\<rparr>) # []"
    using c(3) by simp
  ultimately have "\<exists>w. server_step codec counting_asio (Posted (Write_resp_apply 0 (ser_resp_apply codec \<lparr>ra_ok = True\<rparr>)))
       (b\<lparr>smc_m := c', smc_m := c'\<lparr>posted_m := []\<rparr>\<rparr>) = Ok w \<and>
     sent (b\<lparr>smc_m := c'\<rparr>) w [((''127.0.0.1'', 50000), wire (RESP_CLIENT_APPLY, ser_resp_apply codec \<lparr>ra_ok = True\<rparr>))]"
    using client_answer [OF s(1) _ room(1) _ _ t(1) r] by fastforce
  with s(1) t(1) r c(3) show ?thesis
    by (intro exI [of _ s] exI [of _ t] exI [of _ "b\<lparr>smc_m := c'\<rparr>"]) auto
qed

end
