(* ===== verification/Raft_Failover.thy ===== *)
theory Raft_Failover
  imports Raft_CatchUp
begin

text \<open>
  A change of primary in a cluster of five or more: what a new primary forgets, and what that does to
  the members that had committed entries.
\<close>

section \<open>A new primary\<close>

lemma new_primary_after:
  assumes "raft_inv P m0 c" "trans2P P A c = Ok s"
  shows "raft_inv P m0 s" "state_m s = primary" "term_m s = term_m c" "entries_m s = entries_m c"
    "configuration_m s = configuration_m c" "majority_m s = majority_m c" "addr_of s = addr_of c"
    "commit_index_m s = commit_index_m c"
    "v \<in> set (configuration_m c) \<Longrightarrow> at0 (nextIndex_m s) v = Entries_size (entries_m c)"
    "v \<in> set (configuration_m c) \<Longrightarrow>
       at0 (Follower_saved_index_m s) v = (if v = server_m c then Entries_size (entries_m c) - 1 else -1)"
proof -
  have "okp (frame (primary_state A c)) (trans2P P A c)"
    unfolding trans2P_eq by (intro frame_for_others frame_AE)
  then have f: "frame (primary_state A c) s" using assms(2) by simp
  show "raft_inv P m0 s" using okpD [OF trans2P_inv [OF assms(1)] assms(2)] .
  show "state_m s = primary" "term_m s = term_m c" "entries_m s = entries_m c"
    "configuration_m s = configuration_m c" "majority_m s = majority_m c" "addr_of s = addr_of c"
    "commit_index_m s = commit_index_m c"
    using f by (simp_all add: primary_state_def cancel_all_timers_def log_frame_def vote_frame_def)
  show "at0 (nextIndex_m s) v = Entries_size (entries_m c)"
    "at0 (Follower_saved_index_m s) v = (if v = server_m c then Entries_size (entries_m c) - 1 else -1)"
    if "v \<in> set (configuration_m c)"
    using f that by (simp_all add: primary_state_def cancel_all_timers_def log_frame_def at0_put_all)
qed

text \<open>After its first positive answer it knows of two members that have saved anything.\<close>

lemma first_ack_commit:
  assumes c: "raft_inv P m0 c" "5 \<le> length (configuration_m c)" and s: "trans2P P A c = Ok s"
    and r: "rae_ok r" "rae_term r = term_m s" "rae_lsn r + 1 = at0 (current_rpc_lsn_m s) (rae_ip r, rae_port r)"
    and t: "react2resp_ae P A r s = Ok t"
  shows "commit_index_m t = -1" "raft_inv P m0 t" "deal_frame (rae_ip r, rae_port r) True s t"
proof -
  let ?v = "(rae_ip r, rae_port r)"
  note n = new_primary_after [OF c(1) s]
  have eq: "primary_deal_resp_ae_with_same_term P A ?v r s = Ok t"
    using t r(2) n(2) by (simp add: react2resp_ae_def Let_def)
  show inv: "raft_inv P m0 t" using okpD [OF primary_deal_inv [OF n(1,2)] eq] .
  show d: "deal_frame ?v True s t" using okpD [OF deal_frame_effect eq] r(1) by simp
  have q: "quorum_commit t"
    using okpD [OF primary_deal_effect [OF n(1,2)] eq] r(1,3) by (simp add: ack_effect_def Let_def)
  have "savers t k \<subseteq> {server_m c, ?v}" if "-1 < k" for k
  proof
    fix w assume w: "w \<in> savers t k"
    show "w \<in> {server_m c, ?v}"
    proof (rule ccontr)
      assume "w \<notin> {server_m c, ?v}"
      then have "w \<noteq> server_m c" "w \<noteq> ?v" by simp_all
      moreover from this(2) have "at0 (Follower_saved_index_m t) w = at0 (Follower_saved_index_m s) w"
        using d unfolding deal_frame_def by blast
      moreover have "w \<in> set (configuration_m c)" using w d n(5) by (simp add: savers_def deal_frame_def)
      ultimately have "at0 (Follower_saved_index_m t) w = -1" using n(10) by simp
      with w that show False by (simp add: savers_def)
    qed
  qed
  then have "card (savers t k) \<le> 2" if "-1 < k" for k
    using card_mono [of "{server_m c, ?v}" "savers t k"] that card_insert_le_m1 [of 2] by (simp add: card_insert_if split: if_splits)
  moreover have "3 \<le> majority_m t"
    using d n(6) c by (auto simp: deal_frame_def raft_inv_def conf_inv_def)
  moreover have "majority_m t \<le> int (card (savers t (commit_index_m t)))" using q by (simp add: quorum_commit_def)
  ultimately have "\<not> -1 < commit_index_m t" by fastforce
  then show "commit_index_m t = -1" using raft_inv_log(3) [OF inv] by simp
qed

text \<open>C23. In a cluster of five or more, a change of primary stops the members that have committed something.
  Whatever the new primary had committed, after the first member agrees with it its commit index is -1. From
  then on every AppendEntries it builds for a member says so; and a member that has committed an entry, and
  whose log passes the check, throws on that message (a commit index must not decrease) instead of answering.\<close>

theorem new_primary_stops_members:
  assumes "raft_inv P m0 c" "5 \<le> length (configuration_m c)" "trans2P P A c = Ok s"
    and "rae_ok r" "rae_term r = term_m s" "rae_lsn r + 1 = at0 (current_rpc_lsn_m s) (rae_ip r, rae_port r)"
    and "react2resp_ae P A r s = Ok t"
    and "addr_of f \<in> set (configuration_m t)" "fst (build_rpc_ae (addr_of f) t) = Inr ae"
    and "raft_inv P m0 f" "has_room f" "device_ok f" "asio_law A pend"
    and "state_m f \<noteq> primary" "term_m f \<le> term_m t" "0 \<le> commit_index_m f"
    and "seen_lsn f (term_m t) (addr_of t) < at0 (current_rpc_lsn_m t) (addr_of f)"
    and "log_matches ae (log_of (entries_m f))"
  shows "commit_index_m t = -1 \<and> (\<exists>f'. react2ae P A ae f = Throw Commit_decreases f')"
proof -
  let ?w = "addr_of f"
  note t = first_ack_commit [OF assms(1-7)]
  have "state_m t = primary" using t(3) new_primary_after(2) [OF assms(1,3)] by (simp add: deal_frame_def vote_frame_def)
  then have n: "0 \<le> at0 (nextIndex_m t) ?w" "at0 (nextIndex_m t) ?w \<le> Entries_size (entries_m t)"
    using t(2) assms(8) unfolding raft_inv_def book_inv_def by blast+
  note a = in_flight_fields [OF t(2) \<open>state_m t = primary\<close> assms(8) refl refl]
  have ae: "ae = (in_flight t ?w)\<lparr>ae_lsn := at0 (current_rpc_lsn_m t) ?w\<rparr>"
  proof -
    have "ae = ae_at t ?w (at0 (nextIndex_m t) ?w) (commit_index_m t)"
      using build_rpc_ae_spec [OF raft_inv_log(1) [OF t(2)] refl n] assms(9) by (simp add: ae_at_def)
    then show ?thesis by (simp only:) (simp add: in_flight_def ae_at_def)
  qed
  have wf: "ae_wf ae" using a(14) by (simp add: ae ae_wf_def)
  have e: "ae_term ae = term_m t" "(ae_ip ae, ae_port ae) = addr_of t" "ae_lsn ae = at0 (current_rpc_lsn_m t) ?w"
    "ae_commit_index ae = -1"
    using a(5-8) t(1) by (simp_all add: ae)
  obtain fin where i: "entries_inv (entries_m f)" "smc_inv P m0 fin (smc_m f)"
    using assms(10) by (auto simp: raft_inv_def log_inv_def)
  obtain u where u: "react2ae P A ae f = accept_ae P A ae u" "entries_m u = entries_m f" "smc_m u = smc_m f"
      "commit_index_m u = commit_index_m f"
    using react2ae_accepts [OF i(1) assms(13) wf assms(14) _ _ assms(18)] assms(15,17) e(1-3) by auto
  have "\<exists>f'. accept_ae P A ae u = Throw Commit_decreases f'"
    using accept_ae_low [of u P m0 fin ae P A] u i wf assms(10-12,16,18) e(4)
    by (simp add: device_ok_def raft_inv_def log_inv_def)
  with u(1) t(1) show ?thesis by simp
qed

text \<open>The witness: five servers with the same two entries, all committed; the first one stands in term 2 and wins.\<close>

lemma AE_rounds_lsn:
  assumes "rpc_inv (network_m s)"
  shows "okp (\<lambda>t. \<forall>w. at0 (current_rpc_lsn_m s) w \<le> at0 (current_rpc_lsn_m t) w) (for_others (AE P A) s)"
proof -
  let ?I = "\<lambda>t. rpc_inv (network_m t) \<and> (\<forall>w. at0 (current_rpc_lsn_m s) w \<le> at0 (current_rpc_lsn_m t) w)"
  have one: "okp ?I (AE P A v t)" if I: "?I t" for v t
  proof (rule okp_mono)
    show "okp (\<lambda>u. (sent t u [(v, wire (APPEND_ENTRY, ser_ae P (ae_to t v)))] \<and>
        (\<forall>w. w \<noteq> v \<longrightarrow> at0 (current_rpc_lsn_m u) w = at0 (current_rpc_lsn_m t) w)) \<and>
        at0 (current_rpc_lsn_m u) v = at0 (current_rpc_lsn_m t) v + 1) (AE P A v t)"
      unfolding okp_conj [where P = "\<lambda>u. sent t u _ \<and> _ u"] using AE_sends AE_lsn I by blast
    fix u assume u: "(sent t u [(v, wire (APPEND_ENTRY, ser_ae P (ae_to t v)))] \<and>
        (\<forall>w. w \<noteq> v \<longrightarrow> at0 (current_rpc_lsn_m u) w = at0 (current_rpc_lsn_m t) w)) \<and>
        at0 (current_rpc_lsn_m u) v = at0 (current_rpc_lsn_m t) v + 1"
    have "at0 (current_rpc_lsn_m t) w \<le> at0 (current_rpc_lsn_m u) w" for w
    proof (cases "w = v")
      case False
      then have "at0 (current_rpc_lsn_m u) w = at0 (current_rpc_lsn_m t) w" using u by blast
      then show ?thesis by simp
    qed (use u in simp)
    then show "?I u" using I u order_trans unfolding sent_def by blast
  qed
  have "okp ?I (for_others (AE P A) s)"
    unfolding for_others_def by (rule okp_for_each) (use assms one in auto)
  then show ?thesis by (rule okp_mono) blast
qed

definition conf5 :: string where
  "conf5 = conf3 @ [CHR 0x0A] @ ''10.0.0.4:8004'' @ [CHR 0x0A] @ ''10.0.0.5:8005''"

abbreviation cfg5 :: "endpoint list" where
  "cfg5 \<equiv> cfg3 @ [(''10.0.0.4'', 8004), (''10.0.0.5'', 8005)]"

lemma load_conf5: "load_config_from_file (split_chars []) (Some conf5) = Inr (cfg5, 5, 3)"
  by code_simp

definition server5 :: "string \<Rightarrow> int \<Rightarrow> (handler list \<times> bool) RaftServer" where
  "server5 ip port = projr (RaftServer_ctor counting_asio (split_chars []) ip port (Some conf5) log2 fresh_smc (\<lambda>n. 0))"

lemmas server5_eq = server5_def [unfolded RaftServer_ctor_def load_conf5, simplified]

lemma server5_inv:
  assumes "(ip, port) \<in> set cfg5"
  shows "raft_inv codec [] (server5 ip port)"
proof (rule raft_init_inv)
  show "raft_init counting_asio [] (server5 ip port)"
    unfolding raft_init_def
  proof (intro exI conjI)
    show "RaftServer_ctor counting_asio (split_chars []) ip port (Some conf5) log2 fresh_smc (\<lambda>n. 0) =
        Inr (server5 ip port)"
      by (simp add: server5_eq RaftServer_ctor_def load_conf5)
    show "SMC_ctor [] 2 1 = Inr fresh_smc" by (simp add: fresh_smc_def SMC_ctor_def)
    show "(ip, port) \<in> set (configuration_m (server5 ip port))" using assms by (simp add: server5_eq)
  qed (simp_all add: server5_eq log2_indexed)
qed

definition candidate5 :: "(handler list \<times> bool) RaftServer" where
  "candidate5 = (server5 ''10.0.0.1'' 8001)\<lparr>term_m := 2, state_m := candidate, commit_index_m := 1,
     current_rpc_lsn_m := put_all cfg5 1 []\<rparr>"

definition member5 :: "(handler list \<times> bool) RaftServer" where
  "member5 = (server5 ''10.0.0.3'' 8003)\<lparr>term_m := 1, commit_index_m := 1\<rparr>"

lemma five_inv: "raft_inv codec [] candidate5" "raft_inv codec [] member5"
  using server5_inv [of "''10.0.0.1''" 8001] server5_inv [of "''10.0.0.3''" 8003]
  by (simp_all add: candidate5_def member5_def raft_inv_def conf_inv_def log_inv_def book_inv_def) (simp_all add: server5_eq)

lemma log2_terms: "en_term entry0 = 1" "en_term entry1 = 1"
  by (simp_all add: entry0_def entry1_def)

lemma heartbeat5_length: "length (ser_ae codec (heartbeat candidate5 v)) < 9999" if "v \<in> set cfg5"
  using that length_small_int [of 0] length_small_int [of 1] length_small_int [of 2] length_small_int [of 8001]
  by (auto simp: heartbeat_def candidate5_def server5_eq codec_def enc_ae_def enc_list_def length_enc_str at0_put_all
      log2_terms)

theorem new_primary_stops_members_witness:
  "\<exists>s r t ae f'. trans2P codec counting_asio candidate5 = Ok s \<and> rae_ok r \<and>
     react2resp_ae codec counting_asio r s = Ok t \<and> commit_index_m candidate5 = 1 \<and> commit_index_m t = -1 \<and>
     fst (build_rpc_ae (addr_of member5) t) = Inr ae \<and>
     react2ae codec counting_asio ae member5 = Throw Commit_decreases f'"
proof -
  let ?v = "(''10.0.0.2'', 8002)" and ?w = "(''10.0.0.3'', 8003)"
  have c: "configuration_m candidate5 = cfg5" "entries_m candidate5 = log2" "term_m candidate5 = 2"
    "commit_index_m candidate5 = 1" "current_rpc_lsn_m candidate5 = put_all cfg5 1 []"
    and f: "addr_of member5 = ?w" "entries_m member5 = log2" "term_m member5 = 1" "commit_index_m member5 = 1"
      "state_m member5 = follower" "configuration_m member5 = cfg5"
    by (simp_all add: candidate5_def member5_def server5_eq)
  have i: "conf_inv candidate5" "rpc_inv (network_m candidate5)"
    using five_inv(1) by (simp_all add: raft_inv_def conf_inv_def)
  have "\<forall>v \<in> set (others candidate5). address_ok counting_asio (ip_of v) \<and>
      length (ser_ae codec (heartbeat candidate5 v)) < 9999"
    using heartbeat5_length by (auto simp: c(1) counting_asio_def)
  then have "surely (\<lambda>u. True) (trans2P codec counting_asio candidate5)"
    by (intro trans2P_total [OF i(1) _ counting_asio_law]) (simp_all add: c(2))
  moreover have "okp (\<lambda>t. \<forall>w. at0 (current_rpc_lsn_m candidate5) w \<le> at0 (current_rpc_lsn_m t) w)
      (trans2P codec counting_asio candidate5)"
    using AE_rounds_lsn [of "primary_state counting_asio candidate5" codec counting_asio] i(2)
    by (simp add: trans2P_eq primary_state_def cancel_all_timers_def)
  ultimately obtain s where s: "trans2P codec counting_asio candidate5 = Ok s"
      "\<forall>w. at0 (current_rpc_lsn_m candidate5) w \<le> at0 (current_rpc_lsn_m s) w"
    using surelyD [OF surelyI] by blast
  note n = new_primary_after [OF five_inv(1) s(1)]
  define r where "r = \<lparr>rae_ok = True, rae_term = 2, rae_lsn = at0 (current_rpc_lsn_m s) ?v - 1,
    rae_ip = ''10.0.0.2'', rae_port = 8002, rae_is_empty_ae = True\<rparr>"
  define x where "x = s\<lparr>current_rpc_lsn_m := touch ?v (current_rpc_lsn_m s), nextIndex_m := touch ?v (nextIndex_m s)\<rparr>"
  have nv: "at0 (nextIndex_m s) ?v = 2" "at0 (nextIndex_m s) ?w = 2"
    using n(9) [of ?v] n(9) [of ?w] by (simp_all add: c)
  have eq: "react2resp_ae codec counting_asio r s = primary_update_commit_index ?v 1 x"
    using n(2,3) nv by (simp add: react2resp_ae_def primary_deal_resp_ae_with_same_term_def r_def x_def n(4) c Let_def)
  have xi: "raft_inv codec [] x"
    using n(1) raft_inv_touch [where s = "s\<lparr>current_rpc_lsn_m := touch ?v (current_rpc_lsn_m s)\<rparr>" and v = ?v]
    by (simp add: x_def)
  have "surely (\<lambda>t. True) (primary_update_commit_index ?v 1 x)"
    by (rule primary_update_total [OF xi]) (simp_all add: x_def n(2,4,5) c)
  moreover have "okp (\<lambda>t. at0 (current_rpc_lsn_m t) ?w = at0 (current_rpc_lsn_m s) ?w \<and>
      at0 (nextIndex_m t) ?w = 2) (primary_update_commit_index ?v 1 x)"
    using xi nv by (intro okp_mono [OF primary_update_effect]) (auto simp: raft_inv_def x_def)
  ultimately obtain t where t: "react2resp_ae codec counting_asio r s = Ok t"
      "at0 (current_rpc_lsn_m t) ?w = at0 (current_rpc_lsn_m s) ?w" "at0 (nextIndex_m t) ?w = 2"
    unfolding eq using surelyD [OF surelyI] by blast
  have r: "rae_ok r" "rae_term r = term_m s" "rae_lsn r + 1 = at0 (current_rpc_lsn_m s) (rae_ip r, rae_port r)"
    by (simp_all add: r_def n(3) c)
  have five: "5 \<le> length (configuration_m candidate5)" by (simp add: c)
  note a = first_ack_commit [OF five_inv(1) five s(1) r t(1)]
  have k: "configuration_m t = cfg5" "entries_m t = log2" "term_m t = 2" "addr_of t = (''10.0.0.1'', 8001)"
    using a(3) n(3-5,7) c by (simp_all add: deal_frame_def vote_frame_def candidate5_def server5_eq)
  have lsn: "1 \<le> at0 (current_rpc_lsn_m t) ?w"
    using s(2) [rule_format, of ?w] by (simp add: t(2) c at0_put_all)
  have b: "fst (build_rpc_ae (addr_of member5) t) = Inr (ae_at t ?w 2 (-1))"
    using build_rpc_ae_spec [OF raft_inv_log(1) [OF a(2)] t(3) [symmetric]] by (simp add: ae_at_def f(1) k a(1))
  have m: "log_matches (ae_at t ?w 2 (-1)) (log_of (entries_m member5))"
    by (simp add: log_matches_def ae_at_def f k)
  have new: "seen_lsn member5 (term_m t) (addr_of t) < at0 (current_rpc_lsn_m t) (addr_of member5)"
    using lsn by (simp add: seen_lsn_def f k)
  have "device_ok member5" by (simp add: device_ok_def f log2_def empty_log_def)
  from new_primary_stops_members [OF five_inv(1) five s(1) r t(1) _ b five_inv(2) _ this counting_asio_law _ _ _ new m]
  obtain f' where "commit_index_m t = -1" "react2ae codec counting_asio (ae_at t ?w 2 (-1)) member5 = Throw Commit_decreases f'"
    by (auto simp: f k)
  with s(1) r(1) t(1) c(4) b show ?thesis by blast
qed

end
