(* ===== verification/Raft_Pairs.thy ===== *)
theory Raft_Pairs
  imports Raft_Link_Steps
begin

text \<open>
  One direction of two members of a cluster: the messages under way between them (\<open>channel\<close>), and the invariant
  \<open>pair_inv\<close>, which is \<open>link_inv\<close> while the sender is primary. Every step of either end keeps it
  (\<open>sender_step\<close>, \<open>member_step\<close>), and so does the loss of a message.
\<close>

section \<open>The messages between two members\<close>

text \<open>Type and content of the message that a receiver reads from the bytes \<open>b\<close>.\<close>

definition read_in :: "pb \<Rightarrow> string \<Rightarrow> (RPC_TYPE \<times> string) option" where
  "read_in P b = (case recv_stream P [] any_conn b of ([(ty, m, peer)], Inr []) \<Rightarrow> Some (ty, m) | _ \<Rightarrow> None)"

lemma read_in_wire: "wire_fits x \<Longrightarrow> read_in P (wire x) = Some x"
  using recv_wire [of x "[]" P any_conn] by (simp add: read_in_def clean_def)

lemma wire_inj: "wire_fits x \<Longrightarrow> wire_fits y \<Longrightarrow> wire x = wire y \<Longrightarrow> x = y"
  by (metis read_in_wire option.inject)

lemma short_fits: "length (wire x) < 5125 \<Longrightarrow> fst x \<noteq> ERROR \<Longrightarrow> wire_fits x"
  using wire_length [of x] by (simp add: wire_fits_def)

definition channel :: "pb \<Rightarrow> endpoint \<Rightarrow> endpoint \<Rightarrow> (endpoint \<times> endpoint \<times> string) list \<Rightarrow> (RPC_TYPE \<times> string) list" where
  "channel P v w net = concat (map (\<lambda>(v', w', b). if v' = v \<and> w' = w then case read_in P b of None \<Rightarrow> [] | Some x \<Rightarrow> [x] else []) net)"

lemma channel_simps [simp]:
  "channel P v w [] = []" "channel P v w (xs @ ys) = channel P v w xs @ channel P v w ys"
  "channel P v w ((v', w', b) # ys) =
    (if v' = v \<and> w' = w then case read_in P b of None \<Rightarrow> [] | Some x \<Rightarrow> [x] else []) @ channel P v w ys"
  by (simp_all add: channel_def)

lemma channel_next:
  assumes "next_message v' w' b net rest"
  shows "(v', w') \<noteq> (v, w) \<Longrightarrow> channel P v w rest = channel P v w net"
    "channel P v' w' net = (case read_in P b of None \<Rightarrow> [] | Some x \<Rightarrow> [x]) @ channel P v' w' rest"
proof -
  obtain xs ys where n: "net = xs @ (v', w', b) # ys" "rest = xs @ ys" "\<forall>(v'', w'', b') \<in> set xs. (v'', w'') \<noteq> (v', w')"
    using assms by (auto simp: next_message_def)
  show "(v', w') \<noteq> (v, w) \<Longrightarrow> channel P v w rest = channel P v w net" unfolding n(1,2) by auto
  have "channel P v' w' xs = []" using n(3) by (induction xs) auto
  then show "channel P v' w' net = (case read_in P b of None \<Rightarrow> [] | Some x \<Rightarrow> [x]) @ channel P v' w' rest"
    unfolding n(1,2) by simp
qed

definition to_member :: "endpoint \<Rightarrow> (endpoint \<times> RPC_TYPE \<times> string) list \<Rightarrow> (RPC_TYPE \<times> string) list" where
  "to_member w xs = map snd (filter (\<lambda>x. fst x = w) xs)"

lemma channel_outgoing:
  "\<forall>(w, x) \<in> set xs. wire_fits x \<Longrightarrow> channel P v w (outgoing v (map (\<lambda>(w, x). (w, wire x)) xs)) = to_member w xs"
  by (induction xs) (auto simp: outgoing_def to_member_def read_in_wire)

lemma channel_others: "v' \<noteq> v \<Longrightarrow> channel P v' w (outgoing v ms) = []"
  by (induction ms) (auto simp: outgoing_def)

text \<open>The AppendEntries among them, the answers to AppendEntries, and those of a term.\<close>

definition appends :: "pb \<Rightarrow> (RPC_TYPE \<times> string) list \<Rightarrow> AppendEntryRpc list" where
  "appends P xs = map (\<lambda>x. parse_ae P (snd x)) (filter (\<lambda>x. fst x = APPEND_ENTRY) xs)"

definition answers :: "pb \<Rightarrow> (RPC_TYPE \<times> string) list \<Rightarrow> Resp_AppendEntryRpc list" where
  "answers P xs = map (\<lambda>x. parse_resp_ae P (snd x)) (filter (\<lambda>x. fst x = RESP_APPEND) xs)"

abbreviation in_term :: "int \<Rightarrow> Resp_AppendEntryRpc list \<Rightarrow> Resp_AppendEntryRpc list" where
  "in_term T rs \<equiv> filter (\<lambda>a. rae_term a = T) rs"

lemma appends_simps [simp]:
  "appends P [] = []" "appends P (xs @ ys) = appends P xs @ appends P ys"
  "appends P (x # xs) = (if fst x = APPEND_ENTRY then [parse_ae P (snd x)] else []) @ appends P xs"
  by (simp_all add: appends_def)

lemma answers_simps [simp]:
  "answers P [] = []" "answers P (xs @ ys) = answers P xs @ answers P ys"
  "answers P (x # xs) = (if fst x = RESP_APPEND then [parse_resp_ae P (snd x)] else []) @ answers P xs"
  by (simp_all add: answers_def)

lemma appends_to: "appends P (to_member w xs) = map (parse_ae P) (aes_to w xs)"
  by (induction xs) (auto simp: to_member_def)

text \<open>The messages a handler hands over are determined by what it puts on the wire.\<close>

lemma wires_inj:
  assumes "map (\<lambda>(w, x). (w, wire x)) xs = map (\<lambda>(w, x). (w, wire x)) ys"
    "\<forall>(w, x) \<in> set xs. wire_fits x" "\<forall>(w, x) \<in> set ys. wire_fits x"
  shows "xs = ys"
  using assms
proof (induction xs arbitrary: ys)
  case (Cons x xs)
  then obtain y ys' where "ys = y # ys'" by (cases ys) auto
  with Cons show ?case by (auto dest: wire_inj)
qed simp

abbreviation short :: "(endpoint \<times> RPC_TYPE \<times> string) list \<Rightarrow> bool" where
  "short xs \<equiv> \<forall>(w, x) \<in> set xs. length (wire x) < 5125 \<and> fst x \<noteq> ERROR"

lemma sent_same_messages:
  assumes "sent s t (map (\<lambda>(w, x). (w, wire x)) xs)" "short xs"
    "sent s t (map (\<lambda>(w, x). (w, wire x)) ys)" "\<forall>(w, x) \<in> set ys. fst x \<noteq> ERROR"
  shows "ys = xs"
proof -
  have e: "map (\<lambda>(w, x). (w, wire x)) ys = map (\<lambda>(w, x). (w, wire x)) xs" using sent_unique [OF assms(3,1)] .
  have "length (wire x) < 5125" if "(w, x) \<in> set ys" for w x
  proof -
    have "(w, wire x) \<in> set (map (\<lambda>(w, x). (w, wire x)) ys)" using that by force
    then show ?thesis using assms(2) unfolding e by auto
  qed
  with e assms(2,4) show ?thesis by (intro wires_inj) (auto intro!: short_fits)
qed

lemma sent_one_message:
  assumes "sent s t (map (\<lambda>(w, x). (w, wire x)) xs)" "short xs" "sent s t [(v, wire x)]" "fst x \<noteq> ERROR"
  shows "xs = [(v, x)]"
  using sent_same_messages [OF assms(1,2), of "[(v, x)]"] assms(3,4) by simp

section \<open>The invariant of a pair of members\<close>

text \<open>\<open>s\<close> is the state of \<open>v\<close>, \<open>f\<close> that of \<open>w\<close>; \<open>q\<close> are the AppendEntries under way from \<open>v\<close> to \<open>w\<close> and \<open>rs\<close> the
  answers from \<open>w\<close> to \<open>v\<close>. An AppendEntries is from the time its sender was primary, and so is one that is answered
  positively.\<close>

definition led :: "'t RaftServer \<Rightarrow> int \<Rightarrow> bool" where
  "led s T \<longleftrightarrow> T < term_m s \<or> (T = term_m s \<and> state_m s = primary)"

definition link_of :: "'t RaftServer \<Rightarrow> 't RaftServer \<Rightarrow> endpoint \<Rightarrow> endpoint \<Rightarrow> AppendEntryRpc list \<Rightarrow>
    Resp_AppendEntryRpc list \<Rightarrow> bool" where
  "link_of s f v w q r \<longleftrightarrow>
     link_inv (term_m s) (log_of (entries_m s)) (at0 (current_rpc_lsn_m s) w) (at0 (nextIndex_m s) w)
       (at0 (Follower_saved_index_m s) w) (term_m f) (log_of (entries_m f)) (at0 (follower_rpc_lsn_m f) v) q r"

definition pair_inv :: "(int \<Rightarrow> endpoint) \<Rightarrow> endpoint \<Rightarrow> endpoint \<Rightarrow> 't RaftServer \<Rightarrow> 't RaftServer \<Rightarrow>
    AppendEntryRpc list \<Rightarrow> Resp_AppendEntryRpc list \<Rightarrow> bool" where
  "pair_inv leader v w s f q rs \<longleftrightarrow>
     (\<forall>ae \<in> set q. leader (ae_term ae) = v \<and> led s (ae_term ae)) \<and> sorted (map ae_term q) \<and>
     (\<forall>a \<in> set rs. rae_ok a \<longrightarrow> led s (rae_term a)) \<and>
     (state_m s = primary \<longrightarrow> link_of s f v w q (in_term (term_m s) rs))"

lemma pair_invD:
  assumes "pair_inv leader v w s f q rs"
  shows "ae \<in> set q \<Longrightarrow> leader (ae_term ae) = v" "ae \<in> set q \<Longrightarrow> led s (ae_term ae)" "sorted (map ae_term q)"
    "a \<in> set rs \<Longrightarrow> rae_ok a \<Longrightarrow> led s (rae_term a)"
    "state_m s = primary \<Longrightarrow> link_of s f v w q (in_term (term_m s) rs)"
  using assms by (simp_all add: pair_inv_def)

lemma pair_lose_request: "pair_inv leader v w s f (ae # q) rs \<Longrightarrow> pair_inv leader v w s f q rs"
  by (auto simp: pair_inv_def link_of_def intro: link_lose_request)

lemma pair_lose_answer: "pair_inv leader v w s f q (a # rs) \<Longrightarrow> pair_inv leader v w s f q rs"
  by (auto simp: pair_inv_def link_of_def intro: link_lose_answer split: if_splits)

section \<open>A step of the sender\<close>

lemma led_step:
  assumes "election_step P ev s t" "led s T"
  shows "led t T"
  using assms by (cases "term_m t = term_m s"; cases "state_m t") (auto simp: led_def election_step_def)

text \<open>It stays primary and is not answered by the member.\<close>

lemma sender_serves:
  assumes l: "link_of s f v w q r" and t: "state_m t = primary" "term_m t = term_m s"
    and g: "log_of (entries_m t) = log_of (entries_m s) @ zs" and sv: "serves P w s t xs" and P: "pb_law P"
    and q: "\<And>ae. ae \<in> set q \<Longrightarrow> ae_term ae \<le> term_m s"
  shows "link_of t f v w (q @ map (parse_ae P) (aes_to w xs)) r"
proof -
  let ?n = "at0 (nextIndex_m s) w"
  have e: "at0 (nextIndex_m t) w = ?n" "at0 (Follower_saved_index_m t) w = at0 (Follower_saved_index_m s) w"
    using sv by (simp_all add: serves_def)
  consider "aes_to w xs = []" "at0 (current_rpc_lsn_m s) w \<le> at0 (current_rpc_lsn_m t) w" |
    c where "aes_to w xs = [ser_ae P (ae_at s w ?n c)]" "at0 (current_rpc_lsn_m s) w < at0 (current_rpc_lsn_m t) w"
    using sv by (auto simp: serves_def)
  then show ?thesis
  proof cases
    case 1
    then show ?thesis using link_primary [OF l [unfolded link_of_def] 1(2), of zs] by (simp add: link_of_def e t g)
  next
    case 2
    let ?ae = "ae_at s w ?n c"
    have "link_inv (term_m s) (log_of (entries_m s)) (at0 (current_rpc_lsn_m t) w) ?n (at0 (Follower_saved_index_m s) w)
        (term_m f) (log_of (entries_m f)) (at0 (follower_rpc_lsn_m f) v) (q @ [?ae]) r"
      by (rule link_send [OF l [unfolded link_of_def] 2(2)]) (use q in \<open>simp_all add: ae_at_def\<close>)
    from link_primary [OF this order.refl, of zs]
    have "link_of t f v w (q @ [?ae]) r" by (simp add: link_of_def e t g)
    then show ?thesis using P by (simp add: 2(1))
  qed
qed

text \<open>It handles an answer of the member to a request of this term.\<close>

lemma sender_answered:
  assumes l: "link_of s f v w q (a # r)" and t: "state_m t = primary" "term_m t = term_m s"
    and e: "ack_effect P w a s t" "deal_rest w s t" "deal_frame w (rae_ok a) s t"
    and xs: "sent s t (map (\<lambda>(w, x). (w, wire x)) xs)" "short xs" and P: "pb_law P"
    and q: "\<And>ae. ae \<in> set q \<Longrightarrow> ae_term ae \<le> term_m s" and sz: "Entries_size (entries_m s) = int (length (log_of (entries_m s)))"
  shows "link_of t f v w (q @ map (parse_ae P) (aes_to w xs)) r"
proof -
  let ?n = "at0 (nextIndex_m s) w" and ?L = "at0 (current_rpc_lsn_m s) w" and ?L' = "at0 (current_rpc_lsn_m t) w"
  let ?G = "log_of (entries_m s)"
  have g: "entries_m t = entries_m s" "?L \<le> ?L'" "\<not> rae_ok a \<Longrightarrow> at0 (Follower_saved_index_m t) w = at0 (Follower_saved_index_m s) w"
    using e(2,3) by (simp_all add: deal_frame_def deal_rest_def del: split_paired_All)
  note l' = l [unfolded link_of_def]
  have none: "aes_to w xs = []" if "sent s t []" using sent_same_messages [OF xs, of "[]"] that by simp
  have one: "aes_to w xs = [ser_ae P (ae_at s w n c)] \<and> ?L < ?L'" if "sends_ae P w n c s t" for n c
    using that sent_one_message [OF xs, of w "(APPEND_ENTRY, ser_ae P (ae_at s w n c))"] by (simp add: sends_ae_def)
  show ?thesis
  proof (cases "?L = rae_lsn a + 1")
    case False
    then have f: "sent s t []" "log_frame s t" using e(1) by (simp_all add: ack_effect_def Let_def)
    from link_primary [OF link_lose_answer [OF l'] g(2), of "[]"] none [OF f(1)]
    show ?thesis using f(2) t by (simp add: link_of_def log_frame_def)
  next
    case True
    then have a: "rae_lsn a = ?L - 1" by simp
    show ?thesis
    proof (cases "rae_ok a")
      case ok: True
      define n' where "n' = (if ?n < int (length ?G) \<and> \<not> rae_is_empty_ae a then ?n + 1 else ?n)"
      have m: "at0 (nextIndex_m t) w = n'" "at0 (Follower_saved_index_m t) w = n' - 1" "?n \<le> int (length ?G)"
        "if ?n = int (length ?G) then sent s t [] else sends_ae P w n' (commit_index_m t) s t"
        using e(1) [unfolded ack_effect_def Let_def sz, folded n'_def] True ok by (simp_all split: if_splits)
      show ?thesis
      proof (cases "?n = int (length ?G)")
        case last: True
        then have "n' = ?n" "aes_to w xs = []" using m(4) none by (simp_all add: n'_def)
        moreover have "link_inv (term_m s) ?G ?L n' (n' - 1) (term_m f) (log_of (entries_m f)) (at0 (follower_rpc_lsn_m f) v) (q @ []) r"
          by (rule link_acked [OF l' a ok n'_def _ q]) (use \<open>n' = ?n\<close> in simp_all)
        from link_primary [OF this g(2), of "[]"]
        have "link_inv (term_m s) ?G ?L' n' (n' - 1) (term_m f) (log_of (entries_m f)) (at0 (follower_rpc_lsn_m f) v) q r" by simp
        ultimately show ?thesis by (simp add: link_of_def t m(1,2) g(1))
      next
        case False
        then have s: "aes_to w xs = [ser_ae P (ae_at s w n' (commit_index_m t))]" "?L < ?L'" using m(4) one by simp_all
        have "link_inv (term_m s) ?G ?L' n' (n' - 1) (term_m f) (log_of (entries_m f)) (at0 (follower_rpc_lsn_m f) v)
            (q @ [ae_at s w n' (commit_index_m t)]) r"
          by (rule link_acked [OF l' a ok n'_def _ q]) (use s(2) in \<open>simp_all add: ae_at_def\<close>)
        then show ?thesis using P by (simp add: link_of_def t m(1,2) g(1) s(1))
      qed
    next
      case no: False
      then have m: "at0 (nextIndex_m t) w = ?n - 1" "0 < ?n" "sends_ae P w (?n - 1) (commit_index_m t) s t"
        using e(1) True no by (auto simp: ack_effect_def Let_def)
      note s = one [OF m(3)]
      have "link_inv (term_m s) ?G ?L' (?n - 1) (at0 (Follower_saved_index_m s) w) (term_m f) (log_of (entries_m f))
          (at0 (follower_rpc_lsn_m f) v) (q @ [ae_at s w (?n - 1) (commit_index_m t)]) r"
        by (rule link_refused [OF l' a no m(2) _ _ _ _ q]) (use s in \<open>simp_all add: ae_at_def\<close>)
      then show ?thesis using P s by (simp add: link_of_def t m(1) g(1) g(3) [OF no])
    qed
  qed
qed

text \<open>It becomes primary.\<close>

lemma sender_starts:
  assumes p: "pair_inv leader v w s f q rs" and s: "state_m s \<noteq> primary" "starts P s t" "addr_of s = v"
    and w: "w \<in> set (configuration_m s)" "w \<noteq> v" and t: "term_m t = term_m s"
    and xs: "sent s t (map (\<lambda>(w, x). (w, wire x)) xs)" "short xs" and P: "pb_law P"
    and f: "\<And>a. a \<in> set rs \<Longrightarrow> rae_term a \<le> term_m f"
    and sz: "Entries_size (entries_m s) = int (length (log_of (entries_m s)))"
  shows "link_of t f v w (q @ map (parse_ae P) (aes_to w xs)) (in_term (term_m s) rs)"
proof -
  note i = pair_invD [OF p]
  obtain ys where ys: "sent s t (map (\<lambda>(w, x). (w, wire x)) ys)" "\<forall>(w, x) \<in> set ys. fst x \<noteq> ERROR"
    "at0 (nextIndex_m t) w = Entries_size (entries_m s)" "at0 (Follower_saved_index_m t) w = -1"
    "\<forall>m \<in> set (aes_to w ys). \<exists>ae. m = ser_ae P ae \<and> ae_term ae = term_m s \<and>
           ae_lsn ae < at0 (current_rpc_lsn_m t) w \<and> ae_prelog_index ae = Entries_size (entries_m s) - 1"
    using s(2) w unfolding starts_def s(3) by blast
  have y: "ys = xs" by (rule sent_same_messages [OF xs ys(1,2)])
  have e: "entries_m t = entries_m s" using s(2) by (simp add: starts_def)
  have "link_inv (term_m s) (log_of (entries_m s)) (at0 (current_rpc_lsn_m t) w) (int (length (log_of (entries_m s)))) (-1)
      (term_m f) (log_of (entries_m f)) (at0 (follower_rpc_lsn_m f) v) (q @ map (parse_ae P) (aes_to w xs)) (in_term (term_m s) rs)"
  proof (rule link_start [OF i(3)])
    show "ae_term ae < term_m s" if "ae \<in> set q" for ae using i(2) [OF that] s(1) by (simp add: led_def)
    show "\<not> rae_ok a" if "a \<in> set (in_term (term_m s) rs)" for a using i(4) [of a] that s(1) by (auto simp: led_def)
    show "in_term (term_m s) rs = []" if "term_m f < term_m s" using f that by (force simp: filter_empty_conv)
    show "ae_term ae = term_m s \<and> ae_lsn ae < at0 (current_rpc_lsn_m t) w \<and>
        ae_prelog_index ae = int (length (log_of (entries_m s))) - 1" if "ae \<in> set (map (parse_ae P) (aes_to w xs))" for ae
      using ys(5) that P sz unfolding y by auto
  qed
  then show ?thesis by (simp add: link_of_def ys(3,4) t e sz)
qed

text \<open>It stays primary.\<close>

lemma sender_keeps:
  assumes p: "pair_inv leader v w s f q rs" and P: "pb_law P" and i: "raft_inv P m0 s" "has_room s" "addr_of s = v"
    and w: "w \<in> set (configuration_m s)" "w \<noteq> v" and ev: "orderly A ev s" "server_step P A ev s = Ok t"
    and s: "state_m s = primary" and t: "state_m t = primary" "term_m t = term_m s"
    and xs: "sent s t (map (\<lambda>(w, x). (w, wire x)) xs)" "short xs"
  shows "\<not> answered P (term_m s) ev w \<Longrightarrow>
      link_of t f v w (q @ map (parse_ae P) (aes_to w xs)) (in_term (term_m s) rs)"
    and "answered P (term_m s) ev w \<Longrightarrow> ev = Incoming RESP_APPEND m peer \<Longrightarrow>
      in_term (term_m s) rs = parse_resp_ae P m # r \<Longrightarrow> link_of t f v w (q @ map (parse_ae P) (aes_to w xs)) r"
proof -
  have l: "link_of s f v w q (in_term (term_m s) rs)" using pair_invD(5) [OF p s] .
  have q: "ae_term ae \<le> term_m s" if "ae \<in> set q" for ae using pair_invD(2) [OF p that] by (auto simp: led_def)
  have ls: "log_change P ev s t" using okpD [OF server_step_log [OF P i(1,2) ev(1)] ev(2)] by simp
  have "\<exists>zs. log_of (entries_m t) = log_of (entries_m s) @ zs"
  proof (cases ev)
    case (Incoming ty m peer)
    then show ?thesis using ls t(1) by (cases ty) auto
  qed (use ls in auto)
  then obtain zs where g: "log_of (entries_m t) = log_of (entries_m s) @ zs" by blast
  {
    assume a: "\<not> answered P (term_m s) ev w"
    have "serves_all P (answered P (term_m s) ev) s t" using okpD [OF primary_serves [OF i(1,2) s] ev(2)] t by simp
    then obtain ys where ys: "sent s t (map (\<lambda>(w, x). (w, wire x)) ys)" "\<forall>(w, x) \<in> set ys. fst x \<noteq> ERROR" "serves P w s t ys"
      unfolding serves_all_def using a w(2) i(3) by blast
    have "ys = xs" by (rule sent_same_messages [OF xs ys(1,2)])
    with sender_serves [OF l t g ys(3) P q]
    show "link_of t f v w (q @ map (parse_ae P) (aes_to w xs)) (in_term (term_m s) rs)" by simp
  }
  {
    assume a: "answered P (term_m s) ev w" "ev = Incoming RESP_APPEND m peer" "in_term (term_m s) rs = parse_resp_ae P m # r"
    then have m: "rae_term (parse_resp_ae P m) = term_m s" "w = (rae_ip (parse_resp_ae P m), rae_port (parse_resp_ae P m))" by auto
    have "ack_effect P w (parse_resp_ae P m) s t \<and> deal_rest w s t \<and> deal_frame w (rae_ok (parse_resp_ae P m)) s t"
      using okpD [OF answer_effect [OF i(1) s m] ev(2) [unfolded a(2)]] .
    then show "link_of t f v w (q @ map (parse_ae P) (aes_to w xs)) r"
      using sender_answered [OF l [unfolded a(3)] t _ _ _ xs P q raft_inv_log(2) [OF i(1)]] by blast
  }
qed

text \<open>The link after any of its steps that leaves it primary.\<close>

lemma sender_link:
  assumes p: "pair_inv leader v w s f q rs" and P: "pb_law P" and i: "raft_inv P m0 s" "has_room s" "addr_of s = v"
    and w: "w \<in> set (configuration_m s)" "w \<noteq> v"
    and ev: "orderly A ev s" "server_step P A ev s = Ok t" and t: "state_m t = primary" "term_m t = term_m s"
    and xs: "sent s t (map (\<lambda>(w, x). (w, wire x)) xs)" "short xs"
    and rs: "if \<exists>T. answered P T ev w then \<exists>m peer. ev = Incoming RESP_APPEND m peer \<and> rs = parse_resp_ae P m # rs' else rs' = rs"
    and f: "\<And>a. a \<in> set rs \<Longrightarrow> rae_term a \<le> term_m f"
  shows "link_of t f v w (q @ map (parse_ae P) (aes_to w xs)) (in_term (term_m t) rs')"
proof (cases "state_m s = primary")
  case True
  note k = sender_keeps [OF p P i w ev True t xs]
  show ?thesis
  proof (cases "answered P (term_m s) ev w")
    case True
    then obtain m peer where m: "ev = Incoming RESP_APPEND m peer" "rs = parse_resp_ae P m # rs'"
      "rae_term (parse_resp_ae P m) = term_m s"
      using rs by (auto split: if_splits)
    from k(2) [OF True m(1)] m(2,3) show ?thesis by (simp add: t(2))
  next
    case False
    then have "in_term (term_m s) rs' = in_term (term_m s) rs" using rs by (cases ev) (auto split: if_splits)
    with k(1) [OF False] show ?thesis by (simp add: t(2))
  qed
next
  case False
  have e: "election_step P ev s t" using okpD [where Q = "election_step P ev s", OF server_step_election ev(2)] .
  with False have c: "state_m s = candidate" using t by (auto simp: election_step_def)
  have na: "rs' = rs"
    using rs e c t by (cases ev) (auto simp: election_step_def split: if_splits)
  have "starts P s t" using okpD [OF candidate_starts [OF i(1) c i(2)] ev(2)] t(1) by simp
  from sender_starts [OF p False this i(3) w t(2) xs P f raft_inv_log(2) [OF i(1)]]
  show ?thesis by (simp add: na t(2))
qed

text \<open>All its steps.\<close>

lemma sender_step:
  assumes p: "pair_inv leader v w s f q rs" and P: "pb_law P" and i: "raft_inv P m0 s" "has_room s" "addr_of s = v"
    and w: "w \<in> set (configuration_m s)" "w \<noteq> v"
    and ev: "orderly A ev s" "server_step P A ev s = Ok t" and el: "state_m t = primary \<Longrightarrow> leader (term_m t) = v"
    and xs: "sent s t (map (\<lambda>(w, x). (w, wire x)) xs)" "short xs"
    and rs: "if \<exists>T. answered P T ev w then \<exists>m peer. ev = Incoming RESP_APPEND m peer \<and> rs = parse_resp_ae P m # rs' else rs' = rs"
    and f: "\<And>a. a \<in> set rs \<Longrightarrow> rae_term a \<le> term_m f"
  shows "pair_inv leader v w t f (q @ map (parse_ae P) (aes_to w xs)) rs'"
proof -
  note j = pair_invD [OF p]
  let ?p = "map (parse_ae P) (aes_to w xs)"
  have e: "election_step P ev s t" using okpD [where Q = "election_step P ev s", OF server_step_election ev(2)] .
  have ls: "log_change P ev s t" "says P s t" using okpD [OF server_step_log [OF P i(1,2) ev(1)] ev(2)] by simp_all
  obtain ys where ys: "sent s t (map (\<lambda>(w, x). (w, wire x)) ys)" "\<forall>(w, x) \<in> set ys. says_log P t x"
    and pt: "state_m t = primary \<Longrightarrow> term_m t = term_m s" using ls(2) by (auto simp: says_def)
  have "\<forall>(w, x) \<in> set ys. fst x \<noteq> ERROR" using ys(2) by (auto simp: says_log_def)
  then have "ys = xs" by (rule sent_same_messages [OF xs ys(1)])
  then have new: "state_m t = primary \<and> ae_term ae = term_m t" if "ae \<in> set ?p" for ae
    using ys(2) that by (fastforce simp: aes_to_def says_log_def)
  have led: "led t T" if "led s T" for T using led_step [OF e that] .
  have le: "T \<le> term_m s" if "led s T" for T using that by (auto simp: led_def)
  have lt: "term_m s \<le> term_m t" using e by (simp add: election_step_def)
  have sub: "set rs' \<subseteq> set rs" using rs by (auto split: if_splits)
  have link: "link_of t f v w (q @ ?p) (in_term (term_m t) rs')" if "state_m t = primary"
    by (rule sender_link [OF p P i w ev that pt [OF that] xs rs f])
  show ?thesis
    unfolding pair_inv_def
  proof (intro conjI ballI impI)
    fix ae assume "ae \<in> set (q @ ?p)"
    then show "leader (ae_term ae) = v" "led t (ae_term ae)"
      using j(1,2) [of ae] led new [of ae] el by (auto simp: led_def)
  next
    have "ae_term a \<le> ae_term b" if "a \<in> set q" "b \<in> set ?p" for a b
      using le [OF j(2) [OF that(1)]] new [OF that(2)] lt by simp
    moreover have "sorted (map ae_term ?p)" by (rule sorted_equal [where c = "term_m t"]) (use new in blast)
    ultimately show "sorted (map ae_term (q @ ?p))" using j(3) unfolding map_append sorted_append by auto
  next
    fix a assume "a \<in> set rs'" "rae_ok a"
    then show "led t (rae_term a)" using j(4) [of a] sub led by blast
  qed (rule link)
qed

section \<open>A step of the member\<close>

text \<open>The check of the receiver passes if and only if its log agrees with the sender's up to the request.\<close>

lemma piece_agrees:
  assumes "log_matching G W" "piece_of G ae"
  shows "log_matches ae W \<longleftrightarrow> agree (ae_prelog_index ae + 1) W G"
proof (cases "ae_prelog_index ae = -1")
  case True
  then show ?thesis by (simp add: log_matches_def)
next
  case False
  define k where "k = nat (ae_prelog_index ae)"
  have k: "ae_prelog_index ae = int k" "k < length G" "ae_prelog_term ae = en_term (G ! k)"
    using assms(2) False by (auto simp: piece_of_def k_def)
  have m: "log_matches ae W \<longleftrightarrow> k < length W \<and> en_term (W ! k) = en_term (G ! k)" using k by (auto simp: log_matches_def)
  have n: "nat (int k + 1) = Suc k" by simp
  have "k < length W \<and> W ! k = G ! k" if e: "take (Suc k) W = take (Suc k) G"
  proof
    show "k < length W" using arg_cong [OF e, of length] k(2) by (simp add: min_def split: if_splits)
    show "W ! k = G ! k" using arg_cong [OF e, of "\<lambda>xs. xs ! k"] by simp
  qed
  then show ?thesis using assms(1) k(2) unfolding m by (auto simp: agree_def k(1) n log_matching_def)
qed

lemma piece_taken:
  assumes "log_matching G W" "piece_of G ae" "log_matches ae W" "ae_entry ae \<noteq> []"
  shows "ae_prelog_index ae + 1 < int (length G)" "agree (ae_prelog_index ae + 2) (log_after ae W) G"
proof -
  define n where "n = nat (ae_prelog_index ae + 1)"
  have n: "ae_prelog_index ae + 1 = int n" "n < length G" "ae_entry ae = [G ! n]"
    using assms(2,4) by (auto simp: piece_of_def n_def)
  then show "ae_prelog_index ae + 1 < int (length G)" by simp
  have "take n W = take n G" using piece_agrees [OF assms(1,2)] assms(3) n(1) by (simp add: agree_def)
  then have "log_after ae W = take (Suc n) G"
    using n by (simp add: log_after_def n_def [symmetric] take_Suc_conv_app_nth)
  moreover have "nat (ae_prelog_index ae + 2) = Suc n" using n(1) by simp
  ultimately show "agree (ae_prelog_index ae + 2) (log_after ae W) G" by (simp add: agree_def)
qed

text \<open>It reads a request of the primary's term that is new to it.\<close>

lemma member_reads:
  assumes l: "link_of s f v w (ae # q) r" and T: "ae_term ae = term_m s" "term_m f \<le> term_m s"
    and g: "term_m g = ae_term ae" "at0 (follower_rpc_lsn_m g) = lsn_after f (ae_term ae) v (ae_lsn ae)"
    and new: "\<not> ae_lsn ae \<le> seen_lsn f (ae_term ae) v"
    and W: "log_of (entries_m g) = (if log_matches ae (log_of (entries_m f)) then log_after ae (log_of (entries_m f)) else log_of (entries_m f))"
    and a: "rae_ok a \<longleftrightarrow> log_matches ae (log_of (entries_m f))" "rae_lsn a = ae_lsn ae" "rae_is_empty_ae a \<longleftrightarrow> ae_entry ae = []"
    and m: "log_matching (log_of (entries_m s)) (log_of (entries_m f))" "piece_of (log_of (entries_m s)) ae"
  shows "link_of s g v w q (r @ [a])"
proof -
  let ?G = "log_of (entries_m s)" and ?W = "log_of (entries_m f)" and ?i = "ae_prelog_index ae"
  have "read_effect ?G ae ?W (log_of (entries_m g)) a"
  proof (cases "log_matches ae ?W")
    case True
    show ?thesis
    proof (cases "ae_entry ae = []")
      case True
      then show ?thesis
        using piece_agrees [OF m] \<open>log_matches ae ?W\<close> a W by (simp add: read_effect_def log_after_def)
    next
      case False
      note t = piece_taken [OF m \<open>log_matches ae ?W\<close> False]
      then show ?thesis
        using a W \<open>log_matches ae ?W\<close> False agree_less [OF t(2), of "?i + 1"] by (simp add: read_effect_def)
    qed
  next
    case False
    then show ?thesis using piece_agrees [OF m] a W by (simp add: read_effect_def)
  qed
  moreover have "at0 (follower_rpc_lsn_m f) v < ae_lsn ae" if "term_m f = term_m s"
    using new that T(1) by (simp add: seen_lsn_def)
  moreover have "at0 (follower_rpc_lsn_m g) v = ae_lsn ae" using g(2) new by (simp add: lsn_after_def)
  ultimately show ?thesis
    using link_read [OF l [unfolded link_of_def] T(1,2)] by (simp add: link_of_def g(1) T(1))
qed

text \<open>It changes without reading a request of \<open>v\<close>.\<close>

lemma member_other:
  assumes p: "pair_inv leader v w s f q rs" and g: "term_m f \<le> term_m g"
    and k: "state_m s = primary \<Longrightarrow> term_m g = term_m s \<Longrightarrow> log_of (entries_m g) = log_of (entries_m f)"
      "state_m s = primary \<Longrightarrow> term_m g = term_m s \<Longrightarrow> term_m f = term_m s \<Longrightarrow>
        at0 (follower_rpc_lsn_m f) v \<le> at0 (follower_rpc_lsn_m g) v"
  shows "pair_inv leader v w s g q rs"
proof -
  note i = pair_invD [OF p]
  have "link_of s g v w q (in_term (term_m s) rs)" if "state_m s = primary"
    unfolding link_of_def by (rule link_member [OF i(5) [OF that, unfolded link_of_def] g]) (rule k [OF that]; assumption)+
  then show ?thesis using i(1-4) by (simp add: pair_inv_def)
qed

text \<open>Its answer to an AppendEntries, if it gives one.\<close>

definition reply_to :: "'t RaftServer \<Rightarrow> AppendEntryRpc \<Rightarrow> bool \<Rightarrow> Resp_AppendEntryRpc" where
  "reply_to f ae b = \<lparr>rae_ok = b, rae_term = max (term_m f) (ae_term ae), rae_lsn = ae_lsn ae, rae_ip = ip_m f,
     rae_port = port_m f, rae_is_empty_ae = (ae_entry ae = [])\<rparr>"

lemma replies_ae:
  assumes "ae_effect P ae f g" "sent f g (map (\<lambda>(w, x). (w, wire x)) xs)" "short xs"
  shows "xs = (if term_m f \<le> ae_term ae \<and> ae_lsn ae \<le> seen_lsn f (ae_term ae) (ae_ip ae, ae_port ae) then []
    else [((ae_ip ae, ae_port ae), RESP_APPEND,
      ser_resp_ae P (reply_to f ae (term_m f \<le> ae_term ae \<and> log_matches ae (log_of (entries_m f)))))])"
proof -
  have one: "xs = [((ae_ip ae, ae_port ae), RESP_APPEND, ser_resp_ae P (reply_to f ae b))]" if "sent f g [ae_reply P f ae b]" for b
    by (rule sent_one_message [OF assms(2,3)]) (use that in \<open>simp_all add: ae_reply_def reply_to_def\<close>)
  have none: "xs = []" if "sent f g []" using sent_same_messages [OF assms(2,3), of "[]"] that by simp
  show ?thesis using assms(1) one none by (auto simp: ae_effect_def split: if_splits)
qed

text \<open>The link after it has read a request that it answers.\<close>

lemma member_link:
  assumes l: "link_of s f v w (ae # q) (in_term (term_m s) rs)" and v: "(ae_ip ae, ae_port ae) = v"
    and e: "ae_effect P ae f g" and h: "ae_term ae < term_m f \<Longrightarrow> hears f g"
    and u: "ae_term ae < term_m f \<or> \<not> ae_lsn ae \<le> seen_lsn f (ae_term ae) v"
    and m: "log_matching (log_of (entries_m s)) (log_of (entries_m f))"
      "ae_term ae = term_m s \<Longrightarrow> piece_of (log_of (entries_m s)) ae"
  shows "link_of s g v w q (in_term (term_m s)
    (rs @ [reply_to f ae (term_m f \<le> ae_term ae \<and> log_matches ae (log_of (entries_m f)))]))"
proof -
  let ?old = "ae_term ae < term_m f" and ?seen = "ae_lsn ae \<le> seen_lsn f (ae_term ae) v"
  let ?a = "reply_to f ae (term_m f \<le> ae_term ae \<and> log_matches ae (log_of (entries_m f)))"
  have le: "term_m f \<le> term_m g" using e by (auto simp: ae_effect_def vote_frame_def split: if_splits)
  show ?thesis
  proof (cases "rae_term ?a = term_m s")
    case T: True
    show ?thesis
    proof (cases ?old)
      case True
      then have f: "term_m f = term_m s" "term_m g = term_m f" "log_of (entries_m g) = log_of (entries_m f)" "hears f g"
        using T e h by (auto simp: reply_to_def ae_effect_def log_frame_def vote_frame_def)
      have "link_of s f v w q (in_term (term_m s) rs @ [?a])"
        using link_read_old [OF l [unfolded link_of_def], of ?a] True f(1) by (simp add: link_of_def reply_to_def)
      moreover have "at0 (follower_rpc_lsn_m f) v \<le> at0 (follower_rpc_lsn_m g) v" using f(2,4) unfolding hears_def by blast
      ultimately show ?thesis
        using link_member [OF _ le, of "term_m s"] f(1-3) T unfolding link_of_def by simp
    next
      case False
      then have n: "\<not> ?seen" "ae_term ae = term_m s" using u T by (auto simp: reply_to_def)
      have g: "term_m g = ae_term ae" "at0 (follower_rpc_lsn_m g) = lsn_after f (ae_term ae) v (ae_lsn ae)"
        "log_of (entries_m g) = (if log_matches ae (log_of (entries_m f)) then log_after ae (log_of (entries_m f)) else log_of (entries_m f))"
        using e False n by (auto simp: ae_effect_def accepted_def log_frame_def v split: if_splits)
      have "link_of s g v w q (in_term (term_m s) rs @ [?a])"
        by (rule member_reads [OF l n(2) _ g(1,2) n(1) g(3) _ _ _ m(1) m(2) [OF n(2)]])
          (use False n in \<open>auto simp: reply_to_def\<close>)
      then show ?thesis using T by simp
    qed
  next
    case no: False
    have l': "link_of s f v w q (in_term (term_m s) rs)"
      using l by (auto simp: link_of_def intro: link_lose_request)
    have g: "term_m g \<noteq> term_m s"
      using no e by (auto simp: reply_to_def ae_effect_def vote_frame_def split: if_splits)
    have "link_of s g v w q (in_term (term_m s) rs)"
      unfolding link_of_def by (rule link_member [OF l' [unfolded link_of_def] le]) (use g in blast)+
    then show ?thesis using no by simp
  qed
qed

text \<open>It reads a request of \<open>v\<close>.\<close>

lemma member_reads_request:
  assumes p: "pair_inv leader v w s f (ae # q) rs" and P: "pb_law P" and v: "(ae_ip ae, ae_port ae) = v"
    and e: "ae_effect P ae f g" and h: "ae_term ae < term_m f \<Longrightarrow> hears f g"
    and xs: "sent f g (map (\<lambda>(w, x). (w, wire x)) xs)" "short xs"
    and m: "state_m s = primary \<Longrightarrow> log_matching (log_of (entries_m s)) (log_of (entries_m f))"
      "state_m s = primary \<Longrightarrow> ae_term ae = term_m s \<Longrightarrow> piece_of (log_of (entries_m s)) ae"
  shows "pair_inv leader v w s g q (rs @ answers P (to_member v xs))"
proof -
  note i = pair_invD [OF p]
  let ?old = "ae_term ae < term_m f" and ?seen = "ae_lsn ae \<le> seen_lsn f (ae_term ae) v"
  let ?ok = "term_m f \<le> ae_term ae \<and> log_matches ae (log_of (entries_m f))"
  let ?a = "reply_to f ae ?ok"
  have ans: "answers P (to_member v xs) = (if \<not> ?old \<and> ?seen then [] else [?a])"
    unfolding replies_ae [OF e xs] v using P by (auto simp: to_member_def)
  have le: "term_m f \<le> term_m g" using e by (auto simp: ae_effect_def vote_frame_def split: if_splits)
  have led: "led s (ae_term ae)" by (rule i(2)) simp
  show ?thesis
  proof (cases "?old \<or> \<not> ?seen")
    case False
    then have "log_frame f g" "term_m g = ae_term ae" "at0 (follower_rpc_lsn_m g) = lsn_after f (ae_term ae) v (ae_lsn ae)"
      using e by (auto simp: ae_effect_def v split: if_splits)
    then show ?thesis
      unfolding ans using False
      by (auto intro!: member_other [OF pair_lose_request [OF p] le] simp: log_frame_def lsn_after_def seen_lsn_def)
  next
    case True
    then have ans: "answers P (to_member v xs) = [?a]" by (auto simp: ans)
    have ok: "led s (rae_term ?a)" if "rae_ok ?a" using that led by (simp add: reply_to_def max_def)
    have link: "link_of s g v w q (in_term (term_m s) (rs @ [?a]))" if s: "state_m s = primary"
      by (rule member_link [OF i(5) [OF s] v e h True m(1) [OF s] m(2) [OF s]])
    show ?thesis
      unfolding ans pair_inv_def using i(1-4) ok link by (auto simp: sorted_simps)
  qed
qed

lemma speaks_plain_answers:
  assumes "speaks plain f g" "sent f g (map (\<lambda>(w, x). (w, wire x)) xs)" "short xs"
  shows "answers P (to_member v xs) = []"
proof -
  obtain ys where ys: "sent f g (map (\<lambda>(w, x). (w, wire x)) ys)" "\<forall>(w, x) \<in> set ys. fst x \<in> plain"
    using assms(1) unfolding speaks_def by blast
  have "ys = xs" by (rule sent_same_messages [OF assms(2,3) ys(1)]) (use ys(2) in auto)
  with ys(2) show ?thesis by (auto simp: answers_def to_member_def filter_empty_conv)
qed

text \<open>All its steps.\<close>

lemma member_step:
  assumes p: "pair_inv leader v w s f q rs" and P: "pb_law P" and i: "raft_inv P m0 f" "has_room f" and vw: "w \<noteq> v"
    and ev: "orderly A ev f" "server_step P A ev f = Ok g"
    and lead: "state_m s = primary \<Longrightarrow> leader (term_m s) = v" "state_m f = primary \<Longrightarrow> leader (term_m f) = w"
    and xs: "sent f g (map (\<lambda>(w, x). (w, wire x)) xs)" "short xs"
    and q: "\<And>m peer. ev = Incoming APPEND_ENTRY m peer \<Longrightarrow>
       (let ae = parse_ae P m; u = (ae_ip ae, ae_port ae) in leader (ae_term ae) = u \<and> q = (if u = v then ae # q' else q'))"
      "\<not> (\<exists>m peer. ev = Incoming APPEND_ENTRY m peer) \<Longrightarrow> q = q'"
    and m: "state_m s = primary \<Longrightarrow> log_matching (log_of (entries_m s)) (log_of (entries_m f))"
      "\<And>ae. state_m s = primary \<Longrightarrow> ae \<in> set q \<Longrightarrow> ae_term ae = term_m s \<Longrightarrow> piece_of (log_of (entries_m s)) ae"
  shows "pair_inv leader v w s g q' (rs @ answers P (to_member v xs))"
proof -
  have e: "election_step P ev f g" using okpD [where Q = "election_step P ev f", OF server_step_election ev(2)] .
  then have le: "term_m f \<le> term_m g" by (simp add: election_step_def)
  have ls: "log_change P ev f g" using okpD [OF server_step_log [OF P i ev(1)] ev(2)] by simp
  show ?thesis
  proof (cases "\<exists>m peer. ev = Incoming APPEND_ENTRY m peer")
    case True
    then obtain msg peer where ae: "ev = Incoming APPEND_ENTRY msg peer" by blast
    let ?ae = "parse_ae P msg"
    let ?u = "(ae_ip ?ae, ae_port ?ae)"
    have r: "react2ae P A ?ae f = Ok g" using ev(2) ae by (simp add: reactToIncomingMsg_def)
    have fx: "ae_effect P ?ae f g" using okpD [OF react2ae_effect [OF raft_inv_log(1) [OF i(1)] i(2) raft_inv_log(5) [OF i(1)]] r] .
    have h: "hears f g" if "ae_term ?ae < term_m f" using okpD [OF react2ae_old_calm [OF i(1) that] r] by (simp add: calm_def)
    show ?thesis
    proof (cases "?u = v")
      case u: True
      then have "q = ?ae # q'" using q(1) [OF ae] by (simp add: Let_def)
      with member_reads_request [OF p [unfolded \<open>q = ?ae # q'\<close>] P u fx h xs m(1)] m(2) show ?thesis by simp
    next
      case u: False
      then have l: "leader (ae_term ?ae) = ?u" "q = q'" using q(1) [OF ae] by (auto simp: Let_def)
      have "answers P (to_member v xs) = []" unfolding replies_ae [OF fx xs] using u by (simp add: to_member_def)
      moreover have "term_m g = term_m s \<Longrightarrow> state_m s = primary \<Longrightarrow> ae_term ?ae < term_m f"
        using fx l(1) lead(1) u by (auto simp: ae_effect_def split: if_splits)
      then have "pair_inv leader v w s g q rs"
        using fx h by (intro member_other [OF p le]) (auto simp: ae_effect_def log_frame_def hears_def vote_frame_def simp del: split_paired_All)
      ultimately show ?thesis using l(2) by simp
    qed
  next
    case False
    have b: "speaks plain f g \<and> hears f g" by (rule okpD [OF member_hears [OF i(1)] ev(2)]) (use False in blast)
    have "log_of (entries_m g) = log_of (entries_m f)" if "state_m s = primary" "term_m g = term_m s"
    proof (cases ev)
      case (Incoming ty msg peer)
      then show ?thesis using ls ev(1) False lead that vw by (cases ty) auto
    qed (use ls in auto)
    then have "pair_inv leader v w s g q rs"
      by (rule member_other [OF p le]) (use b in \<open>auto simp: hears_def simp del: split_paired_All\<close>)
    then show ?thesis using q(2) [OF False] speaks_plain_answers [OF conjunct1 [OF b] xs] by simp
  qed
qed

end
