(* ===== verification/Raft_Saved.thy ===== *)
theory Raft_Saved
  imports Raft_Pairs
begin

text \<open>
  What a primary believes saved is saved: \<open>pair_inv\<close> holds for every two members in all runs in which the logs
  match (\<open>Raft_Votes\<close>), so \<open>Follower_saved_index\<close> is never more than the member really has, and a commit index
  stands for entries that a majority holds.
\<close>

section \<open>The cluster\<close>

definition saved_inv :: "(int \<Rightarrow> endpoint) \<Rightarrow> pb \<Rightarrow> endpoint list \<Rightarrow> 't cluster \<Rightarrow> bool" where
  "saved_inv leader P cfg x \<longleftrightarrow>
     (\<forall>v w. \<forall>ae \<in> set (appends P (channel P v w (snd x))). leader (ae_term ae) = v) \<and>
     (\<forall>v \<in> set cfg. \<forall>w \<in> set cfg. w \<noteq> v \<longrightarrow>
        pair_inv leader v w (fst x v) (fst x w) (appends P (channel P v w (snd x))) (answers P (channel P w v (snd x))))"

lemma saved_invI:
  assumes "\<And>v w ae. ae \<in> set (appends P (channel P v w net)) \<Longrightarrow> leader (ae_term ae) = v"
    and "\<And>v w. v \<in> set cfg \<Longrightarrow> w \<in> set cfg \<Longrightarrow> w \<noteq> v \<Longrightarrow>
      pair_inv leader v w (\<sigma> v) (\<sigma> w) (appends P (channel P v w net)) (answers P (channel P w v net))"
  shows "saved_inv leader P cfg (\<sigma>, net)"
  using assms unfolding saved_inv_def fst_conv snd_conv by blast

lemma saved_invD:
  assumes "saved_inv leader P cfg (\<sigma>, net)"
  shows "ae \<in> set (appends P (channel P v w net)) \<Longrightarrow> leader (ae_term ae) = v"
    "v \<in> set cfg \<Longrightarrow> w \<in> set cfg \<Longrightarrow> w \<noteq> v \<Longrightarrow>
      pair_inv leader v w (\<sigma> v) (\<sigma> w) (appends P (channel P v w net)) (answers P (channel P w v net))"
  using assms unfolding saved_inv_def fst_conv snd_conv by blast+

lemma read_mem: "z \<in> set (if C then case r of None \<Rightarrow> [] | Some x \<Rightarrow> [x] else []) \<longleftrightarrow> C \<and> r = Some z"
proof (cases "C \<and> (\<exists>y. r = Some y)")
  case True
  then obtain y where "C" "r = Some y" by blast
  then show ?thesis by (auto simp only: if_True option.case list.set)
next
  case False
  then have "(if C then case r of None \<Rightarrow> [] | Some x \<Rightarrow> [x] else []) = []" by (cases r) simp_all
  with False show ?thesis by (auto simp only: list.set)
qed

lemma channel_mem: "x \<in> set (channel P v w net) \<Longrightarrow> \<exists>b. (v, w, b) \<in> set net \<and> read_in P b = Some x"
proof (induction net)
  case (Cons m net)
  obtain v' w' b where m: "m = (v', w', b)" by (rule prod_cases3)
  have "(v' = v \<and> w' = w) \<and> read_in P b = Some x \<or> x \<in> set (channel P v w net)"
    using Cons.prems unfolding m channel_simps set_append Un_iff read_mem .
  then show ?case using Cons.IH unfolding m by (metis list.set_intros)
qed simp

text \<open>What is known of the messages from \<open>v\<close> to \<open>w\<close>.\<close>

lemma channel_known:
  assumes "cluster_inv P m0 cfg (\<sigma>, net)" "short_messages (\<sigma>, net)" "traced_inv leader P cfg G (\<sigma>, net)"
    and "x \<in> set (channel P v w net)"
  shows "v \<in> set cfg" "msg_typed P v (term_m (\<sigma> v)) x" "follows P G x"
proof -
  obtain b where b: "(v, w, b) \<in> set net" "read_in P b = Some x" using channel_mem [OF assms(4)] by blast
  obtain y where y: "b = wire y" "follows P G y" using traced_invD(5) [OF assms(3) b(1)] by blast
  have "message_ok P cfg \<sigma> (v, w, b)" using assms(1) b(1) by (simp add: cluster_inv_def)
  then obtain z where z: "v \<in> set cfg" "b = wire z" "msg_typed P v (term_m (\<sigma> v)) z" by (auto simp: message_ok_def)
  have l: "length b < 5125" using assms(2) b(1) by (auto simp: short_messages_def)
  have "fst z \<noteq> ERROR" using z(3) by (cases "(P, v, term_m (\<sigma> v), z)" rule: msg_typed.cases) auto
  then have "read_in P b = Some z" using l unfolding z(2) by (intro read_in_wire short_fits)
  moreover have "read_in P b = Some y" using l y(2) unfolding y(1) by (intro read_in_wire short_fits) (auto simp: follows_def)
  ultimately show "v \<in> set cfg" "msg_typed P v (term_m (\<sigma> v)) x" "follows P G x" using b(2) y(2) z by simp_all
qed

lemma channel_append_known:
  assumes "cluster_inv P m0 cfg (\<sigma>, net)" "short_messages (\<sigma>, net)" "traced_inv leader P cfg G (\<sigma>, net)" "pb_law P"
    and "ae \<in> set (appends P (channel P v w net))"
  shows "piece_of (G (ae_term ae)) ae" "(ae_ip ae, ae_port ae) = v"
proof -
  obtain x where x: "x \<in> set (channel P v w net)" "fst x = APPEND_ENTRY" "ae = parse_ae P (snd x)"
    using assms(5) by (auto simp: appends_def)
  note k = channel_known [OF assms(1-3) x(1)]
  show "piece_of (G (ae_term ae)) ae" using k(3) x by (simp add: follows_def)
  show "(ae_ip ae, ae_port ae) = v" using k(2) x assms(4) by (cases x) auto
qed

lemma channel_answer_known:
  assumes "cluster_inv P m0 cfg (\<sigma>, net)" "short_messages (\<sigma>, net)" "traced_inv leader P cfg G (\<sigma>, net)" "pb_law P"
    and "a \<in> set (answers P (channel P w v net))"
  shows "rae_term a \<le> term_m (\<sigma> w)" "(rae_ip a, rae_port a) = w"
proof -
  obtain x where x: "x \<in> set (channel P w v net)" "fst x = RESP_APPEND" "a = parse_resp_ae P (snd x)"
    using assms(5) by (auto simp: answers_def)
  note k = channel_known [OF assms(1-3) x(1)]
  obtain m where "x = (RESP_APPEND, m)" using x(2) by (cases x) auto
  then show "rae_term a \<le> term_m (\<sigma> w)" "(rae_ip a, rae_port a) = w" using k(2) x(3) assms(4) by auto
qed

text \<open>The event at \<open>x\<close> is a message taken off the network, or it is not from the network.\<close>

definition taken :: "pb \<Rightarrow> endpoint \<Rightarrow> event \<Rightarrow> (endpoint \<times> endpoint \<times> string) list \<Rightarrow>
    (endpoint \<times> endpoint \<times> string) list \<Rightarrow> bool" where
  "taken P x ev net rest \<longleftrightarrow> (rest = net \<and> \<not> from_network ev) \<or>
     (\<exists>u z peer. ev = Incoming (fst z) (snd z) peer \<and> channel P u x net = z # channel P u x rest \<and>
        (\<forall>v w. (v, w) \<noteq> (u, x) \<longrightarrow> channel P v w rest = channel P v w net))"

lemma taken_next:
  assumes "next_message u x b net rest" "b = wire z" "wire_fits z" "ev = Incoming (fst z) (snd z) peer"
  shows "taken P x ev net rest"
  unfolding taken_def using assms channel_next [OF assms(1), where P = P] read_in_wire [OF assms(3), of P]
  by (intro disjI2 exI [of _ u] exI [of _ z] exI [of _ peer]) (auto simp del: split_paired_All)

lemma taken_local: "\<not> from_network ev \<Longrightarrow> taken P x ev net net"
  by (simp add: taken_def)

lemma taken_sub:
  assumes "taken P x ev net rest"
  shows "set (channel P v w rest) \<subseteq> set (channel P v w net)"
  using assms unfolding taken_def by (metis list.set_intros(2) prod.inject set_eq_subset subsetI)

lemma taken_other: "taken P x ev net rest \<Longrightarrow> w \<noteq> x \<Longrightarrow> channel P v w rest = channel P v w net"
  unfolding taken_def by blast

lemma taken_request:
  assumes "taken P x ev net rest" "\<And>u ae. ae \<in> set (appends P (channel P u x net)) \<Longrightarrow> leader (ae_term ae) = u \<and> (ae_ip ae, ae_port ae) = u"
  shows "ev = Incoming APPEND_ENTRY m peer \<Longrightarrow>
      (let ae = parse_ae P m; u = (ae_ip ae, ae_port ae) in leader (ae_term ae) = u \<and>
        appends P (channel P v x net) = (if u = v then ae # appends P (channel P v x rest) else appends P (channel P v x rest)))"
    "\<not> (\<exists>m peer. ev = Incoming APPEND_ENTRY m peer) \<Longrightarrow> appends P (channel P v x net) = appends P (channel P v x rest)"
proof -
  assume ev: "ev = Incoming APPEND_ENTRY m peer"
  then obtain u where u: "channel P u x net = (APPEND_ENTRY, m) # channel P u x rest"
    "\<And>v w. (v, w) \<noteq> (u, x) \<Longrightarrow> channel P v w rest = channel P v w net"
    using assms(1) unfolding taken_def by (auto simp del: split_paired_All split_paired_Ex)
  then show "let ae = parse_ae P m; u = (ae_ip ae, ae_port ae) in leader (ae_term ae) = u \<and>
        appends P (channel P v x net) = (if u = v then ae # appends P (channel P v x rest) else appends P (channel P v x rest))"
    using assms(2) [of "parse_ae P m" u] by (cases "u = v") (auto simp: Let_def)
next
  assume ev: "\<not> (\<exists>m peer. ev = Incoming APPEND_ENTRY m peer)"
  from assms(1) consider "rest = net" | u z peer where "ev = Incoming (fst z) (snd z) peer" "channel P u x net = z # channel P u x rest"
      "\<And>v w. (v, w) \<noteq> (u, x) \<Longrightarrow> channel P v w rest = channel P v w net"
    unfolding taken_def by blast
  then show "appends P (channel P v x net) = appends P (channel P v x rest)"
  proof cases
    case 2
    then show ?thesis using ev by (cases "u = v") auto
  qed simp
qed

lemma taken_answer:
  assumes "taken P x ev net rest" "\<And>u a. a \<in> set (answers P (channel P u x net)) \<Longrightarrow> (rae_ip a, rae_port a) = u"
  shows "if \<exists>T. answered P T ev w then \<exists>m peer. ev = Incoming RESP_APPEND m peer \<and>
      answers P (channel P w x net) = parse_resp_ae P m # answers P (channel P w x rest)
    else answers P (channel P w x rest) = answers P (channel P w x net)"
proof -
  from assms(1) consider "rest = net" "\<not> from_network ev" | u z peer where "ev = Incoming (fst z) (snd z) peer"
      "channel P u x net = z # channel P u x rest" "\<And>v w. (v, w) \<noteq> (u, x) \<Longrightarrow> channel P v w rest = channel P v w net"
    unfolding taken_def by blast
  then show ?thesis
  proof cases
    case 1
    then have "\<not> answered P T ev w" for T by (cases ev) auto
    with 1 show ?thesis by simp
  next
    case 2
    have a: "(rae_ip (parse_resp_ae P (snd z)), rae_port (parse_resp_ae P (snd z))) = u" if "fst z = RESP_APPEND"
      using assms(2) [of "parse_resp_ae P (snd z)" u] 2(2) that by simp
    show ?thesis using 2 a by (cases "u = w"; cases "fst z = RESP_APPEND") auto
  qed
qed

lemma says_short:
  assumes "says P s t" "sent s t ms" "short_messages (\<sigma>, rest @ outgoing x ms)"
  obtains xs where "ms = map (\<lambda>(w, x). (w, wire x)) xs" "sent s t (map (\<lambda>(w, x). (w, wire x)) xs)" "short xs"
    "\<forall>(w, x) \<in> set xs. says_log P t x"
proof -
  obtain xs where xs: "sent s t (map (\<lambda>(w, x). (w, wire x)) xs)" "\<forall>(w, x) \<in> set xs. says_log P t x"
    using assms(1) by (auto simp: says_def)
  have ms: "ms = map (\<lambda>(w, x). (w, wire x)) xs" using sent_unique [OF assms(2) xs(1)] .
  have "length (wire y) < 5125" if "(w, y) \<in> set xs" for w y
  proof -
    have "(x, w, wire y) \<in> set (rest @ outgoing x ms)" using that unfolding ms outgoing_def by force
    then have "case (x, w, wire y) of (v, w, b) \<Rightarrow> length b < 5125"
      using assms(3) unfolding short_messages_def snd_conv by blast
    then show ?thesis by simp
  qed
  then have "short xs" using xs(2) by (auto simp: says_log_def)
  show ?thesis by (rule that [OF ms xs(1) \<open>short xs\<close> xs(2)])
qed

lemma channel_after:
  assumes "short xs"
  shows "channel P v w (rest @ outgoing x (map (\<lambda>(w, x). (w, wire x)) xs)) =
    channel P v w rest @ (if v = x then to_member w xs else [])"
proof -
  have "\<forall>(w, y) \<in> set xs. wire_fits y" using assms by (auto intro: short_fits)
  then show ?thesis using channel_outgoing [of xs P x w] channel_others [of v x P w] by simp
qed

lemma appends_after:
  assumes "saved_inv leader P cfg (\<sigma>, net)" "taken P x ev net rest" "short xs" "\<forall>(w, y) \<in> set xs. says_log P t y"
    and "state_m t = primary \<Longrightarrow> leader (term_m t) = x"
    and a: "ae \<in> set (appends P (channel P v w (rest @ outgoing x (map (\<lambda>(w, x). (w, wire x)) xs))))"
  shows "leader (ae_term ae) = v"
proof (cases "ae \<in> set (appends P (channel P v w rest))")
  case True
  then have "ae \<in> set (appends P (channel P v w net))" using taken_sub [OF assms(2), of v w] by (auto simp: appends_def)
  then show ?thesis by (rule saved_invD(1) [OF assms(1)])
next
  case False
  then have "v = x" "ae \<in> set (appends P (to_member w xs))"
    using a unfolding channel_after [OF assms(3)] by (auto split: if_splits)
  then show ?thesis using assms(4,5) by (fastforce simp: appends_def to_member_def says_log_def)
qed

lemma saved_handler:
  assumes inv: "cluster_inv P m0 cfg (\<sigma>, net)" "short_messages (\<sigma>, net)" "traced_inv leader P cfg G (\<sigma>, net)"
      "saved_inv leader P cfg (\<sigma>, net)" "elected leader cfg (\<sigma>, net)" and P: "pb_law P" and x: "x \<in> set cfg" "has_room (\<sigma> x)"
    and ev: "orderly A ev (\<sigma> x)" "server_step P A ev (\<sigma> x) = Ok t" "sent (\<sigma> x) t ms" "taken P x ev net rest"
    and y: "short_messages (\<sigma>(x := t), rest @ outgoing x ms)" "elected leader cfg (\<sigma>(x := t), rest @ outgoing x ms)"
  shows "saved_inv leader P cfg (\<sigma>(x := t), rest @ outgoing x ms)"
proof -
  note d = saved_invD [OF inv(4)]
  have i: "raft_inv P m0 (\<sigma> v) \<and> addr_of (\<sigma> v) = v \<and> configuration_m (\<sigma> v) = cfg" if "v \<in> set cfg" for v
    using inv(1) that by (simp add: cluster_inv_def)
  have lead: "state_m (\<sigma> v) = primary \<Longrightarrow> leader (term_m (\<sigma> v)) = v" if "v \<in> set cfg" for v
    using inv(5) that by (simp add: elected_def)
  have lt: "state_m t = primary \<Longrightarrow> leader (term_m t) = x" using y(2) x(1) unfolding elected_def fst_conv by (metis fun_upd_same)
  have "says P (\<sigma> x) t" using okpD [OF server_step_log [OF P _ x(2) ev(1)] ev(2)] i [OF x(1)] by blast
  then obtain xs where xs: "ms = map (\<lambda>(w, x). (w, wire x)) xs" "sent (\<sigma> x) t (map (\<lambda>(w, x). (w, wire x)) xs)" "short xs"
    "\<forall>(w, x) \<in> set xs. says_log P t x" by (rule says_short [OF _ ev(3) y(1)])
  note after = channel_after [OF xs(3), of P _ _ rest x, folded xs(1)]
  have known: "leader (ae_term ae) = u \<and> (ae_ip ae, ae_port ae) = u" if "ae \<in> set (appends P (channel P u w net))" for ae u w
    using d(1) [OF that] channel_append_known(2) [OF inv(1-3) P that] by simp
  show ?thesis
  proof (rule saved_invI)
    show "leader (ae_term ae) = v" if "ae \<in> set (appends P (channel P v w (rest @ outgoing x ms)))" for v w ae
      by (rule appends_after [OF inv(4) ev(4) xs(3,4) lt that [unfolded xs(1)]])
  next
    fix v w assume v: "v \<in> set cfg" "w \<in> set cfg" "w \<noteq> v"
    note p = d(2) [OF v]
    show "pair_inv leader v w ((\<sigma>(x := t)) v) ((\<sigma>(x := t)) w) (appends P (channel P v w (rest @ outgoing x ms)))
        (answers P (channel P w v (rest @ outgoing x ms)))"
    proof (cases "v = x")
      case True
      note p = p [unfolded True]
      have "pair_inv leader x w t (\<sigma> w) (appends P (channel P x w net) @ map (parse_ae P) (aes_to w xs)) (answers P (channel P w x rest))"
        by (rule sender_step [OF p P conjunct1 [OF i [OF x(1)]] x(2) _ _ _ ev(1,2) lt xs(2,3)
            taken_answer [OF ev(4) channel_answer_known(2) [OF inv(1-3) P]] channel_answer_known(1) [OF inv(1-3) P]])
          (use i [OF x(1)] v True in simp_all)
      then show ?thesis unfolding after using True v(3) taken_other [OF ev(4), of w x] by (simp add: appends_to)
    next
      case False
      show ?thesis
      proof (cases "w = x")
        case True
        note p = p [unfolded True]
        have "pair_inv leader v x (\<sigma> v) t (appends P (channel P v x rest)) (answers P (channel P x v net) @ answers P (to_member v xs))"
        proof (rule member_step [OF p P _ x(2) _ ev(1,2) lead [OF v(1)] lead [OF x(1)] xs(2,3) taken_request [OF ev(4) known]])
          show "raft_inv P m0 (\<sigma> x)" "x \<noteq> v" using i [OF x(1)] False by simp_all
          show "log_matching (log_of (entries_m (\<sigma> v))) (log_of (entries_m (\<sigma> x)))"
            using traced_invD(2) [OF inv(3)] v(1) x(1) by (blast intro: traced_matching)
          show "piece_of (log_of (entries_m (\<sigma> v))) ae"
            if "state_m (\<sigma> v) = primary" "ae \<in> set (appends P (channel P v x net))" "ae_term ae = term_m (\<sigma> v)" for ae
            using channel_append_known(1) [OF inv(1-3) P that(2)] traced_invD(3) [OF inv(3) v(1) that(1)] that(3) by simp
        qed
        then show ?thesis unfolding after using True False taken_other [OF ev(4), of v x] by simp
      next
        case w: False
        then show ?thesis
          unfolding after using False p taken_other [OF ev(4) w, of v] taken_other [OF ev(4) False, of w] by simp
      qed
    qed
  qed
qed

text \<open>A change of a member that does not touch what the links are about.\<close>

definition unlinked :: "'t RaftServer \<Rightarrow> 't RaftServer \<Rightarrow> bool" where
  "unlinked s t \<longleftrightarrow> term_m t = term_m s \<and> state_m t = state_m s \<and> entries_m t = entries_m s \<and>
     current_rpc_lsn_m t = current_rpc_lsn_m s \<and> follower_rpc_lsn_m t = follower_rpc_lsn_m s \<and>
     nextIndex_m t = nextIndex_m s \<and> Follower_saved_index_m t = Follower_saved_index_m s"

lemma saved_unlinked:
  assumes "saved_inv leader P cfg (\<sigma>, net)" "unlinked (\<sigma> x) t"
  shows "saved_inv leader P cfg (\<sigma>(x := t), net)"
proof (rule saved_invI)
  show "leader (ae_term ae) = v" if "ae \<in> set (appends P (channel P v w net))" for v w ae
    using saved_invD(1) [OF assms(1) that] .
  fix v w assume v: "v \<in> set cfg" "w \<in> set cfg" "w \<noteq> v"
  show "pair_inv leader v w ((\<sigma>(x := t)) v) ((\<sigma>(x := t)) w) (appends P (channel P v w net)) (answers P (channel P w v net))"
    using saved_invD(2) [OF assms(1) v] assms(2) v(3)
    by (cases "v = x"; cases "w = x") (simp_all add: unlinked_def pair_inv_def led_def link_of_def)
qed

lemma background_unlinked: "background P s t \<Longrightarrow> unlinked s t"
  by (cases rule: background.cases) (auto simp: unlinked_def)

lemma run_unlinked: "run A s = Ok t \<Longrightarrow> unlinked s t"
  by (auto simp: run_def arm_candidate_timer_def call_rand_def unlinked_def Let_def split: prod.splits if_splits)

lemma saved_lose:
  assumes inv: "saved_inv leader P cfg (\<sigma>, net)" and n: "next_message v' w' b net rest"
  shows "saved_inv leader P cfg (\<sigma>, rest)"
proof (rule saved_invI)
  have c: "channel P v w rest = channel P v w net \<or> (\<exists>x. channel P v w net = x # channel P v w rest)" for v w
    using channel_next [OF n, where P = P] by (cases "(v', w') = (v, w)") (auto split: option.splits)
  show "leader (ae_term ae) = v" if "ae \<in> set (appends P (channel P v w rest))" for v w ae
  proof -
    have "ae \<in> set (appends P (channel P v w net))" using c [of v w] that by auto
    then show ?thesis by (rule saved_invD(1) [OF inv])
  qed
  fix v w assume v: "v \<in> set cfg" "w \<in> set cfg" "w \<noteq> v"
  note p = saved_invD(2) [OF inv v]
  have "pair_inv leader v w (\<sigma> v) (\<sigma> w) (appends P (channel P v w rest)) (answers P (channel P w v net))"
    using c [of v w] p by (auto intro: pair_lose_request split: if_splits)
  then show "pair_inv leader v w (\<sigma> v) (\<sigma> w) (appends P (channel P v w rest)) (answers P (channel P w v rest))"
    using c [of w v] by (auto intro: pair_lose_answer split: if_splits)
qed

lemma saved_move:
  assumes inv: "cluster_inv P m0 cfg x" "short_messages x" "traced_inv leader P cfg G x" "saved_inv leader P cfg x"
      "elected leader cfg x" and p: "pb_law P" "clean junk"
    and move: "cluster_move P A junk cfg l x y" and o: "case l of None \<Rightarrow> True | Some (w, ev) \<Rightarrow> orderly A ev (fst x w)"
    and y: "short_messages y" "elected leader cfg y"
  shows "saved_inv leader P cfg y"
  using move
proof cases
  case (receive w v b net rest \<sigma> t ms)
  note inv = inv [unfolded receive(2)]
  have net: "(v, w, b) \<in> set net" using receive(5) by (auto simp: next_message_def)
  obtain z where z: "b = wire z" "follows P G z" using traced_invD(5) [OF inv(3) net] by blast
  have l: "length (wire z) < 5125" using inv(2) net z(1) by (auto simp: short_messages_def)
  have e: "fst z \<notin> {ERROR, CLIENT_APPLY}" using z(2) by (simp add: follows_def)
  then obtain peer where s: "has_room (\<sigma> w)" "server_step P A (Incoming (fst z) (snd z) peer) (\<sigma> w) = Ok t"
    using handles_wire [OF receive(6) [unfolded z(1)] p(2) _ l] by auto
  have o: "orderly A (Incoming (fst z) (snd z) peer) (\<sigma> w)" using e by (cases "fst z") simp_all
  have "taken P w (Incoming (fst z) (snd z) peer) net rest"
    by (rule taken_next [OF receive(5) z(1) short_fits [OF l]]) (use e in simp_all)
  from saved_handler [OF inv p(1) receive(4) s(1) o s(2) receive(7) this y [unfolded receive(3)]]
  show ?thesis unfolding receive(3) .
next
  case (local_event w ev \<sigma> t ms net)
  have o: "orderly A ev (\<sigma> w)" using o local_event(1,2) by simp
  from saved_handler [OF inv [unfolded local_event(2)] p(1) local_event(4,6) o local_event(7,8) taken_local [OF local_event(5)]
      y [unfolded local_event(3)]]
  show ?thesis unfolding local_event(3) .
next
  case (start w \<sigma> t net)
  show ?thesis unfolding start(3) by (rule saved_unlinked [OF inv(4) [unfolded start(2)] run_unlinked [OF start(5)]])
next
  case (other w \<sigma> t net)
  show ?thesis unfolding other(3) by (rule saved_unlinked [OF inv(4) [unfolded other(2)] background_unlinked [OF other(5)]])
next
  case (lose v w b net rest \<sigma>)
  show ?thesis unfolding lose(3) by (rule saved_lose [OF inv(4) [unfolded lose(2)] lose(4)])
qed

definition linked_inv :: "(int \<Rightarrow> endpoint) \<Rightarrow> pb \<Rightarrow> string \<Rightarrow> mock_state_machine \<Rightarrow> endpoint list \<Rightarrow> 't cluster \<Rightarrow> bool" where
  "linked_inv leader P junk m0 cfg x \<longleftrightarrow> matching_inv leader P junk m0 cfg x \<and> elected leader cfg x \<and>
     (pb_law P \<longrightarrow> clean junk \<longrightarrow> saved_inv leader P cfg x)"

lemma linked_step:
  assumes "linked_inv leader P junk m0 cfg x" "orderly_step leader P A junk cfg x y"
  shows "linked_inv leader P junk m0 cfg y"
proof -
  obtain l where l: "cluster_move P A junk cfg l x y" "case l of None \<Rightarrow> True | Some (w, ev) \<Rightarrow> orderly A ev (fst x w)"
    "elected leader cfg y" "short_messages y"
    using assms(2) unfolding orderly_step_def by blast
  have m: "matching_inv leader P junk m0 cfg x" "elected leader cfg x"
    "pb_law P \<Longrightarrow> clean junk \<Longrightarrow> saved_inv leader P cfg x" using assms(1) by (simp_all add: linked_inv_def)
  have "saved_inv leader P cfg y" if p: "pb_law P" "clean junk"
  proof -
    obtain G where "traced_inv leader P cfg G x" using m(1) p by (auto simp: matching_inv_def)
    then show ?thesis
      using saved_move [OF _ _ _ m(3) [OF p] m(2) p l(1,2,4,3)] m(1) by (auto simp: matching_inv_def)
  qed
  then show ?thesis using orderly_step_inv [OF m(1) assms(2)] l(3) by (simp add: linked_inv_def)
qed

lemma linked_init:
  assumes "fresh_init A m0 cfg x"
  shows "linked_inv leader P junk m0 cfg x"
proof -
  have c: "cluster_init A m0 cfg x" "snd x = []" using assms by (simp_all add: fresh_init_def cluster_init_def)
  have "state_m (fst x v) = follower" if "v \<in> set cfg" for v
    using c(1) that by (auto simp: cluster_init_def intro: raft_init_follower)
  then have "elected leader cfg x" "saved_inv leader P cfg x"
    by (simp_all add: elected_def saved_inv_def c(2) pair_inv_def)
  then show ?thesis using fresh_init_inv [OF assms] by (simp add: linked_inv_def)
qed

interpretation linked: invariant_system "fresh_init A m0 cfg" "orderly_step leader P A junk cfg" "linked_inv leader P junk m0 cfg"
  for A m0 cfg leader P junk
  by unfold_locales (blast intro: linked_init linked_step)+

section \<open>What is saved\<close>

lemma pair_saved:
  assumes "pair_inv leader v w s f q rs" "state_m s = primary" "term_m f \<le> term_m s" "i \<le> at0 (Follower_saved_index_m s) w"
  shows "take (nat (i + 1)) (log_of (entries_m f)) = take (nat (i + 1)) (log_of (entries_m s))"
proof -
  note l = pair_invD(5) [OF assms(1,2), unfolded link_of_def]
  show ?thesis
  proof (cases "term_m f = term_m s")
    case True
    from agree_less [OF link_invD(7) [OF l this], of "i + 1"] assms(4) show ?thesis by (simp add: agree_def)
  next
    case False
    with link_invD(5) [OF l] assms(3,4) show ?thesis by simp
  qed
qed

text \<open>Every run of \<open>Raft_Votes\<close> has the invariant, with the primaries that its ballots name.\<close>

lemma safe_linked:
  assumes "reachable (safe_init A m0 cfg) (safe_step P A junk cfg) ((\<sigma>, net), B)" and "clean junk"
  obtains leader where "linked_inv leader P junk m0 cfg (\<sigma>, net)"
  by (rule safe_leader [OF assms]) (rule that [OF linked.reachable_inv])

lemma safe_saved:
  assumes "reachable (safe_init A m0 cfg) (safe_step P A junk cfg) ((\<sigma>, net), B)"
    and "pb_law P" "clean junk" "v \<in> set cfg" "w \<in> set cfg" "state_m (\<sigma> v) = primary"
    and "i \<le> at0 (Follower_saved_index_m (\<sigma> v)) w"
  shows "i < int (length (log_of (entries_m (\<sigma> v))))"
    and "term_m (\<sigma> w) \<le> term_m (\<sigma> v) \<Longrightarrow>
      take (nat (i + 1)) (log_of (entries_m (\<sigma> w))) = take (nat (i + 1)) (log_of (entries_m (\<sigma> v)))"
proof -
  obtain leader where l: "linked_inv leader P junk m0 cfg (\<sigma>, net)" by (rule safe_linked [OF assms(1,3)])
  then have c: "cluster_inv P m0 cfg (\<sigma>, net)" and s: "saved_inv leader P cfg (\<sigma>, net)"
    using assms(2,3) by (simp_all add: linked_inv_def matching_inv_def)
  have r: "raft_inv P m0 (\<sigma> v)" "configuration_m (\<sigma> v) = cfg" using c assms(4) by (simp_all add: cluster_inv_def)
  then have "\<forall>w \<in> set cfg. at0 (Follower_saved_index_m (\<sigma> v)) w < Entries_size (entries_m (\<sigma> v))"
    using assms(6) unfolding raft_inv_def book_inv_def by blast
  then have "at0 (Follower_saved_index_m (\<sigma> v)) w < Entries_size (entries_m (\<sigma> v))" using assms(5) by (rule bspec)
  then show "i < int (length (log_of (entries_m (\<sigma> v))))" using raft_inv_log(2) [OF r(1)] assms(7) by simp
  assume t: "term_m (\<sigma> w) \<le> term_m (\<sigma> v)"
  show "take (nat (i + 1)) (log_of (entries_m (\<sigma> w))) = take (nat (i + 1)) (log_of (entries_m (\<sigma> v)))"
  proof (cases "w = v")
    case False
    show ?thesis by (rule pair_saved [OF saved_invD(2) [OF s assms(4,5) False] assms(6) t assms(7)])
  qed simp
qed

lemma take_length: "take (nat (i + 1)) xs = take (nat (i + 1)) ys \<Longrightarrow> i < int (length ys) \<Longrightarrow> i < int (length xs)"
  by (drule arg_cong [where f = length]) (simp add: min_def split: if_splits)

text \<open>C7. What a primary believes saved is saved: in every state that a cluster reaches from a fresh start, with
  messages delayed and lost and all handlers interleaved, a member that has not moved on to a later term holds the
  primary's log up to the position that \<open>Follower_saved_index\<close> has for it. The provisos on the runs are those of
  \<open>logs_match\<close>.\<close>

theorem saved_entries_are_held:
  assumes "reachable (safe_init A m0 cfg) (safe_step P A junk cfg) ((\<sigma>, net), B)"
    and "pb_law P" "clean junk" "v \<in> set cfg" "w \<in> set cfg" "state_m (\<sigma> v) = primary" "term_m (\<sigma> w) \<le> term_m (\<sigma> v)"
    and "i \<le> at0 (Follower_saved_index_m (\<sigma> v)) w"
  shows "i < int (length (log_of (entries_m (\<sigma> w)))) \<and>
    take (nat (i + 1)) (log_of (entries_m (\<sigma> w))) = take (nat (i + 1)) (log_of (entries_m (\<sigma> v)))"
  using safe_saved [OF assms(1-6,8)] assms(7) take_length by blast

text \<open>C8. A commit index stands for a majority: in those states, if a primary's commit index is a position that it
  believes a majority has saved, as it is after every positive answer (\<open>react2resp_ae_spec\<close>), then there is a majority
  of the members of which everyone who has not moved on to a later term holds all entries the primary has
  committed. (A member of a later term may have had them cut off by a primary that has not got them, see
  \<open>committed_entry_missed\<close>.)\<close>

theorem committed_entries_on_majority:
  assumes "reachable (safe_init A m0 cfg) (safe_step P A junk cfg) ((\<sigma>, net), B)"
    and "pb_law P" "clean junk" "v \<in> set cfg" "state_m (\<sigma> v) = primary" "quorum_commit (\<sigma> v)"
  shows "\<exists>Q \<subseteq> set cfg. length cfg < 2 * card Q \<and> (\<forall>w \<in> Q. term_m (\<sigma> w) \<le> term_m (\<sigma> v) \<longrightarrow>
    take (nat (commit_index_m (\<sigma> v) + 1)) (log_of (entries_m (\<sigma> w))) =
    take (nat (commit_index_m (\<sigma> v) + 1)) (log_of (entries_m (\<sigma> v))))"
proof -
  obtain leader where "linked_inv leader P junk m0 cfg (\<sigma>, net)" by (rule safe_linked [OF assms(1,3)])
  then have r: "raft_inv P m0 (\<sigma> v)" "configuration_m (\<sigma> v) = cfg"
    using assms(4) by (simp_all add: linked_inv_def matching_inv_def cluster_inv_def)
  then have "majority_m (\<sigma> v) = int (length cfg) div 2 + 1" by (simp add: raft_inv_def conf_inv_def)
  then have "length cfg < 2 * card (savers (\<sigma> v) (commit_index_m (\<sigma> v)))" using assms(6) unfolding quorum_commit_def by linarith
  moreover have "savers (\<sigma> v) (commit_index_m (\<sigma> v)) \<subseteq> set cfg" by (auto simp: savers_def r(2))
  ultimately show ?thesis
    by (intro exI [of _ "savers (\<sigma> v) (commit_index_m (\<sigma> v))"] conjI ballI impI)
      (auto simp: savers_def r(2) intro: safe_saved(2) [OF assms(1-4) _ assms(5)])
qed

end
