(* ===== verification/Raft_Stale_Leader.thy ===== *)
theory Raft_Stale_Leader
  imports Raft_First_Entry Raft_Saved
begin

text \<open>
  The run of \<open>Raft_First_Entry\<close> goes on: the second server commits its entry, and the third one, which has
  heard nothing of it, is elected in term 2 with an empty log.
\<close>

section \<open>The commit\<close>

lemma commit_B:
  assumes h: "heads 3 [first_entry] s"
  shows "surely (\<lambda>t. state_m t = primary \<and> term_m t = 1 \<and> log_of (entries_m t) = [first_entry] \<and> commit_index_m t = 0 \<and>
      at0 (Follower_saved_index_m t) srvA = 0 \<and> quorum_commit t \<and> configuration_m t = cfg3 \<and> majority_m t = 2 \<and>
      sent s t [(srvA, wire (APPEND_ENTRY, ser_ae codec (ae_at s srvA 1 0)))])
    (react2resp_ae codec counting_asio ack_A s)"
proof -
  have i: "raft_inv codec [] s" and f: "state_m s = primary" "term_m s = 1" "log_of (entries_m s) = [first_entry]"
    "configuration_m s = cfg3" "at0 (nextIndex_m s) srvA = 0" "at0 (current_rpc_lsn_m s) srvA = 3"
    "at0 (Follower_saved_index_m s) srvB = 0"
    using h by (simp_all add: heads_def)
  have z: "Entries_size (entries_m s) = 1" using entries.size_log [OF raft_inv_log(1) [OF i]] f(3) by simp
  have m: "majority_m s = 2" using i f(4) by (simp add: raft_inv_def conf_inv_def)
  have eq: "react2resp_ae codec counting_asio ack_A s = primary_deal_resp_ae_with_same_term codec counting_asio srvA ack_A s"
    using f(1,2) by (simp add: react2resp_ae_def ack_A_def)
  have "ae_fits codec counting_asio s srvA"
    unfolding ae_fits_def using first_log_fits [OF h] z by (force simp: counting_asio_def)
  then have "surely (\<lambda>t. True) (primary_deal_resp_ae_with_same_term codec counting_asio srvA ack_A s)"
    by (intro primary_deal_total [OF i f(1) _ _ counting_asio_law]) (simp_all add: f(4) ack_A_def)
  moreover have "okp (\<lambda>t. raft_inv codec [] t \<and> ack_effect codec srvA ack_A s t \<and> deal_frame srvA True s t)
      (primary_deal_resp_ae_with_same_term codec counting_asio srvA ack_A s)"
    unfolding okp_conj
    using react2resp_inv(1) [OF i, of counting_asio ack_A, unfolded eq] primary_deal_effect [OF i f(1), where v = srvA and r = ack_A and A = counting_asio]
      deal_frame_effect [of srvA ack_A s codec counting_asio] by (simp add: ack_A_def okp_conj)
  ultimately have "surely (\<lambda>t. raft_inv codec [] t \<and> ack_effect codec srvA ack_A s t \<and> deal_frame srvA True s t)
      (react2resp_ae codec counting_asio ack_A s)"
    unfolding eq by (rule surelyI)
  then show ?thesis
  proof (rule surely_mono)
    fix t :: "(handler list \<times> bool) RaftServer"
    assume t: "raft_inv codec [] t \<and> ack_effect codec srvA ack_A s t \<and> deal_frame srvA True s t"
    then have d: "state_m t = primary" "term_m t = 1" "entries_m t = entries_m s" "configuration_m t = cfg3" "majority_m t = 2"
      "at0 (Follower_saved_index_m t) srvB = 0"
      using f m by (auto simp: deal_frame_def vote_frame_def)
    have e: "at0 (Follower_saved_index_m t) srvA = 0" "quorum_commit t" "sends_ae codec srvA 1 (commit_index_m t) s t"
      using t f z by (simp_all add: ack_effect_def ack_A_def)
    have "{srvA, srvB} \<subseteq> savers t 0" using d e(1) by (simp add: savers_def)
    then have "2 \<le> card (savers t 0)" using card_mono [of "savers t 0" "{srvA, srvB}"] by (simp add: savers_def)
    then have lo: "0 \<le> commit_index_m t" using e(2) d(5) by (auto simp: quorum_commit_def not_less [symmetric])
    have "savers t (commit_index_m t) \<noteq> {}" using e(2) d(5) by (auto simp: quorum_commit_def)
    then obtain w where w: "w \<in> set (configuration_m t)" "commit_index_m t \<le> at0 (Follower_saved_index_m t) w"
      by (auto simp: savers_def)
    have "\<forall>w \<in> set (configuration_m t). at0 (Follower_saved_index_m t) w < 1"
      using t d(1,3) z by (simp add: raft_inv_def book_inv_def)
    then have "at0 (Follower_saved_index_m t) w < 1" using w(1) by (rule bspec)
    then have "commit_index_m t = 0" using lo w(2) by simp
    with d e f(3) show "state_m t = primary \<and> term_m t = 1 \<and> log_of (entries_m t) = [first_entry] \<and> commit_index_m t = 0 \<and>
        at0 (Follower_saved_index_m t) srvA = 0 \<and> quorum_commit t \<and> configuration_m t = cfg3 \<and> majority_m t = 2 \<and>
        sent s t [(srvA, wire (APPEND_ENTRY, ser_ae codec (ae_at s srvA 1 0)))]" by (simp add: sends_ae_def)
  qed
qed

section \<open>The candidate's timer\<close>

lemma RV_keeps_timer: "okp (\<lambda>t. candidate_timer_m t = candidate_timer_m s) (RV P A v s)"
  by (auto simp: RV_def build_rpc_rv_def Let_def wp net_call_def arm_retry_timer_def call_rand_def split: option.splits prod.splits)

lemma trans2C_timer: "okp (\<lambda>t. \<not> is_min_date_time counting_asio (candidate_timer_m t)) (trans2C P counting_asio s)"
proof -
  have round: "okp (\<lambda>t. candidate_timer_m t = c) (for_others (RV P counting_asio) u)" if u: "candidate_timer_m u = c" for c u
  proof -
    have "okp (\<lambda>t. candidate_timer_m t = c) (RV P counting_asio v t)" if "candidate_timer_m t = c" for v t
      using RV_keeps_timer [of t P counting_asio v] that by simp
    then show ?thesis unfolding for_others_def by (intro okp_for_each u) simp
  qed
  have "okp (\<lambda>u. \<not> snd (candidate_timer_m u)) (arm_candidate_timer counting_asio e h t)" for e h t
    by (auto simp: arm_candidate_timer_def call_rand_def counting_asio_def Let_def split: prod.splits)
  then show ?thesis
    unfolding trans2C_eq okp_seq by (rule okp_mono) (rule okp_mono [OF round [OF refl]], simp add: counting_asio_def)
qed

section \<open>Messages that are no votes\<close>

definition mute :: "string \<Rightarrow> bool" where
  "mute b \<longleftrightarrow> fits b \<and> vote_in codec b = None"

lemma mute_wire: "wire_fits x \<Longrightarrow> fst x \<noteq> RESP_VOTE \<Longrightarrow> mute (wire x)"
  by (cases x) (auto simp: mute_def fits_def vote_in_wire simp del: split_paired_Ex)

abbreviation silent :: "(endpoint \<times> endpoint \<times> string) list \<Rightarrow> bool" where
  "silent \<equiv> list_all (\<lambda>m. mute (snd (snd m)))"

lemma silent_flying: "silent net \<Longrightarrow> flying codec net = []"
  by (induction net) (auto simp: mute_def)

lemma silent_fits: "silent net \<Longrightarrow> (v, w, b) \<in> set net \<Longrightarrow> fits b"
  by (auto simp: list_all_iff mute_def)

lemma quiet_silent:
  assumes "safe_reach ((three a b c, net), B)" "move3 l (three a b c, net) (three a' b' c', net')"
    and "case l of None \<Rightarrow> True | Some (w, ev) \<Rightarrow> orderly counting_asio ev (three a b c w)"
    and "state_m a' \<noteq> candidate" "state_m b' \<noteq> candidate" "state_m c' \<noteq> candidate" "silent net'" "single B"
  shows "safe_reach ((three a' b' c', net'), B)"
  by (rule quiet [OF assms(1,2) refl assms(3-6) silent_fits [OF assms(7)] silent_flying [OF assms(7)] assms(8)])

text \<open>All messages under way are lost.\<close>

lemma lose_all:
  assumes "safe_reach ((three a b c, net), B)" "silent net" "single B"
  shows "safe_reach ((three a b c, []), B)"
  using assms
proof (induction net)
  case Nil
  then show ?case by simp
next
  case (Cons m net)
  obtain v w x where m: "m = (v, w, x)" by (cases m)
  have si: "silent net" using Cons.prems(2) by simp
  have fl: "flying codec (m # net) = []" "flying codec net = []"
    using silent_flying [OF Cons.prems(2)] silent_flying [OF si] by simp_all
  have "move3 None (three a b c, m # net) (three a b c, net)" unfolding m by (rule lose [OF next_first])
  then have "safe_reach ((three a b c, net), B \<union> {})"
    by (rule onward [OF Cons.prems(1) _ _ silent_fits [OF si]])
      (use Cons.prems(3) in \<open>simp_all add: cast3 fl, auto intro!: vote_onceI fl simp: single_def\<close>)
  then show ?case using Cons.IH si Cons.prems(3) by simp
qed

text \<open>The third server becomes a candidate.\<close>

lemma stands_C:
  assumes "safe_reach ((three a b c, []), B)" "move3 (Some (srvC, Timer_event h No_error)) (three a b c, []) (three a b c', net)"
    and "orderly counting_asio (Timer_event h No_error) c" "state_m c' = candidate" "term_m c < term_m c'" "silent net"
    and "(srvC, term_m c', srvC) \<notin> B" "single (insert (srvC, term_m c', srvC) B)"
  shows "safe_reach ((three a b c', net), insert (srvC, term_m c', srvC) B)"
proof -
  have fl: "flying codec [] = []" "flying codec net = []" using silent_flying [OF assms(6)] by simp_all
  have "cast_now codec cfg3 (three a b c, []) (three a b c', net) = {(srvC, term_m c', srvC)}"
    unfolding cast3 fl using assms(4,5) by simp
  moreover have "vote_once codec (three a b c', net) B {(srvC, term_m c', srvC)}"
    by (rule vote_onceI [OF fl(2)])
      (use assms(7,8) in \<open>simp_all only: single_def Un_insert_right Un_empty_right distinct.simps Int_insert_left_if0 Int_empty_left simp_thms\<close>)
  ultimately have "safe_reach ((three a b c', net), B \<union> {(srvC, term_m c', srvC)})"
    by (intro onward [OF assms(1,2) _ silent_fits [OF assms(6)]]) (simp_all add: assms(3))
  then show ?thesis by simp
qed

lemma movesC:
  "\<not> from_network ev \<Longrightarrow> has_room c \<Longrightarrow> server_step codec counting_asio ev c = Ok t \<Longrightarrow> sent c t ms \<Longrightarrow>
     move3 (Some (srvC, ev)) (three a b c, net) (three a b t, net @ outgoing srvC ms)"
  "next_message v srvC m net rest \<Longrightarrow> handles codec counting_asio [] m c t \<Longrightarrow> sent c t ms \<Longrightarrow>
     move3 None (three a b c, net) (three a b t, rest @ outgoing srvC ms)"
  using local_event [where w = srvC and cfg = cfg3 and \<sigma> = "three a b c" and P = codec and A = counting_asio and ev = ev and t = t and ms = ms and net = net and junk = "[]"]
    receive [where w = srvC and cfg = cfg3 and \<sigma> = "three a b c" and P = codec and A = counting_asio and junk = "[]" and v = v and b = m and t = t and ms = ms and net = net and rest = rest]
  by simp_all

section \<open>The run\<close>

definition committed :: "(handler list \<times> bool) RaftServer \<Rightarrow> bool" where
  "committed b \<longleftrightarrow> state_m b = primary \<and> term_m b = 1 \<and> log_of (entries_m b) = [first_entry] \<and> commit_index_m b = 0 \<and>
     at0 (Follower_saved_index_m b) srvA = 0 \<and> quorum_commit b \<and> configuration_m b = cfg3 \<and> majority_m b = 2"

lemma first_mutes: "mute (canvass v)" if "v \<in> set cfg3"
  using that rv_from_length [OF that] by (intro mute_wire) (simp_all add: wire_fits_def)

lemma beat_mute: "mute first_beat"
  using heartbeat_from_length [of srvB] by (intro mute_wire) (simp_all add: wire_fits_def)

lemma committed_run:
  obtains a b where "safe_reach ((three a b (started3 srvC), []), two_ballots)" "took a" "committed b"
proof -
  let ?C = "started3 srvC"
  let ?n4 = "[(srvB, srvC, canvass srvB), (srvB, srvC, first_beat)]" and ?n6 = "[(srvB, srvC, canvass srvB), (srvB, srvC, first_beat), (srvA, srvB, first_ack)]"
  obtain a b where r: "safe_reach ((three a b ?C, ?n6), two_ballots)" and ab: "took a" "heads 3 [first_entry] b"
    by (rule first_entry_run)
  obtain b' where b: "react2resp_ae codec counting_asio ack_A b = Ok b'" "committed b'"
    "sent b b' [(srvA, wire (APPEND_ENTRY, ser_ae codec (ae_at b srvA 1 0)))]"
    using surelyD [OF commit_B [OF ab(2)]] unfolding committed_def by blast
  let ?m = "wire (APPEND_ENTRY, ser_ae codec (ae_at b srvA 1 0))"
  have "has_room b" using ab(2) room_log [OF raft_inv_log(1), of codec "[]" b] by (simp add: heads_def)
  then have h: "handles codec counting_asio [] first_ack b b'"
    using b(1) recv_wire [of "(RESP_APPEND, ser_resp_ae codec ack_A)" "[]"] ack_length codec_law
    by (simp add: handles_def wire_fits_def clean_def reactToIncomingMsg_def)
  have n: "next_message srvA srvB first_ack ?n6 ?n4" by (intro next_intros) simp_all
  have mv: "move3 None (three a b ?C, ?n6) (three a b' ?C, ?n4 @ [(srvB, srvA, ?m)])"
    using moves3(3) [OF n h b(3)] by (simp add: outgoing_def)
  have "mute ?m" using first_log_fits [OF ab(2), of 1 0] by (intro mute_wire) (simp_all add: wire_fits_def)
  then have si: "silent (?n4 @ [(srvB, srvA, ?m)])" using first_mutes [of srvB] beat_mute by simp
  have two: "single two_ballots" by (auto simp: single_def)
  have "safe_reach ((three a b' ?C, ?n4 @ [(srvB, srvA, ?m)]), two_ballots)"
    by (rule quiet_silent [OF r mv _ _ _ _ si two]) (use ab b(2) follower3 in \<open>simp_all add: took_def committed_def\<close>)
  from that [OF lose_all [OF this si two] ab(1) b(2)] show ?thesis .
qed

text \<open>At the end of \<open>committed_run\<close> the primary of term 1 believes its first entry saved by the first server, and has
  committed it.\<close>

theorem saved_entries_are_held_witness:
  "\<exists>\<sigma> net B. safe_reach ((\<sigma>, net), B) \<and> state_m (\<sigma> srvB) = primary \<and> at0 (Follower_saved_index_m (\<sigma> srvB)) srvA = 0 \<and>
     log_of (entries_m (\<sigma> srvB)) = [first_entry] \<and> log_of (entries_m (\<sigma> srvA)) \<noteq> [] \<and>
     take 1 (log_of (entries_m (\<sigma> srvA))) = take 1 (log_of (entries_m (\<sigma> srvB)))"
proof -
  obtain a b where r: "safe_reach ((three a b (started3 srvC), []), two_ballots)" and ab: "took a" "committed b"
    by (rule committed_run)
  let ?\<sigma> = "three a b (started3 srvC)"
  have f: "state_m (?\<sigma> srvB) = primary" "at0 (Follower_saved_index_m (?\<sigma> srvB)) srvA = 0"
    "log_of (entries_m (?\<sigma> srvB)) = [first_entry]" "term_m (?\<sigma> srvA) \<le> term_m (?\<sigma> srvB)"
    using ab by (simp_all add: took_def committed_def)
  have "0 < int (length (log_of (entries_m (?\<sigma> srvA)))) \<and>
      take (nat (0 + 1)) (log_of (entries_m (?\<sigma> srvA))) = take (nat (0 + 1)) (log_of (entries_m (?\<sigma> srvB)))"
    by (rule saved_entries_are_held [OF r codec_law _ _ _ f(1,4)]) (use f(2) in \<open>simp_all add: clean_def\<close>)
  with r f show ?thesis by (intro exI [of _ ?\<sigma>] exI [of _ "[]"] exI [of _ two_ballots]) auto
qed

theorem committed_entries_on_majority_witness:
  "\<exists>\<sigma> net B. safe_reach ((\<sigma>, net), B) \<and> state_m (\<sigma> srvB) = primary \<and> commit_index_m (\<sigma> srvB) = 0 \<and>
     log_of (entries_m (\<sigma> srvB)) = [first_entry] \<and>
     (\<exists>Q \<subseteq> set cfg3. 2 \<le> card Q \<and> (\<forall>w \<in> Q. term_m (\<sigma> w) \<le> term_m (\<sigma> srvB) \<longrightarrow>
        take 1 (log_of (entries_m (\<sigma> w))) = [first_entry]))"
proof -
  obtain a b where r: "safe_reach ((three a b (started3 srvC), []), two_ballots)" and ab: "took a" "committed b"
    by (rule committed_run)
  let ?\<sigma> = "three a b (started3 srvC)"
  have f: "state_m (?\<sigma> srvB) = primary" "quorum_commit (?\<sigma> srvB)" "commit_index_m (?\<sigma> srvB) = 0"
    "log_of (entries_m (?\<sigma> srvB)) = [first_entry]"
    using ab by (simp_all add: committed_def)
  have "\<exists>Q \<subseteq> set cfg3. length cfg3 < 2 * card Q \<and> (\<forall>w \<in> Q. term_m (?\<sigma> w) \<le> term_m (?\<sigma> srvB) \<longrightarrow>
      take (nat (commit_index_m (?\<sigma> srvB) + 1)) (log_of (entries_m (?\<sigma> w))) =
      take (nat (commit_index_m (?\<sigma> srvB) + 1)) (log_of (entries_m (?\<sigma> srvB))))"
    by (rule committed_entries_on_majority [OF r codec_law _ _ f(1,2)]) (simp_all add: clean_def)
  then obtain Q where "Q \<subseteq> set cfg3" "2 \<le> card Q" "\<forall>w \<in> Q. term_m (?\<sigma> w) \<le> term_m (?\<sigma> srvB) \<longrightarrow>
      take 1 (log_of (entries_m (?\<sigma> w))) = [first_entry]"
    unfolding f(3,4) by (force simp del: three_simps)
  with r f show ?thesis by blast
qed

text \<open>The third server stands in term 1, in vain, and again in term 2.\<close>

definition second_rv :: RequestVoteRpc where
  "second_rv = \<lparr>rv_term = 2, rv_latest_index = -1, rv_latest_term = 0, rv_lsn = 0, rv_ip = ''10.0.0.3'', rv_port = 8003\<rparr>"

definition second_heartbeat :: AppendEntryRpc where
  "second_heartbeat = \<lparr>ae_term = 2, ae_prelog_term = -1, ae_commit_index = -1, ae_lsn = 1, ae_ip = ''10.0.0.3'', ae_port = 8003,
     ae_entry = [], ae_prelog_index = -1\<rparr>"

definition second_yes :: Resp_RequestVoteRpc where
  "second_yes = \<lparr>rrv_ok = True, rrv_term = 2, rrv_lsn = 0, rrv_ip = ''10.0.0.1'', rrv_port = 8001\<rparr>"

lemma second_lengths:
  "length (ser_rv codec second_rv) < 5120" "length (ser_ae codec second_heartbeat) < 5120"
  "length (ser_resp_rv codec (second_yes\<lparr>rrv_ok := b\<rparr>)) < 5120"
  using length_small_int [of "-1"] length_small_int [of 0] length_small_int [of 1] length_small_int [of 2]
    length_small_int [of 8001] length_small_int [of 8003]
  by (simp_all add: second_rv_def second_heartbeat_def second_yes_def codec_def enc_rv_def enc_ae_def enc_list_def
      enc_resp_rv_def length_enc_bool length_enc_str)

abbreviation "second_ask \<equiv> wire (REQUEST_VOTE, ser_rv codec second_rv)"
abbreviation "second_vote \<equiv> wire (RESP_VOTE, ser_resp_rv codec second_yes)"
abbreviation "second_beat \<equiv> wire (APPEND_ENTRY, ser_ae codec second_heartbeat)"

lemma second_vote_facts: "vote_in codec second_vote = Some 2" "fits second_vote"
proof -
  have "wire_fits (RESP_VOTE, ser_resp_rv codec second_yes)"
    using second_lengths(3) [of True] by (simp add: wire_fits_def second_yes_def)
  then show "vote_in codec second_vote = Some 2" "fits second_vote"
    using codec_law by (auto simp: vote_in_wire second_yes_def fits_def)
qed

lemma second_messages:
  assumes "campaign codec [] (started3 srvC) 0 s"
  shows "candidate_rv s = second_rv" "first_heartbeat_of s = second_heartbeat" "raft_inv codec [] s" "majority_m s = 2"
    "others s = [srvA, srvB]" "term_m s = 1" "log_of (entries_m s) = []" "has_room s"
    "\<forall>w \<in> set (others s). address_ok counting_asio (ip_of w)"
  using assms
  by (simp_all add: campaign_def log_frame_def started3_facts candidate_rv_def second_rv_def first_heartbeat_of_def
      second_heartbeat_def counting_asio_def)

lemma second_mutes: "mute second_ask" "mute second_beat"
  using second_lengths(1,2) by (auto intro!: mute_wire simp: wire_fits_def)

lemma second_candidate:
  obtains c1 c2 where
    "server_step codec counting_asio (Timer_event Run_handler No_error) (started3 srvC) = Ok c1"
    "campaign codec [] (started3 srvC) 0 c1" "sent (started3 srvC) c1 [(srvA, canvass srvC), (srvB, canvass srvC)]"
    "server_step codec counting_asio (Timer_event Trans2C_handler No_error) c1 = Ok c2"
    "campaign codec [] c1 0 c2" "sent c1 c2 [(srvA, second_ask), (srvB, second_ask)]"
proof -
  have eq: "server_step codec counting_asio (Timer_event Run_handler No_error) (started3 srvC) = trans2C codec counting_asio (started3 srvC)"
    by (simp add: run_handler_def started3_def counting_asio_def)
  have o: "others (started3 srvC) = [srvA, srvB]" by (simp add: started3_facts)
  obtain c1 where c1: "server_step codec counting_asio (Timer_event Run_handler No_error) (started3 srvC) = Ok c1"
    "stands srvC c1" "sent (started3 srvC) c1 [(srvA, canvass srvC), (srvB, canvass srvC)]"
    using surelyD [OF stand3 [of srvC]] o by auto
  then have c: "campaign codec [] (started3 srvC) 0 c1" using stands_campaign [of srvC c1] by simp
  note f = second_messages [OF c]
  have "\<not> is_min_date_time counting_asio (candidate_timer_m c1)"
    using okpD [OF trans2C_timer] c1(1) unfolding eq by blast
  then have eq2: "server_step codec counting_asio (Timer_event Trans2C_handler No_error) c1 = trans2C codec counting_asio c1"
    by (simp add: trans2C_handler_def)
  have "length (ser_rv codec (candidate_rv c1)) < 9999" using second_lengths(1) f(1) by simp
  then obtain c2 where c2: "trans2C codec counting_asio c1 = Ok c2" "campaign codec [] c1 0 c2"
    "sent c1 c2 (map (\<lambda>w. (w, wire (REQUEST_VOTE, ser_rv codec (candidate_rv c1)))) (others c1))"
    using surelyD [OF trans2C_campaign [OF f(3) counting_asio_law f(9)]] by blast
  then have "sent c1 c2 [(srvA, second_ask), (srvB, second_ask)]" unfolding f(1,5) by simp
  from that [OF c1(1) c c1(3) c2(1) [folded eq2] c2(2) this] show ?thesis .
qed

lemma second_vote_run:
  assumes "took a" "campaign codec [] (started3 srvC) 0 c1" "campaign codec [] c1 0 c2"
  obtains a' c3 where "react2rv codec counting_asio second_rv a = Ok a'" "sent a a' [(srvC, second_vote)]"
    "term_m a' = 2" "state_m a' = follower"
    "react2resp_rv codec counting_asio second_yes c2 = Ok c3" "sent c2 c3 [(srvA, second_beat), (srvB, second_beat)]"
    "state_m c3 = primary" "term_m c3 = 2" "log_of (entries_m c3) = []"
proof -
  note f = second_messages [OF assms(2)]
  have a: "raft_inv codec [] a" "term_m a = 1" "configuration_m a = cfg3" "addr_of a = srvA" "log_of (entries_m a) = [first_entry]"
    using assms(1) by (simp_all add: took_def)
  have y: "yes_to second_rv a = second_yes" using a(4) by (simp add: yes_to_def second_rv_def second_yes_def)
  have room: "has_room a" using room_log [OF raft_inv_log(1) [OF a(1)]] a(5) by simp
  have w: "willing codec second_rv a"
    unfolding willing_def y using a room second_lengths(3) by (simp add: second_rv_def log_acceptable_def first_entry_def)
  have "surely (\<lambda>t. sent a t [(srvC, second_vote)] \<and> term_m t = 2 \<and> already_voted_m t) (react2rv codec counting_asio second_rv a)"
    using willing_votes [OF a(1) w _ _ counting_asio_law] a(3) unfolding y by (simp add: second_rv_def counting_asio_def)
  then obtain a' where a': "react2rv codec counting_asio second_rv a = Ok a'" "sent a a' [(srvC, second_vote)]" "term_m a' = 2"
    using surelyD by blast
  have "vote_effect codec second_rv a a'"
    using okpD [OF react2rv_effect [OF raft_inv_log(1,5) [OF a(1)]] a'(1)] .
  then have fo: "state_m a' = follower" using a(2) by (simp add: vote_effect_def second_rv_def)
  have u: "addr_of a \<in> set (others c1)" using a(4) f(5) by simp
  have "majority_m c1 \<le> 2 + int 0" "length (ser_ae codec (first_heartbeat_of c1)) < 9999" using f(2,4) second_lengths(2) by simp_all
  from surelyD [OF campaign_won [OF assms(3) u this(1) counting_asio_law f(9) this(2)]]
  obtain c3 where c3: "react2resp_rv codec counting_asio second_yes c2 = Ok c3" "state_m c3 = primary" "term_m c3 = 2" "entries_m c3 = entries_m c1"
    "sent c2 c3 [(srvA, second_beat), (srvB, second_beat)]"
    unfolding f(1,2,5,6) y by auto
  then have "log_of (entries_m c3) = []" using f(7) by simp
  from that [OF a' fo c3(1,5,2,3) this] show ?thesis .
qed

lemma handles_second:
  assumes "has_room s"
  shows "react2rv codec counting_asio second_rv s = Ok t \<Longrightarrow> handles codec counting_asio [] second_ask s t"
    and "react2resp_rv codec counting_asio second_yes s = Ok t \<Longrightarrow> handles codec counting_asio [] second_vote s t"
  using handles_vote [OF codec_law _ assms, of "[]"] second_lengths(1) second_lengths(3) [of True]
  by (simp_all add: clean_def second_yes_def)

text \<open>Term 1: its requests are lost.\<close>

lemma stood_run:
  obtains a b c1 c2 where
    "safe_reach ((three a b c2, [(srvC, srvA, second_ask), (srvC, srvB, second_ask)]),
       insert (srvC, 2, srvC) (insert (srvC, 1, srvC) two_ballots))"
    "took a" "committed b" "campaign codec [] (started3 srvC) 0 c1" "campaign codec [] c1 0 c2"
proof -
  obtain a b where r: "safe_reach ((three a b (started3 srvC), []), two_ballots)" and ab: "took a" "committed b"
    by (rule committed_run)
  obtain c1 c2 where c1: "server_step codec counting_asio (Timer_event Run_handler No_error) (started3 srvC) = Ok c1"
    "campaign codec [] (started3 srvC) 0 c1" "sent (started3 srvC) c1 [(srvA, canvass srvC), (srvB, canvass srvC)]"
    and c2: "server_step codec counting_asio (Timer_event Trans2C_handler No_error) c1 = Ok c2"
    "campaign codec [] c1 0 c2" "sent c1 c2 [(srvA, second_ask), (srvB, second_ask)]"
    by (rule second_candidate)
  let ?n1 = "[(srvC, srvA, canvass srvC), (srvC, srvB, canvass srvC)]"
  let ?n2 = "[(srvC, srvA, second_ask), (srvC, srvB, second_ask)]"
  have room: "has_room (started3 srvC)" "has_room c1" using second_messages(8) [OF c1(2)] by (simp_all add: started3_facts)
  have t: "term_m (started3 srvC) = 0" "term_m c1 = 1" "state_m c1 = candidate" "term_m c2 = 2" "state_m c2 = candidate"
    using c1(2) c2(2) by (simp_all add: campaign_def started3_facts)
  have si: "silent ?n1" "silent ?n2" using first_mutes [of srvC] second_mutes by simp_all
  have B: "single (insert (srvC, 1, srvC) two_ballots)" "single (insert (srvC, 2, srvC) (insert (srvC, 1, srvC) two_ballots))"
    by (auto simp: single_def)
  have m1: "move3 (Some (srvC, Timer_event Run_handler No_error)) (three a b (started3 srvC), []) (three a b c1, ?n1)"
    using movesC(1) [OF _ room(1) c1(1,3), where net = "[]"] by (simp add: outgoing_def)
  have m2: "move3 (Some (srvC, Timer_event Trans2C_handler No_error)) (three a b c1, []) (three a b c2, ?n2)"
    using movesC(1) [OF _ room(2) c2(1,3), where net = "[]"] by (simp add: outgoing_def)
  have "safe_reach ((three a b c1, ?n1), insert (srvC, 1, srvC) two_ballots)"
    using stands_C [OF r m1 _ t(3) _ si(1)] B(1) unfolding t(1,2) by simp
  then have "safe_reach ((three a b c1, []), insert (srvC, 1, srvC) two_ballots)" by (rule lose_all [OF _ si(1) B(1)])
  from stands_C [OF this m2 _ t(5) _ si(2)] B(2)
  have "safe_reach ((three a b c2, ?n2), insert (srvC, 2, srvC) (insert (srvC, 1, srvC) two_ballots))"
    unfolding t(2,4) by simp
  from that [OF this ab c1(2) c2(2)] show ?thesis .
qed

text \<open>C12. Leader completeness fails, even if nobody votes twice in a term: there is a run of a cluster of three, of the
  kind for which \<open>one_primary_per_term\<close> and \<open>logs_match\<close> hold, after which the second server, primary of term 1,
  has committed its first entry, which the first server has saved, and the third server is primary of term 2 with an
  empty log, by the vote of the first server: this one compares the term of its last entry with the new term, not with the
  term of the candidate's last entry.\<close>

theorem committed_entry_missed:
  "\<exists>\<sigma> net B. reachable (safe_init counting_asio [] cfg3) (safe_step codec counting_asio [] cfg3) ((\<sigma>, net), B) \<and>
     state_m (\<sigma> srvB) = primary \<and> term_m (\<sigma> srvB) = 1 \<and> log_of (entries_m (\<sigma> srvB)) = [first_entry] \<and>
     commit_index_m (\<sigma> srvB) = 0 \<and>
     state_m (\<sigma> srvC) = primary \<and> term_m (\<sigma> srvC) = 2 \<and> log_of (entries_m (\<sigma> srvC)) = []"
proof -
  let ?B = "insert (srvC, 2, srvC) (insert (srvC, 1, srvC) two_ballots)"
  let ?n2 = "[(srvC, srvA, second_ask), (srvC, srvB, second_ask)]"
  let ?n3 = "[(srvC, srvB, second_ask), (srvA, srvC, second_vote)]"
  let ?n4 = "[(srvC, srvB, second_ask), (srvC, srvA, second_beat), (srvC, srvB, second_beat)]"
  obtain a b c1 c2 where r: "safe_reach ((three a b c2, ?n2), ?B)" and ab: "took a" "committed b"
    and c: "campaign codec [] (started3 srvC) 0 c1" "campaign codec [] c1 0 c2" by (rule stood_run)
  obtain a' c3 where a': "react2rv codec counting_asio second_rv a = Ok a'" "sent a a' [(srvC, second_vote)]"
    "term_m a' = 2" "state_m a' = follower"
    and c3: "react2resp_rv codec counting_asio second_yes c2 = Ok c3" "sent c2 c3 [(srvA, second_beat), (srvB, second_beat)]"
    "state_m c3 = primary" "term_m c3 = 2" "log_of (entries_m c3) = []"
    by (rule second_vote_run [OF ab(1) c])
  have room: "has_room a" "has_room c2"
    using ab(1) room_log [OF raft_inv_log(1), of codec "[]" a] second_messages(8) [OF c(1)] c(2)
    by (simp_all add: took_def campaign_def log_frame_def)
  have m1: "move3 None (three a b c2, ?n2) (three a' b c2, ?n3)"
    using moves3(2) [where b = b and c = c2, OF next_first [where v = srvC and ys = "[(srvC, srvB, second_ask)]"] handles_second(1) [OF room(1) a'(1)] a'(2)] by (simp add: outgoing_def)
  have n: "next_message srvA srvC second_vote ?n3 [(srvC, srvB, second_ask)]" by (intro next_intros) simp_all
  have m2: "move3 None (three a' b c2, ?n3) (three a' b c3, ?n4)"
    using movesC(2) [OF n handles_second(2) [OF room(2) c3(1)] c3(2)] by (simp add: outgoing_def)
  note v = second_vote_facts
  have si: "silent ?n2" "silent ?n4" using second_mutes by simp_all
  have fl: "flying codec ?n3 = [(srvA, 2, srvC)]" "flying codec ?n2 = []"
    using second_mutes v silent_flying [OF si(1)] by (simp_all add: mute_def)
  have C: "cast_now codec cfg3 (three a b c2, ?n2) (three a' b c2, ?n3) = {(srvA, 2, srvC)}"
    unfolding cast3 fl using a'(4) by simp
  have once: "vote_once codec (three a' b c2, ?n3) ?B {(srvA, 2, srvC)}"
    by (rule vote_onceI [OF fl(1)]) auto
  have r3: "safe_reach ((three a' b c2, ?n3), ?B \<union> {(srvA, 2, srvC)})"
    by (rule onward [OF r m1 _ _ C once]) (use second_mutes v(2) in \<open>auto simp: mute_def\<close>)
  have "single (?B \<union> {(srvA, 2, srvC)})" by (auto simp: single_def)
  from quiet_silent [OF r3 m2 _ _ _ _ si(2) this] a'(4) ab(2) c3(3)
  have "safe_reach ((three a' b c3, ?n4), ?B \<union> {(srvA, 2, srvC)})" by (simp add: committed_def)
  with ab(2) c3 show ?thesis
    by (intro exI [of _ "three a' b c3"] exI [of _ ?n4] exI [of _ "?B \<union> {(srvA, 2, srvC)}"]) (simp add: committed_def)
qed

end
