(* ===== verification/Raft_Main.thy ===== *)
theory Raft_Main
  imports Raft_Reach Raft_Sends
begin

text \<open>
  \<^verbatim>\<open>src/main.cpp\<close> and the files a server starts from: the configuration file, and the two files of the
  log named in \<^verbatim>\<open>src/consts.h\<close>. The lemmas say what \<open>load_config_from_file\<close> makes of a file with one
  \<open>ip:port\<close> line per member, what it does on a bad line, and what a process knows after a start or a
  restart.
\<close>

section \<open>Starting a server\<close>

definition data_path :: string where
  "data_path = ''/Users/ynx/CLionProjects/raft/data/entry_data.raft''"

definition offset_path :: string where
  "offset_path = ''/Users/ynx/CLionProjects/raft/data/entry_offset.raft''"

text \<open>The file system by path: files read whole (configuration, offsets), the data files, and whether
  \<open>open\<close> on a data file succeeds.\<close>

record disk =
  text_file :: "string \<Rightarrow> string option"
  data_file :: "string \<Rightarrow> file_fd option"
  can_open :: "string \<Rightarrow> bool"

definition load_log :: "pb \<Rightarrow> disk \<Rightarrow> int \<Rightarrow> Entries res" where
  "load_log P d port =
     (let path = data_path @ ''.'' @ to_string port; path_offset = offset_path @ ''.'' @ to_string port
      in Entries_ctor P (can_open d path) (data_file d path) (text_file d path_offset))"

text \<open>The handler \<open>main\<close> installs for \<open>SIGSEGV\<close> and \<open>SIGINT\<close>: what it prints to \<open>stderr\<close>, with the lines
  \<open>backtrace\<close> gives (at most 30), and the status the process exits with. Nothing of the server's state is
  saved, so it leaves the files as they are.\<close>

definition signal_handler :: "string list \<Rightarrow> int \<Rightarrow> string \<times> int" where
  "signal_handler frames sig =
     (''Error: signal '' @ to_string sig @ '':'' @ nl @ concat (map (\<lambda>l. l @ nl) (take 30 frames)), 1)"

text \<open>The server's members are built from the arguments: the log from the port, the state machine
  controller with 5 reading threads and 1 writing thread on an empty \<open>EasyStateMachine\<close>. An uncaught
  exception ends the process.\<close>

definition raft_main ::
    "pb \<Rightarrow> 't asio \<Rightarrow> splitter \<Rightarrow> disk \<Rightarrow> (nat \<Rightarrow> int) \<Rightarrow> string list \<Rightarrow> 't RaftServer res" where
  "raft_main P A split_fn d rnd argv =
     (if length argv < 3 then Inl Null_deref
      else let port = atoi (argv ! 2); config_path = argv ! 1 in
        case load_log P d port of
          Inl e \<Rightarrow> Inl e
        | Inr es \<Rightarrow>
            (case SMC_ctor [] 5 1 of
               Inl e \<Rightarrow> Inl e
             | Inr c \<Rightarrow>
                 (case RaftServer_ctor A split_fn ''127.0.0.1'' port (text_file d config_path) es c rnd of
                    Inl e \<Rightarrow> Inl e
                  | Inr s \<Rightarrow> (case run A s of Ok t \<Rightarrow> Inr t | Throw e t \<Rightarrow> Inl e))))"

section \<open>The configuration file\<close>

definition config_text :: "endpoint list \<Rightarrow> string" where
  "config_text cfg = concat (map (\<lambda>v. server2str v @ nl) cfg)"

text \<open>An address the file can name: no separator in the host, and the line fits into \<open>char str[255]\<close>.\<close>

definition writable :: "endpoint \<Rightarrow> bool" where
  "writable v \<longleftrightarrow> set (ip_of v) \<inter> {CHR '':'', CHR 0x0A, CHR 0x00} = {} \<and> length (server2str v) \<le> 254"

lemma c_str_plain: "CHR 0x00 \<notin> set s \<Longrightarrow> c_str s = s"
  by (induction s) (auto simp: c_str_def)

lemma to_string_plain: "set (to_string i) \<inter> {CHR 0x0A, CHR 0x00} = {}"
  by (auto dest!: to_string_chars simp: is_digit_def)

lemma writable_line:
  assumes "writable v"
  shows "CHR 0x0A \<notin> set (server2str v)" "c_str (server2str v) = server2str v" "server2str v \<noteq> []"
proof -
  have "CHR 0x0A \<notin> set (server2str v) \<and> CHR 0x00 \<notin> set (server2str v)"
    using assms to_string_plain [of "port_of v"] by (auto simp: writable_def server2str_def Let_def)
  then show "CHR 0x0A \<notin> set (server2str v)" "c_str (server2str v) = server2str v"
    by (simp_all add: c_str_plain)
  show "server2str v \<noteq> []" by (simp add: server2str_def Let_def)
qed

lemma getline_line:
  assumes "CHR 0x0A \<notin> set l" "length l \<le> 254"
  shows "getline255 (l @ CHR 0x0A # rest) = (l, rest, False)"
proof -
  have "takeWhile (\<lambda>c. c \<noteq> CHR 0x0A) (l @ CHR 0x0A # rest) = l"
    using assms(1) by (subst takeWhile_append2) auto
  with assms(2) show ?thesis by (simp add: getline255_def)
qed

lemma load_line:
  assumes "boost_split_law sp" "writable v"
  shows "load_config_loop sp (server2str v @ CHR 0x0A # rest) cfg = load_config_loop sp rest (cfg @ [v])"
proof -
  obtain ip port where v: "v = (ip, port)" by fastforce
  have s: "split_str_boost sp (server2str v) CHR '':'' = [ip, to_string port]"
    using assms v by (simp add: split_server2str writable_def)
  have a: "atoi (c_str (to_string port)) = port"
    using to_string_plain [of port] atoi_to_string [of "[]" port] by (simp add: c_str_plain)
  have "getline255 (server2str v @ CHR 0x0A # rest) = (server2str v, rest, False)"
    using assms(2) by (intro getline_line) (simp_all add: writable_line writable_def)
  then show ?thesis
    using writable_line [OF assms(2)] s a
    by (subst load_config_loop.simps) (simp add: v Let_def)
qed

lemma load_lines:
  assumes "boost_split_law sp" "\<forall>v \<in> set ws. writable v"
  shows "load_config_loop sp (config_text ws @ rest) cfg = load_config_loop sp rest (cfg @ ws)"
  using assms(2)
proof (induction ws arbitrary: cfg)
  case (Cons w ws)
  then show ?case using load_line [OF assms(1), of w] by (simp add: config_text_def)
qed (simp add: config_text_def)

lemma load_end: "load_config_loop sp [] cfg = Inr cfg"
  by (subst load_config_loop.simps) (simp add: getline255_def c_str_def)

lemma load_config_text:
  assumes "boost_split_law sp" "\<forall>v \<in> set cfg. writable v"
  shows "load_config_from_file sp (Some (config_text cfg)) =
    Inr (cfg, int (length cfg), int (length cfg) div 2 + 1)"
  using load_lines [OF assms, of "[]" "[]"] by (simp add: load_config_from_file_def load_end Let_def)

text \<open>A line that does not split into two parts ends the constructor with an exception.\<close>

lemma load_bad_line:
  assumes "boost_split_law sp" "\<forall>v \<in> set cfg. writable v" "l \<noteq> []" "length l \<le> 254"
    "set l \<inter> {CHR '':'', CHR 0x0A, CHR 0x00} = {}"
  shows "load_config_from_file sp (Some (config_text cfg @ l @ CHR 0x0A # rest)) = Inl Bad_config_line"
proof -
  have c: "c_str l = l" using assms(5) by (simp add: c_str_plain)
  have "split_str_boost sp l CHR '':'' = [l]"
  proof -
    have "\<forall>c \<in> set l. c \<noteq> CHR '':''" using assms(5) by auto
    then show ?thesis using assms(1) by (simp add: split_str_boost_def boost_split_law_def)
  qed
  moreover have "getline255 (l @ CHR 0x0A # rest) = (l, rest, False)"
    using assms(4,5) by (intro getline_line) auto
  ultimately have "load_config_loop sp (l @ CHR 0x0A # rest) cfg = Inl Bad_config_line"
    using assms(3) c by (subst load_config_loop.simps) (simp add: Let_def)
  then show ?thesis
    using load_lines [OF assms(1,2), of "l @ CHR 0x0A # rest" "[]"] by (simp add: load_config_from_file_def)
qed


section \<open>What a started process knows\<close>

definition fresh_disk :: "string \<Rightarrow> endpoint list \<Rightarrow> disk" where
  "fresh_disk config_path cfg =
     \<lparr>text_file = (\<lambda>p. if p = config_path then Some (config_text cfg) else None),
      data_file = (\<lambda>_. None), can_open = (\<lambda>_. True)\<rparr>"

text \<open>The disk after a server has stopped: its configuration, and the two files of its log.\<close>

definition disk_of :: "string \<Rightarrow> endpoint list \<Rightarrow> int \<Rightarrow> Entries \<Rightarrow> disk" where
  "disk_of config_path cfg port es =
     \<lparr>text_file = (\<lambda>p. if p = config_path then Some (config_text cfg)
                       else if p = offset_path @ ''.'' @ to_string port then offset_file_m es else None),
      data_file = (\<lambda>p. if p = data_path @ ''.'' @ to_string port then Some (data_m es) else None),
      can_open = (\<lambda>_. True)\<rparr>"

definition started :: "endpoint list \<Rightarrow> int \<Rightarrow> rpc_Entry list \<Rightarrow> 't RaftServer \<Rightarrow> bool" where
  "started cfg port log t \<longleftrightarrow>
     term_m t = 0 \<and> state_m t = follower \<and> \<not> already_voted_m t \<and> commit_index_m t = -1 \<and>
     applied_index_m (smc_m t) = -1 \<and> state_machine_m (smc_m t) = [] \<and>
     configuration_m t = cfg \<and> server_m t = (''127.0.0.1'', port) \<and> log_of (entries_m t) = log \<and>
     io_m (network_m t) = [Async_accept]"

lemma run_effect:
  assumes "asio_law A pend" "pend (candidate_timer_m s) = 0"
  shows "surely (\<lambda>t. \<exists>ct rnd. t = s\<lparr>network_m := startAccept (network_m s), rand_m := rnd, candidate_timer_m := ct\<rparr>)
    (run A s)"
  using assms by (auto simp: run_def arm_candidate_timer_def call_rand_def split_def Let_def asio_lawD)

lemma main_starts:
  assumes "asio_law A pend" "boost_split_law sp" "\<forall>v \<in> set cfg. writable v"
    and "text_file d path = Some (config_text cfg)" "load_log P d port = Inr es"
  shows "\<exists>t. raft_main P A sp d rnd [prog, path, to_string port] = Inr t \<and> started cfg port (log_of es) t \<and>
     entries_m t = es \<and> (\<exists>s. SMC_ctor [] 5 1 = Inr (smc_m s) \<and> run A s = Ok t \<and>
       RaftServer_ctor A sp ''127.0.0.1'' port (Some (config_text cfg)) es (smc_m s) rnd = Inr s)"
proof -
  have port: "atoi (to_string port) = port" using atoi_to_string [of "[]" port] by simp
  obtain c where c: "SMC_ctor [] 5 1 = Inr c" by (simp add: SMC_ctor_def)
  then have c': "applied_index_m c = -1" "state_machine_m c = []" by (auto simp: SMC_ctor_def)
  obtain s where s: "RaftServer_ctor A sp ''127.0.0.1'' port (Some (config_text cfg)) es c rnd = Inr s"
    by (simp add: RaftServer_ctor_def load_config_text [OF assms(2,3)])
  then have f: "smc_m s = c" "term_m s = 0" "state_m s = follower" "\<not> already_voted_m s" "commit_index_m s = -1"
    "configuration_m s = cfg" "server_m s = (''127.0.0.1'', port)" "entries_m s = es" "io_m (network_m s) = []"
    "candidate_timer_m s = new_timer A"
    by (auto simp: RaftServer_ctor_def load_config_text [OF assms(2,3)])
  have "pend (candidate_timer_m s) = 0" using f assms(1) by (simp add: asio_lawD)
  from surelyD [OF run_effect [OF assms(1) this]] obtain t ct rd
    where t: "run A s = Ok t" "t = s\<lparr>network_m := startAccept (network_m s), rand_m := rd, candidate_timer_m := ct\<rparr>"
    by blast
  have "raft_main P A sp d rnd [prog, path, to_string port] = Inr t"
    using assms(4,5) c s t(1) by (simp add: raft_main_def port)
  moreover have "started cfg port (log_of es) t" "entries_m t = es"
    using f c' by (simp_all add: t(2) started_def startAccept_def start_op_def)
  ultimately show ?thesis using c s t(1) f(1) by blast
qed

lemma started_reachable:
  assumes "raft_main P A sp d rnd argv = Inr t" "distinct (configuration_m t)"
    "(''127.0.0.1'', port_m t) \<in> set (configuration_m t)" "entries_inv (entries_m t)"
    "\<forall>k < length (log_of (entries_m t)). en_index (log_of (entries_m t) ! k) = int k"
  shows "reachable (raft_init A []) (raft_step P A) t"
proof -
  obtain port es c s where l: "SMC_ctor [] 5 1 = Inr c" "port = atoi (argv ! 2)"
    "RaftServer_ctor A sp ''127.0.0.1'' port (text_file d (argv ! 1)) es c rnd = Inr s" "run A s = Ok t"
    using assms(1) by (auto simp: raft_main_def Let_def split: if_splits sum.splits outcome.splits)
  have "okp (log_frame (s\<lparr>network_m := startAccept (network_m s)\<rparr>)) (run A s)"
    unfolding run_def by (rule log_frameI [OF frame_arm])
  from okpD [OF this l(4)] have k: "configuration_m t = configuration_m s" "entries_m t = entries_m s" "port_m t = port_m s"
    by (simp_all add: log_frame_def)
  have "entries_m s = es" "port_m s = port" using l(3) by (auto simp: RaftServer_ctor_def split: sum.splits)
  with assms(2-5) k l(1,3) have "raft_init A [] s"
    unfolding raft_init_def by (intro exI conjI) (assumption | simp)+
  then have "reachable (raft_init A []) (raft_step P A) s" by (rule reachable_init)
  then show ?thesis by (rule reachable_step) (rule start [OF l(4)])
qed

lemma offset_not_data: "offset_path @ x \<noteq> data_path @ y"
  by (simp add: offset_path_def data_path_def)

lemma load_log_fresh:
  assumes "path \<noteq> offset_path @ ''.'' @ to_string port"
  shows "\<exists>es. load_log P (fresh_disk path cfg) port = Inr es \<and> log_of es = [] \<and> entries_inv es"
  using assms
  by (simp add: load_log_def fresh_disk_def Entries_ctor_def data_ctor_def log_of_def entries_inv_def Let_def)

lemma load_log_again:
  assumes "pb_law P" "disk_inv P es" "path \<noteq> offset_path @ ''.'' @ to_string port"
  shows "\<exists>es'. load_log P (disk_of path cfg port es) port = Inr es' \<and> log_of es' = log_of es \<and> disk_inv P es'"
  using reload_log [OF assms(1,2)] assms(3) by (simp add: load_log_def disk_of_def Let_def)

end
