(* ===== verification/Raft_Client.thy ===== *)
theory Raft_Client
  imports Raft_RPC Raft_StateMachine
begin

text \<open>
  \<^verbatim>\<open>src/client/client.cpp\<close> and \<^verbatim>\<open>src/client/main.cpp\<close>: the interactive client. Its terminal input is a
  standard \<open>istream\<close>, of which the code uses four operations; they are modelled on what is left to read
  and the stream's two state bits, as the C++ standard describes them. A read that fails leaves its
  target unset or zero, exactly where the code goes on using it.
\<close>

section \<open>The terminal\<close>

record istream =
  buf_m :: string
  eofbit_m :: bool
  failbit_m :: bool

definition good :: "istream \<Rightarrow> bool" where
  "good i \<longleftrightarrow> \<not> eofbit_m i \<and> \<not> failbit_m i"

text \<open>The sentry of a formatted read: skip white space; \<open>False\<close> when nothing can be read.\<close>

definition sentry_ws :: "istream \<Rightarrow> bool \<times> istream" where
  "sentry_ws i =
     (if \<not> good i then (False, i\<lparr>failbit_m := True\<rparr>)
      else let b = dropWhile is_space (buf_m i) in
        if b = [] then (False, i\<lparr>buf_m := [], eofbit_m := True, failbit_m := True\<rparr>)
        else (True, i\<lparr>buf_m := b\<rparr>))"

text \<open>\<open>cin >> c\<close> for a \<open>char\<close>: the character, or \<open>None\<close> if \<open>c\<close> keeps its old value.\<close>

definition get_char :: "istream \<Rightarrow> char option \<times> istream" where
  "get_char i =
     (let (ok, i) = sentry_ws i in
      if ok then (Some (hd (buf_m i)), i\<lparr>buf_m := tl (buf_m i)\<rparr>) else (None, i))"

text \<open>\<open>cin.ignore()\<close>.\<close>

definition ignore1 :: "istream \<Rightarrow> istream" where
  "ignore1 i =
     (if \<not> good i then i\<lparr>failbit_m := True\<rparr>
      else case buf_m i of [] \<Rightarrow> i\<lparr>eofbit_m := True\<rparr> | c # cs \<Rightarrow> i\<lparr>buf_m := cs\<rparr>)"

text \<open>\<open>getline(cin, key)\<close>, for a \<open>key\<close> that was empty.\<close>

definition get_line :: "istream \<Rightarrow> string \<times> istream" where
  "get_line i =
     (if \<not> good i then ([], i\<lparr>failbit_m := True\<rparr>)
      else let line = takeWhile (\<lambda>c. c \<noteq> CHR 0x0A) (buf_m i); rest = drop (length line) (buf_m i) in
        case rest of
          [] \<Rightarrow> (line, i\<lparr>buf_m := [], eofbit_m := True, failbit_m := (line = [])\<rparr>)
        | c # cs \<Rightarrow> (line, i\<lparr>buf_m := cs\<rparr>))"

text \<open>\<open>cin >> v\<close> for an \<open>int\<close>: an optional sign and digits. Without digits \<open>v\<close> becomes 0, out of range
  it is clamped, and both set \<open>failbit\<close>; \<open>None\<close> if \<open>v\<close> keeps its old value.\<close>

definition int_max :: int where "int_max = 2147483647"
definition int_min :: int where "int_min = -2147483648"

definition get_int :: "istream \<Rightarrow> int option \<times> istream" where
  "get_int i =
     (let (ok, i) = sentry_ws i in
      if \<not> ok then (None, i)
      else
        let b = buf_m i;
            (neg, b) = (if hd b = CHR ''-'' then (True, tl b) else if hd b = CHR ''+'' then (False, tl b) else (False, b));
            ds = takeWhile is_digit b; rest = dropWhile is_digit b;
            i = i\<lparr>buf_m := rest, eofbit_m := (rest = [])\<rparr>;
            v = (if neg then - digits_val 0 ds else digits_val 0 ds)
        in if ds = [] then (Some 0, i\<lparr>failbit_m := True\<rparr>)
           else if v > int_max then (Some int_max, i\<lparr>failbit_m := True\<rparr>)
           else if v < int_min then (Some int_min, i\<lparr>failbit_m := True\<rparr>)
           else (Some v, i))"

section \<open>The client\<close>

text \<open>The members of the class \<open>client\<close>, and the terminal. \<open>sm_\<close> is an \<open>EasyStateMachine\<close>, of which only
  the parts without state are used here.\<close>

record client =
  cl_server_m :: endpoint
  cl_network_m :: RPC
  cin_m :: istream

definition client_ctor :: "endpoint \<Rightarrow> istream \<Rightarrow> client" where
  "client_ctor server i =
     \<lparr>cl_server_m = server, cl_network_m = \<lparr>connection_map_m = [], conns_m = [], io_m = []\<rparr>, cin_m = i\<rparr>"

definition set_server :: "endpoint \<Rightarrow> client \<Rightarrow> client" where
  "set_server server c = c\<lparr>cl_server_m := server\<rparr>"

definition client_call :: "pb \<Rightarrow> (string \<Rightarrow> bool) \<Rightarrow> RPC_TYPE \<Rightarrow> string \<Rightarrow> client \<Rightarrow> client outcome" where
  "client_call P address_ok rpc_type str c =
     map_outcome (\<lambda>n. c\<lparr>cl_network_m := n\<rparr>) (make_rpc_call P address_ok rpc_type (cl_server_m c) str (cl_network_m c))"

definition apply_to_server :: "pb \<Rightarrow> (string \<Rightarrow> bool) \<Rightarrow> client \<Rightarrow> client outcome" where
  "apply_to_server P address_ok c =
     (let (key, i) = get_line (cin_m c);
          (v, i) = get_int i;
          c = c\<lparr>cin_m := i\<rparr>
      in case v of
           None \<Rightarrow> Throw Undefined_behaviour c
         | Some v \<Rightarrow> client_call P address_ok CLIENT_APPLY (build_apply_str P key v) c)"

definition query_from_server :: "pb \<Rightarrow> (string \<Rightarrow> bool) \<Rightarrow> client \<Rightarrow> client outcome" where
  "query_from_server P address_ok c =
     (let (key, i) = get_line (cin_m c); c = c\<lparr>cin_m := i\<rparr>
      in client_call P address_ok CLIENT_QUERY (build_query_str P key) c)"

text \<open>One turn of the loop in \<open>run\<close>. \<open>char c\<close> is declared inside the loop, so a failed read leaves it
  indeterminate and the comparison that follows is undefined.\<close>

definition client_turn :: "pb \<Rightarrow> (string \<Rightarrow> bool) \<Rightarrow> client \<Rightarrow> client outcome" where
  "client_turn P address_ok c =
     (let (ch, i) = get_char (cin_m c);
          i = ignore1 i;
          c = c\<lparr>cin_m := i\<rparr>
      in case ch of
           None \<Rightarrow> Throw Undefined_behaviour c
         | Some ch \<Rightarrow>
             if ch = CHR ''a'' then apply_to_server P address_ok c
             else if ch = CHR ''q'' then query_from_server P address_ok c
             else Ok c)"

text \<open>\<open>while (1)\<close>: the first \<open>n\<close> turns.\<close>

primrec client_loop :: "pb \<Rightarrow> (string \<Rightarrow> bool) \<Rightarrow> nat \<Rightarrow> client \<Rightarrow> client outcome" where
  "client_loop P address_ok 0 c = Ok c"
| "client_loop P address_ok (Suc n) c = seq (client_turn P address_ok c) (client_loop P address_ok n)"

text \<open>The client's callback: what is printed.\<close>

definition react_to_resp :: "pb \<Rightarrow> RPC_TYPE \<Rightarrow> string \<Rightarrow> string res" where
  "react_to_resp P rpc_type resp_str =
     (if rpc_type = RESP_CLIENT_APPLY then esm_react_to_resp_apply P resp_str
      else if rpc_type = RESP_CLIENT_QUERY then esm_react_to_resp_query P resp_str
      else Inl Unknown_rpc_type)"

text \<open>\<^verbatim>\<open>src/client/main.cpp\<close>: the port of the server is the first argument.\<close>

definition client_main :: "string list \<Rightarrow> istream \<Rightarrow> client res" where
  "client_main argv i =
     (if length argv < 2 then Inl Null_deref
      else Inr (client_ctor (''127.0.0.1'', atoi (argv ! 1)) i))"

section \<open>What a session sends\<close>

text \<open>A session is what the user types: one line with the letter, one with the key, and for an
  assignment one with the value.\<close>

datatype request = Set_key string int | Get_key string

fun typed :: "request \<Rightarrow> string" where
  "typed (Set_key k v) = ''a'' @ nl @ k @ nl @ to_string v @ nl"
| "typed (Get_key k) = ''q'' @ nl @ k @ nl"

fun request_msg :: "pb \<Rightarrow> request \<Rightarrow> RPC_TYPE \<times> string" where
  "request_msg P (Set_key k v) = (CLIENT_APPLY, build_apply_str P k v)"
| "request_msg P (Get_key k) = (CLIENT_QUERY, build_query_str P k)"

fun typable :: "request \<Rightarrow> bool" where
  "typable (Set_key k v) \<longleftrightarrow> CHR 0x0A \<notin> set k \<and> int_min \<le> v \<and> v \<le> int_max"
| "typable (Get_key k) \<longleftrightarrow> CHR 0x0A \<notin> set k"

text \<open>What the user leaves in the buffer after a request: the end of the line of a value.\<close>

fun left_over :: "request \<Rightarrow> string" where
  "left_over (Set_key k v) = nl"
| "left_over (Get_key k) = []"

lemma get_char_typed:
  assumes "good i" "buf_m i = pre @ c # rest" "\<forall>x \<in> set pre. is_space x" "\<not> is_space c"
  shows "get_char i = (Some c, i\<lparr>buf_m := rest\<rparr>)"
proof -
  have "dropWhile is_space (buf_m i) = c # rest" using assms(2-4) by (simp add: dropWhile_append3)
  with assms(1) show ?thesis by (simp add: get_char_def sentry_ws_def Let_def)
qed

lemma get_line_typed:
  assumes "good i" "buf_m i = k @ CHR 0x0A # rest" "CHR 0x0A \<notin> set k"
  shows "get_line i = (k, i\<lparr>buf_m := rest\<rparr>)"
proof -
  have "takeWhile (\<lambda>c. c \<noteq> CHR 0x0A) (buf_m i) = k"
    using assms(2,3) by (subst assms(2), subst takeWhile_append2) auto
  with assms show ?thesis by (simp add: get_line_def Let_def)
qed

lemma takeWhile_digits: "takeWhile is_digit (show_nat n @ CHR 0x0A # r) = show_nat n"
  using show_nat_digits [of n] by (simp add: is_digit_def)

lemma dropWhile_digits: "dropWhile is_digit (show_nat n @ CHR 0x0A # r) = CHR 0x0A # r"
  using show_nat_digits [of n] by (simp add: is_digit_def)

lemma get_int_typed:
  assumes "good i" "buf_m i = to_string v @ CHR 0x0A # rest" "int_min \<le> v" "v \<le> int_max"
  shows "get_int i = (Some v, i\<lparr>buf_m := CHR 0x0A # rest, eofbit_m := False\<rparr>)"
proof (cases "v < 0")
  case True
  then have b: "buf_m i = CHR ''-'' # show_nat (nat (- v)) @ CHR 0x0A # rest"
    using assms(2) by (simp add: to_string_def)
  then have "dropWhile is_space (buf_m i) = buf_m i" by (simp add: is_space_def)
  with b True assms show ?thesis
    by (simp add: get_int_def sentry_ws_def Let_def takeWhile_digits dropWhile_digits digits_val_show_nat)
next
  case False
  then have b: "buf_m i = show_nat (nat v) @ CHR 0x0A # rest"
    using assms(2) by (simp add: to_string_def)
  then have w: "dropWhile is_space (buf_m i) = buf_m i" by (simp add: dropWhile_space_show_nat)
  obtain d ds where s: "show_nat (nat v) = d # ds" by (cases "show_nat (nat v)") simp_all
  then have d: "d \<noteq> CHR ''-''" "d \<noteq> CHR ''+''"
    using show_nat_digits [of "nat v"] is_digit_not_sign [of d] by simp_all
  have "get_int i = (let ds = takeWhile is_digit (buf_m i); rest = dropWhile is_digit (buf_m i);
      i = i\<lparr>buf_m := rest, eofbit_m := (rest = [])\<rparr>; v = digits_val 0 ds
    in if ds = [] then (Some 0, i\<lparr>failbit_m := True\<rparr>)
       else if v > int_max then (Some int_max, i\<lparr>failbit_m := True\<rparr>)
       else if v < int_min then (Some int_min, i\<lparr>failbit_m := True\<rparr>) else (Some v, i))"
    using assms(1) w d b s by (simp add: get_int_def sentry_ws_def Let_def)
  then show ?thesis
    unfolding b takeWhile_digits dropWhile_digits using False assms(3,4) by (simp add: digits_val_show_nat Let_def)
qed

lemma client_turn_typed:
  assumes i: "good (cin_m c)" "buf_m (cin_m c) = pre @ typed r @ rest" and pre: "\<forall>x \<in> set pre. is_space x"
    and r: "typable r"
  shows "client_turn P address_ok c = client_call P address_ok (fst (request_msg P r)) (snd (request_msg P r))
    (c\<lparr>cin_m := (cin_m c)\<lparr>buf_m := left_over r @ rest\<rparr>\<rparr>)"
proof -
  let ?i = "\<lambda>b. (cin_m c)\<lparr>buf_m := b\<rparr>"
  have g: "good (?i b)" for b using i(1) by (simp add: good_def)
  have e: "(?i b)\<lparr>eofbit_m := False\<rparr> = ?i b" for b using i(1) by (simp add: good_def)
  have ig: "ignore1 (?i (CHR 0x0A # b)) = ?i b" for b using g by (simp add: ignore1_def)
  show ?thesis
  proof (cases r)
    case (Set_key k v)
    have ch: "get_char (cin_m c) = (Some CHR ''a'', ?i (CHR 0x0A # k @ CHR 0x0A # to_string v @ CHR 0x0A # rest))"
      using i pre Set_key by (subst get_char_typed [where c = "CHR ''a''"]) (simp_all add: is_space_def)
    have ln: "get_line (?i (k @ CHR 0x0A # b)) = (k, ?i b)" for b
      using g r Set_key by (subst get_line_typed [where k = k]) simp_all
    have iv: "get_int (?i (to_string v @ CHR 0x0A # b)) = (Some v, ?i (CHR 0x0A # b))" for b
      using g r Set_key e by (subst get_int_typed [where v = v]) simp_all
    show ?thesis by (simp add: client_turn_def apply_to_server_def ch ig ln iv Let_def Set_key)
  next
    case (Get_key k)
    have ch: "get_char (cin_m c) = (Some CHR ''q'', ?i (CHR 0x0A # k @ CHR 0x0A # rest))"
      using i pre Get_key by (subst get_char_typed [where c = "CHR ''q''"]) (simp_all add: is_space_def)
    have ln: "get_line (?i (k @ CHR 0x0A # b)) = (k, ?i b)" for b
      using g r Get_key by (subst get_line_typed [where k = k]) simp_all
    show ?thesis by (simp add: client_turn_def query_from_server_def ch ig ln Let_def Get_key)
  qed
qed

text \<open>One request, once it has been read: exactly one message to the client's server.\<close>

definition asked :: "pb \<Rightarrow> client \<Rightarrow> client \<Rightarrow> request list \<Rightarrow> bool" where
  "asked P c d rs \<longleftrightarrow>
     rpc_inv (cl_network_m d) \<and> call_extends (cl_network_m c) (cl_network_m d) \<and> cl_server_m d = cl_server_m c \<and>
     calls (cl_network_m c) (cl_network_m d) = map (\<lambda>r. (cl_server_m c, wire (request_msg P r))) rs"

lemma asked_Nil: "rpc_inv (cl_network_m c) \<Longrightarrow> asked P c c []"
  by (simp add: asked_def call_extends_def calls_def List.map_filter_def)

lemma asked_trans: "asked P c d rs \<Longrightarrow> asked P d e qs \<Longrightarrow> asked P c e (rs @ qs)"
  using calls_trans [of "cl_network_m c" "cl_network_m d" "cl_network_m e"] by (simp add: asked_def)

lemma client_call_asks:
  assumes "rpc_inv (cl_network_m c)" "address_ok (ip_of (cl_server_m c))" "length (snd (request_msg P r)) < 9999"
  shows "surely (\<lambda>d. asked P c d [r] \<and> cin_m d = cin_m c)
    (client_call P address_ok (fst (request_msg P r)) (snd (request_msg P r)) c)"
proof -
  have t: "fst (request_msg P r) \<noteq> ERROR" by (cases r) simp_all
  have "surely (\<lambda>n. rpc_inv n \<and> calls (cl_network_m c) n = [(cl_server_m c, wire (request_msg P r))] \<and>
      call_extends (cl_network_m c) n \<and> connection_map_m n = connection_map_m (cl_network_m c))
    (make_rpc_call P address_ok (fst (request_msg P r)) (cl_server_m c) (snd (request_msg P r)) (cl_network_m c))"
    using surelyI [OF make_rpc_call_total [OF t assms(3)]
        make_rpc_call_ok [OF assms(1), of "cl_server_m c" "fst (request_msg P r)" "snd (request_msg P r)"]] assms(2)
    by simp
  then show ?thesis by (auto simp: client_call_def wp asked_def elim!: surely_mono)
qed

lemma session_asks:
  assumes "rpc_inv (cl_network_m c)" "address_ok (ip_of (cl_server_m c))"
    and "good (cin_m c)" "buf_m (cin_m c) = pre @ concat (map typed rs) @ rest" "\<forall>x \<in> set pre. is_space x"
    and "\<forall>r \<in> set rs. typable r \<and> length (snd (request_msg P r)) < 9999"
  shows "surely (\<lambda>d. asked P c d rs) (client_loop P address_ok (length rs) c)"
  using assms
proof (induction rs arbitrary: c pre)
  case Nil
  then show ?case by (simp add: asked_Nil)
next
  case (Cons r rs)
  let ?c = "c\<lparr>cin_m := (cin_m c)\<lparr>buf_m := left_over r @ concat (map typed rs) @ rest\<rparr>\<rparr>"
  have turn: "client_turn P address_ok c = client_call P address_ok (fst (request_msg P r)) (snd (request_msg P r)) ?c"
    using Cons.prems by (intro client_turn_typed [where pre = pre]) simp_all
  have "surely (\<lambda>d. asked P ?c d [r] \<and> cin_m d = cin_m ?c)
      (client_call P address_ok (fst (request_msg P r)) (snd (request_msg P r)) ?c)"
    using Cons.prems by (intro client_call_asks) simp_all
  then have "surely (\<lambda>d. surely (\<lambda>e. asked P c e (r # rs)) (client_loop P address_ok (length rs) d))
      (client_turn P address_ok c)"
    unfolding turn
  proof (rule surely_mono)
    fix d assume d: "asked P ?c d [r] \<and> cin_m d = cin_m ?c"
    then have c: "asked P c d [r]" by (simp add: asked_def)
    have "surely (\<lambda>e. asked P d e rs) (client_loop P address_ok (length rs) d)"
    proof (rule Cons.IH)
      show "\<forall>x \<in> set (left_over r). is_space x" by (cases r) (simp_all add: is_space_def)
    qed (use d Cons.prems in \<open>simp_all add: asked_def good_def\<close>)
    then show "surely (\<lambda>e. asked P c e (r # rs)) (client_loop P address_ok (length rs) d)"
      by (rule surely_mono) (use asked_trans [OF c, of _ rs] in simp)
  qed
  then show ?case by (simp add: wp)
qed

text \<open>When the terminal input has ended the next turn reads an indeterminate \<open>c\<close>.\<close>

lemma client_turn_eof:
  assumes "\<not> good (cin_m c) \<or> dropWhile is_space (buf_m (cin_m c)) = []"
  shows "\<exists>d. client_turn P address_ok c = Throw Undefined_behaviour d"
  using assms by (auto simp: client_turn_def get_char_def sentry_ws_def Let_def)

text \<open>The printed line for a response that the state machine has serialised.\<close>

lemma react_to_resp_prints:
  assumes "pb_law P"
  shows "react_to_resp P RESP_CLIENT_APPLY (ser_resp_apply P r) =
      Inr (''client received resp_apply: '' @ resp_apply2str r @ nl)"
    and "react_to_resp P RESP_CLIENT_QUERY (ser_resp_query P q) =
      Inr (''client received resp_query: '' @ resp_query2str q @ nl)"
  using assms
  by (simp_all add: react_to_resp_def esm_react_to_resp_apply_def esm_react_to_resp_query_def rpc_to_str_def)

end
