(* ===== verification/Raft_Component_Properties.thy ===== *)
theory Raft_Component_Properties
  imports Raft_Example Raft_Main Raft_Client
begin

text \<open>
  The properties of the components below the server: the log and its files, the message layer, the thread
  pool, the state machine and its controller, the start of a process, and the client program.
\<close>

section \<open>The log\<close>

text \<open>C19. \<open>Entries::insert\<close> implements the abstract log: at any position up to the end it returns, the log is
  then cut at that position with the new entry as its last, \<open>get\<close> reads the new entry there, the
  old ones below and throws above. Beyond the end it throws and changes nothing.\<close>

theorem log_insert_spec:
  assumes "entries_inv es" "entries_room es" "\<not> wr_fails (data_m es)" "0 \<le> i" "i < 2 ^ 32"
  shows "(i \<le> Entries_size es \<longrightarrow>
      (\<exists>es'. Entries_insert P (word_of_int i) e es = Ok es' \<and> entries_inv es' \<and>
         log_of es' = take (nat i) (log_of es) @ [e] \<and> Entries_size es' = i + 1 \<and> Entries_get es' i = Inr e \<and>
         (\<forall>k. 0 \<le> k \<and> k < i \<longrightarrow> Entries_get es' k = Entries_get es k) \<and>
         (\<forall>k > i. Entries_get es' k = Inl Entries_get_range))) \<and>
    (Entries_size es < i \<longrightarrow> Entries_insert P (word_of_int i) e es = Throw Entries_insert_range es)"
proof (intro conjI impI)
  assume i: "i \<le> Entries_size es"
  have "surely (\<lambda>f. True) (write_from_offset off d (data_m es))" for off d
    by (rule surely_mono [OF write_from_offset_ok [OF assms(3)]]) simp
  then have "surely (\<lambda>es'. True) (Entries_insert P (word_of_int i) e es)"
    using assms(1,2,4) i by (simp add: Entries_insert_eq Entries_size_def wp)
  then obtain es' where es': "Entries_insert P (word_of_int i) e es = Ok es'" by (auto dest: surelyD)
  note pre = assms(1,2,4) i
  have "entries_inv es' \<and> log_of es' = take (nat i) (log_of es) @ [e]" "Entries_size es' = i + 1"
    "Entries_get es' i = Inr e"
    "\<And>k. 0 \<le> k \<Longrightarrow> k < i \<Longrightarrow> Entries_get es' k = Entries_get es k"
    "\<And>k. i < k \<Longrightarrow> Entries_get es' k = Inl Entries_get_range"
    using okpD [OF entries.insert_log [OF pre] es'] okpD [OF entries.insert_size [OF pre] es']
      okpD [OF entries.get_inserted [OF pre] es'] okpD [OF entries.get_below_insert [OF pre] es']
      okpD [OF entries.get_beyond_insert [OF pre] es'] by auto
  then show "\<exists>es'. Entries_insert P (word_of_int i) e es = Ok es' \<and> entries_inv es' \<and>
         log_of es' = take (nat i) (log_of es) @ [e] \<and> Entries_size es' = i + 1 \<and> Entries_get es' i = Inr e \<and>
         (\<forall>k. 0 \<le> k \<and> k < i \<longrightarrow> Entries_get es' k = Entries_get es k) \<and>
         (\<forall>k > i. Entries_get es' k = Inl Entries_get_range)"
    using es' by blast
next
  assume "Entries_size es < i"
  then show "Entries_insert P (word_of_int i) e es = Throw Entries_insert_range es"
    using assms(1,5) by (intro entries.insert_range)
qed

definition cmd :: "int \<Rightarrow> rpc_Entry" where "cmd t = \<lparr>en_term = t, en_index = 0, en_msg = ''x''\<rparr>"

theorem log_insert_spec_witness:
  "(\<exists>es'. Entries_insert codec (word_of_int 0) (cmd 1) empty_log = Ok es' \<and> log_of es' = [cmd 1]) \<and>
   Entries_insert codec (word_of_int 1) (cmd 1) empty_log = Throw Entries_insert_range empty_log"
proof -
  have d: "\<not> wr_fails (data_m empty_log)" by (simp add: empty_log_def)
  from log_insert_spec [OF empty_log(3,5) d, of 0 codec "cmd 1"] log_insert_spec [OF empty_log(3,5) d, of 1 codec "cmd 1"]
  show ?thesis by auto
qed

text \<open>C20. What \<open>insert\<close> has accepted survives a restart: as long as the data fits below \<open>2 ^ 31\<close> bytes, the
  constructor run on the two files after an insert reads back exactly the log the insert left.\<close>

theorem log_survives_restart:
  assumes "pb_law P" "disk_inv P es" "entries_room es" "0 \<le> i" "i \<le> Entries_size es" "\<not> wr_fails (data_m es)"
    and "length (concat (take (nat i) (blobs P es))) + length (ser_entry P e) < 2 ^ 31"
  shows "\<exists>es' es''. Entries_insert P (word_of_int i) e es = Ok es' \<and>
    Entries_ctor P True (Some (data_m es')) (offset_file_m es') = Inr es'' \<and>
    log_of es'' = take (nat i) (log_of es) @ [e] \<and> disk_inv P es''"
proof -
  obtain es' where es': "Entries_insert P (word_of_int i) e es = Ok es'" "disk_inv P es'"
      "log_of es' = take (nat i) (log_of es) @ [e]"
    using surelyD [OF insert_disk [OF assms(2,3,4) _ assms(6,7)]] assms(5) by (auto simp: Entries_size_def)
  from reload_log [OF assms(1) es'(2)] es' show ?thesis by auto
qed

definition saved_empty :: Entries where
  "saved_empty = empty_log\<lparr>offset_file_m := Some (oar codec [0])\<rparr>"

lemma saved_empty: "disk_inv codec saved_empty" "entries_room saved_empty" "Entries_size saved_empty = 0"
  "\<not> wr_fails (data_m saved_empty)" "log_of saved_empty = []"
  by (simp_all add: saved_empty_def empty_log_def disk_inv_def entries_inv_def blobs_def log_of_def
      entries_room_def Entries_size_def)

theorem log_survives_restart_witness:
  "\<exists>es' es''. Entries_insert codec (word_of_int 0) (cmd 1) saved_empty = Ok es' \<and>
    Entries_ctor codec True (Some (data_m es')) (offset_file_m es') = Inr es'' \<and> log_of es'' = [cmd 1]"
proof -
  have "length (ser_entry codec (cmd 1)) < 2 ^ 31"
    using length_enc_int [of 0] length_enc_int [of 1] by (simp add: codec_def enc_entry_def cmd_def length_enc_str)
  from log_survives_restart [OF codec_law saved_empty(1,2) _ _ saved_empty(4), of 0 "cmd 1"] this show ?thesis
    by (auto simp: saved_empty)
qed

section \<open>The message layer\<close>

text \<open>C21. What \<open>make_rpc_call\<close> hands to a connection is what \<open>process_msg\<close> delivers at the other end: any
  sequence of messages of fewer than 5120 bytes, written back to back, arrives complete, in order and without
  being merged or split, each with its type and the peer's address; an incomplete rest waits. (The reading
  side needs the byte after the one-character type array not to be a digit.)\<close>

theorem stream_delivers:
  assumes "\<forall>m \<in> set ms. wire_fits m" "clean junk" "length rest < 4"
  shows "recv_stream P junk conn (concat (map wire ms) @ rest) =
    (map (\<lambda>m. (fst m, snd m, remote_peer_m conn)) ms, Inr rest)"
  using assms by (intro tcp.stream_all) (simp_all add: recv_one_def)

theorem stream_delivers_witness:
  "recv_stream codec [] (connection_to (''h'', 1))
     (concat (map wire [(REQUEST_VOTE, ''ab''), (CLIENT_QUERY, '''')]) @ '' '') =
   ([(REQUEST_VOTE, ''ab'', (''h'', 1)), (CLIENT_QUERY, '''', (''h'', 1))], Inr '' '')"
  using stream_delivers [of "[(REQUEST_VOTE, ''ab''), (CLIENT_QUERY, '''')]" "[]" "'' ''" codec
      "connection_to (''h'', 1)"]
  by (simp add: wire_fits_def clean_def connection_to_def)

text \<open>C37. The limits do not fit together. A message of 10000 bytes or more overruns the sender's header
  array. One of 5121 to 9999 bytes is sent, but the receiver reads at most its 5120-byte buffer: it
  processes the truncated body and takes the rest of it for the next header.\<close>

theorem size_limits:
  "(10000 \<le> length msg \<longleftrightarrow> msg_encode msg = Inl Undefined_behaviour) \<and>
   (5120 \<le> length (snd m) \<longrightarrow> length (snd m) < 9999 \<longrightarrow>
      msg_encode (to_string (rpc_type_num (fst m)) @ snd m) = Inr (wire m) \<and>
      recv_one P junk conn (wire m @ rest) =
        Some (case process_msg P junk (take 5120 (to_string (rpc_type_num (fst m)) @ snd m)) (remote_peer_m conn) of
                Inl e \<Rightarrow> Inl e | Inr x \<Rightarrow> Inr (x, drop 5119 (snd m) @ rest)))"
proof -
  have "msg_encode msg = Inl Undefined_behaviour \<longleftrightarrow> 10000 \<le> length msg"
    using msg_encode_ok [of msg] msg_encode_overflow [of msg] by (cases "10000 \<le> length msg") auto
  moreover have "msg_encode (to_string (rpc_type_num (fst m)) @ snd m) = Inr (wire m)" if "length (snd m) < 9999"
    using that by (subst msg_encode_ok) (simp_all add: to_string_type wire_def)
  ultimately show ?thesis using recv_one_oversize by blast
qed

theorem size_limits_witness:
  "msg_encode (replicate 10000 CHR ''x'') = Inl Undefined_behaviour \<and>
   msg_encode (''4'' @ replicate 6000 CHR ''x'') = Inr (wire (CLIENT_APPLY, replicate 6000 CHR ''x''))"
proof -
  have "to_string 4 = ''4''" by code_simp
  with size_limits [of "replicate 10000 CHR ''x''" "(CLIENT_APPLY, replicate 6000 CHR ''x'')" codec "[]"
      "connection_to (''h'', 1)" "[]"]
  show ?thesis by simp
qed

text \<open>C36. A call hands exactly one message to the network, for the peer it names: on the peer's registered
  connection if there is one, else on a new connection that will deliver it once connected. It throws
  for a message that is too long and for an address that is none, and then sends nothing.\<close>

theorem call_sends_one:
  assumes "rpc_inv r" "t \<noteq> ERROR"
  shows "if length msg < 9999 \<and> (RPC_get server r = None \<longrightarrow> addr_ok (ip_of server)) then
       \<exists>r'. make_rpc_call P addr_ok t server msg r = Ok r' \<and> rpc_inv r' \<and>
            calls r r' = [(server, wire (t, msg))] \<and> connection_map_m r' = connection_map_m r
     else \<exists>e r'. make_rpc_call P addr_ok t server msg r = Throw e r' \<and> io_m r' = io_m r"
proof (cases "length msg < 9999 \<and> (RPC_get server r = None \<longrightarrow> addr_ok (ip_of server))")
  case True
  then have "surely (\<lambda>r'. True) (make_rpc_call P addr_ok t server msg r)"
    using assms(2) by (intro make_rpc_call_total) auto
  from surelyD [OF surelyI [OF this make_rpc_call_ok [OF assms(1)]]] True show ?thesis by auto
next
  case False
  then show ?thesis
    unfolding if_not_P [OF False] using assms(2)
    by (auto simp: make_rpc_call_cases Let_def not_less split: option.splits)
qed

theorem call_sends_one_witness:
  "\<exists>r'. make_rpc_call codec (\<lambda>a. True) CLIENT_QUERY (''h'', 1) ''q'' \<lparr>connection_map_m = [], conns_m = [], io_m = []\<rparr> = Ok r' \<and>
     calls \<lparr>connection_map_m = [], conns_m = [], io_m = []\<rparr> r' = [((''h'', 1), wire (CLIENT_QUERY, ''q''))]"
  using call_sends_one [of "\<lparr>connection_map_m = [], conns_m = [], io_m = []\<rparr>" CLIENT_QUERY "''q''" "(''h'', 1)" "\<lambda>a. True" codec]
  by (auto simp: rpc_inv_def)

section \<open>The thread pool\<close>

text \<open>C32. A pool with one worker, which is what the state machine's commands go through, finishes tasks in the
  order they were enqueued, whatever the interleaving of the two threads: finished, running and queued
  tasks, put together, are the enqueued ones.\<close>

theorem one_worker_in_order:
  assumes "pool_run (ThreadPool_ctor 1) es q"
  shows "enqueued es = finished es @ running q @ tasks_m q"
  using one_worker_fifo [OF assms refl] by simp

text \<open>The witness: one task is enqueued, the pool is destroyed, and the worker finishes the task and returns.\<close>

abbreviation pool1 :: "nat worker list \<Rightarrow> nat list \<Rightarrow> bool \<Rightarrow> nat ThreadPool" where
  "pool1 ws ts st \<equiv> \<lparr>workers_m = ws, tasks_m = ts, stop_m = st\<rparr>"

lemma pool1_run:
  "pool_run (ThreadPool_ctor 1) [Enqueue 7] (pool1 [Waiting] [7] False)"
  "pool_run (pool1 [Waiting] [7] True) [Take 0, Finish 0 7, Take 0] (pool1 [Exited] [] True)"
  "pool_run (ThreadPool_ctor 1) [Enqueue 7, Stop, Take 0, Finish 0 7, Take 0] (pool1 [Exited] [] True)"
proof -
  have e: "pool_step (ThreadPool_ctor 1) (Enqueue 7) (pool1 [Waiting] [7] False)"
    by (rule step_enqueue) (simp add: enqueue_def ThreadPool_ctor_def)
  have st: "pool_step (pool1 [Waiting] [7] False) Stop (pool1 [Waiting] [7] True)"
    using step_stop [of "pool1 [Waiting] [7] False"] by (simp add: ThreadPool_stop_def)
  have t: "pool_step (pool1 [Waiting] [7] True) (Take 0) (pool1 [Running 7] [] True)"
    by (rule step_take) (simp add: worker_take_def)
  have f: "pool_step (pool1 [Running 7] [] True) (Finish 0 7) (pool1 [Waiting] [] True)"
    by (rule step_finish) (simp add: worker_finish_def)
  have x: "pool_step (pool1 [Waiting] [] True) (Take 0) (pool1 [Exited] [] True)"
    by (rule step_take) (simp add: worker_take_def)
  show "pool_run (ThreadPool_ctor 1) [Enqueue 7] (pool1 [Waiting] [7] False)"
    using run_snoc [OF run_nil e] by simp
  show "pool_run (pool1 [Waiting] [7] True) [Take 0, Finish 0 7, Take 0] (pool1 [Exited] [] True)"
    using run_snoc [OF run_snoc [OF run_snoc [OF run_nil t] f] x] by simp
  show "pool_run (ThreadPool_ctor 1) [Enqueue 7, Stop, Take 0, Finish 0 7, Take 0] (pool1 [Exited] [] True)"
    using run_snoc [OF run_snoc [OF run_snoc [OF run_snoc [OF run_snoc [OF run_nil e] st] t] f] x] by simp
qed

theorem one_worker_in_order_witness:
  "enqueued [Enqueue (7 :: nat)] = finished [Enqueue 7] @ running (pool1 [Waiting] [7] False) @ [7]"
  using one_worker_in_order [OF pool1_run(1)] by simp

text \<open>C34. Destroying a pool loses no task: when the joins of the destructor have returned, every task ever
  enqueued has been finished, each exactly once, with any number of workers.\<close>

theorem destructor_drains:
  assumes "pool_run (ThreadPool_ctor n) es q" "0 < n" "joined q"
  shows "mset (enqueued es) = mset (finished es)"
  using assms by (rule joined_all_finished)

theorem destructor_drains_witness:
  "mset (enqueued [Enqueue (7 :: nat), Stop, Take 0, Finish 0 7, Take 0]) =
   mset (finished [Enqueue (7 :: nat), Stop, Take 0, Finish 0 7, Take 0])"
  using destructor_drains [OF pool1_run(3)] by (simp add: joined_def)

text \<open>C33. The joins do return: once \<open>stop\<close> is set, every run of the workers makes at most \<open>workload p\<close> steps,
  and as long as not every worker has returned one of them can make a step. So any execution that keeps
  letting workers run reaches the joined pool.\<close>

theorem destructor_returns:
  assumes "stop_m p" "pool_run p es q" "\<forall>e \<in> set es. \<not> enqueue_event e"
  shows "length (filter worker_event es) \<le> workload p \<and>
    (joined q \<or> (\<exists>e r. worker_event e \<and> pool_step q e r \<and> workload r < workload q))"
proof -
  have w: "workload p = length (filter worker_event es) + workload q" "stop_m q"
    using run_workload [OF assms(2,3)] assms(1) by auto
  have "\<exists>e r. worker_event e \<and> pool_step q e r \<and> workload r < workload q" if j: "\<not> joined q"
  proof -
    obtain e r where e: "worker_event e" "pool_step q e r" using stopped_progress [OF w(2) j] by blast
    then show ?thesis using worker_step_workload [of q e r] by auto
  qed
  with w(1) show ?thesis by auto
qed

theorem destructor_returns_witness:
  "workload (pool1 [Waiting] [7] True) = 3 \<and> joined (pool1 [Exited] [] True) \<and>
   length (filter worker_event [Take 0, Finish 0 (7 :: nat), Take 0]) \<le> workload (pool1 [Waiting] [7] True)"
  using destructor_returns [OF _ pool1_run(2)] by (simp add: workload_def joined_def)

section \<open>The state machine and its controller\<close>

text \<open>C31. A new commit index hands the state machine exactly the entries after the last one handed over, up to
  it, in the order of the log and each once; an index not above the last one hands over nothing. An index
  beyond the log throws, after all the entries there are have been handed over.\<close>

theorem commit_hands_over:
  assumes "entries_inv es" "-1 \<le> applied_index_m c" "applied_index_m c < Entries_size es" "\<not> stop_m (write_pool_m c)"
  shows "if n < Entries_size es then
      update_commit_index_and_apply n es c =
        Ok (c\<lparr>smc_commit_index_m := n, applied_index_m := max (applied_index_m c) n,
              write_pool_m := (write_pool_m c)\<lparr>tasks_m := tasks_m (write_pool_m c) @
                map (\<lambda>k. Apply_task (en_msg (log_of es ! nat k)) k) [applied_index_m c + 1..n]\<rparr>\<rparr>)
    else \<exists>c'. update_commit_index_and_apply n es c = Throw Entries_get_range c' \<and>
           applied_index_m c' = Entries_size es - 1"
proof (cases "n < Entries_size es")
  case True
  with update_commit_index_and_apply_eq [OF assms(1,2) True assms(4)] show ?thesis
    by (simp add: apply_tasks_def)
next
  case False
  with apply_loop_past_end [of es "c\<lparr>smc_commit_index_m := n\<rparr>"] assms show ?thesis
    by (simp add: update_commit_index_and_apply_def)
qed

definition log1 :: Entries where
  "log1 = empty_log\<lparr>vec_m := [cmd 1], offset_m := [0, 7], size_m := 1\<rparr>"

theorem commit_hands_over_witness:
  "(\<exists>c'. update_commit_index_and_apply 0 log1 fresh_smc = Ok c' \<and>
      tasks_m (write_pool_m c') = [Apply_task ''x'' 0]) \<and>
   (\<exists>c'. update_commit_index_and_apply 1 log1 fresh_smc = Throw Entries_get_range c')"
proof -
  have l: "entries_inv log1" "Entries_size log1 = 1" "log_of log1 = [cmd 1]"
    by (simp_all add: log1_def empty_log_def entries_inv_def Entries_size_def log_of_def)
  have c: "applied_index_m fresh_smc = -1" "\<not> stop_m (write_pool_m fresh_smc)" "tasks_m (write_pool_m fresh_smc) = []"
    by (simp_all add: fresh_smc_def SMC_ctor_def ThreadPool_ctor_def)
  have u: "[0..0] = [0 :: int]" by (simp add: upto.simps)
  from commit_hands_over [OF l(1) _ _ c(2), of 0] commit_hands_over [OF l(1) _ _ c(2), of 1] show ?thesis
    by (auto simp: l c u cmd_def)
qed

text \<open>C35. What a client sets is what it reads: after \<open>apply\<close> of an assignment, \<open>get\<close> answers with the assigned
  value for its key and with the old one for every other key (0 if there was none).\<close>

theorem read_your_write:
  assumes "pb_law P"
  shows "parse_resp_query P (fst (EasyStateMachine_get P (build_query_str P k)
           (snd (EasyStateMachine_apply P (build_apply_str P k' v) m)))) =
         \<lparr>rq_ok = True, rq_v = (if k = k' then v else at0 m k)\<rparr>"
  using assms by (rule get_after_apply)

theorem read_your_write_witness:
  "parse_resp_query codec (fst (EasyStateMachine_get codec (build_query_str codec ''x'')
     (snd (EasyStateMachine_apply codec (build_apply_str codec ''x'' 5) [])))) = \<lparr>rq_ok = True, rq_v = 5\<rparr>"
  using read_your_write [OF codec_law, of "''x''" "''x''" 5 "[]"] by simp

text \<open>Replicas agree: two state machines that start with the same contents and execute the same commands in
  the same order answer every query alike, whatever queries each has served in between.\<close>

fun serve :: "pb \<Rightarrow> (string + string) list \<Rightarrow> mock_state_machine \<Rightarrow> mock_state_machine" where
  "serve P [] m = m"
| "serve P (Inl c # xs) m = serve P xs (snd (EasyStateMachine_apply P c m))"
| "serve P (Inr q # xs) m = serve P xs (snd (EasyStateMachine_get P q m))"

lemma serve_exec: "serve P xs m = esm.exec P xs m"
  by (induction xs arbitrary: m rule: esm.commands.induct) simp_all

lemma commands_projl: "esm.commands xs = map projl (filter isl xs)"
  by (induction xs rule: esm.commands.induct) simp_all

theorem replicas_answer_alike:
  assumes "filter isl xs = filter isl ys"
  shows "fst (EasyStateMachine_get P q (serve P xs m)) = fst (EasyStateMachine_get P q (serve P ys m))"
proof -
  have "esm.commands xs = esm.commands ys" using assms by (simp add: commands_projl)
  from esm.replicas_agree [OF this, of P m] show ?thesis
    unfolding serve_exec by (rule esm.get_det)
qed

theorem replicas_answer_alike_witness:
  "fst (EasyStateMachine_get codec (build_query_str codec ''x'')
      (serve codec [Inr ''k'', Inl (build_apply_str codec ''x'' 5)] [])) =
   fst (EasyStateMachine_get codec (build_query_str codec ''x'') (serve codec [Inl (build_apply_str codec ''x'' 5)] []))"
  by (rule replicas_answer_alike) simp

section \<open>Timeouts\<close>

text \<open>The election timeout lies between 150 and 300 milliseconds and the retry timeouts between 5 and 10, for
  every value of \<open>rand()\<close>, and every value of each range occurs. So a primary's peer hears at least fifteen
  heartbeat periods before it stands for election.\<close>

theorem timeouts:
  "(\<forall>r. 150 \<le> random_candidate_expire r \<and> random_candidate_expire r \<le> 300) \<and>
   (\<forall>r. 5 \<le> random_ae_retry_expire r \<and> random_ae_retry_expire r \<le> 10) \<and>
   (\<forall>r. 5 \<le> random_rv_retry_expire r \<and> random_rv_retry_expire r \<le> 10) \<and>
   range random_candidate_expire = {150..300} \<and>
   (\<forall>r r'. 15 * random_ae_retry_expire r \<le> random_candidate_expire r')"
proof -
  have c: "150 \<le> random_candidate_expire r \<and> random_candidate_expire r \<le> 300" for r
    unfolding random_candidate_expire_def by (rule random_between_range) simp
  have a: "5 \<le> random_ae_retry_expire r \<and> random_ae_retry_expire r \<le> 10" for r
    unfolding random_ae_retry_expire_def by (rule random_between_range) simp
  have v: "5 \<le> random_rv_retry_expire r \<and> random_rv_retry_expire r \<le> 10" for r
    unfolding random_rv_retry_expire_def by (rule random_between_range) simp
  have "k \<in> range random_candidate_expire" if "150 \<le> k" "k \<le> 300" for k
    using random_between_onto [OF that] unfolding random_candidate_expire_def by blast
  then have "range random_candidate_expire = {150..300}" using c by auto
  moreover have "15 * random_ae_retry_expire r \<le> random_candidate_expire r'" for r r'
    using a [of r] c [of r'] by linarith
  ultimately show ?thesis using c a v by blast
qed

section \<open>Starting a process\<close>

text \<open>C39. A configuration file with one \<open>ip:port\<close> line per member loads to exactly these members, in order,
  with their number and the majority; a line without the separator makes the constructor throw, whatever
  follows it.\<close>

theorem config_round_trip:
  assumes "boost_split_law sp" "\<forall>v \<in> set cfg. writable v"
  shows "load_config_from_file sp (Some (config_text cfg)) =
      Inr (cfg, int (length cfg), int (length cfg) div 2 + 1) \<and>
    (l \<noteq> [] \<longrightarrow> length l \<le> 254 \<longrightarrow> set l \<inter> {CHR '':'', CHR 0x0A, CHR 0x00} = {} \<longrightarrow>
      load_config_from_file sp (Some (config_text cfg @ l @ CHR 0x0A # rest)) = Inl Bad_config_line)"
  using load_config_text [OF assms] load_bad_line [OF assms] by blast

lemma cfg3_writable: "\<forall>v \<in> set cfg3. writable v"
  using length_show_nat_le [of 8001 4] length_show_nat_le [of 8002 4] length_show_nat_le [of 8003 4]
  by (simp add: writable_def server2str_def Let_def to_string_def)

theorem config_round_trip_witness:
  "load_config_from_file (split_chars []) (Some (config_text cfg3)) = Inr (cfg3, 3, 2) \<and>
   load_config_from_file (split_chars []) (Some (config_text cfg3 @ ''junk'' @ [CHR 0x0A])) = Inl Bad_config_line"
  using config_round_trip [OF boost_split_law_split_chars cfg3_writable, of "''junk''" "[]"] by simp

text \<open>C38. The server program starts: on a readable configuration and a log that loads, \<open>main\<close> reaches the
  state in which it accepts connections and waits for its election timeout, a follower in term 0 with
  nothing committed. If the configuration names each member once, this server among them, and the loaded
  entries are in place, that state is one of the reachable states, so every invariant holds from there.\<close>

theorem main_reaches_follower:
  assumes "asio_law A pend" "boost_split_law sp" "\<forall>v \<in> set cfg. writable v" "text_file d path = Some (config_text cfg)"
    and "load_log P d port = Inr es" "entries_inv es"
    and "distinct cfg" "(''127.0.0.1'', port) \<in> set cfg" "\<forall>k < length (log_of es). en_index (log_of es ! k) = int k"
  shows "\<exists>t. raft_main P A sp d rnd [prog, path, to_string port] = Inr t \<and> started cfg port (log_of es) t \<and>
     reachable (raft_init A []) (raft_step P A) t"
proof -
  obtain t s where t: "raft_main P A sp d rnd [prog, path, to_string port] = Inr t" "started cfg port (log_of es) t"
      "entries_m t = es" and s: "run A s = Ok t"
      "RaftServer_ctor A sp ''127.0.0.1'' port (Some (config_text cfg)) es (smc_m s) rnd = Inr s"
    using main_starts [OF assms(1-5)] by blast
  have "okp (log_frame (s\<lparr>network_m := startAccept (network_m s)\<rparr>)) (run A s)"
    unfolding run_def by (rule log_frameI [OF frame_arm])
  from okpD [OF this s(1)] have "port_m t = port_m s" by (simp add: log_frame_def)
  moreover have "port_m s = port"
    if "RaftServer_ctor A sp ''127.0.0.1'' port f es c rnd = Inr s" for c f
    using that by (auto simp: RaftServer_ctor_def split: sum.splits)
  then have "port_m s = port" using s(2) by blast
  moreover have "configuration_m t = cfg" using t(2) by (simp add: started_def)
  ultimately have "reachable (raft_init A []) (raft_step P A) t"
    using assms(6-9) t(3) by (intro started_reachable [OF t(1)]) simp_all
  with t show ?thesis by blast
qed

abbreviation cfg_local :: "endpoint list" where
  "cfg_local \<equiv> [(''127.0.0.1'', 8001), (''127.0.0.1'', 8002), (''127.0.0.1'', 8003)]"

lemma cfg_local_writable: "\<forall>v \<in> set cfg_local. writable v"
  using length_show_nat_le [of 8001 4] length_show_nat_le [of 8002 4] length_show_nat_le [of 8003 4]
  by (simp add: writable_def server2str_def Let_def to_string_def)

theorem main_reaches_follower_witness:
  "\<exists>t. raft_main codec counting_asio (split_chars []) (fresh_disk ''raft.conf'' cfg_local) (\<lambda>n. 0)
      [''raft'', ''raft.conf'', to_string 8001] = Inr t \<and> started cfg_local 8001 [] t"
proof -
  have p: "''raft.conf'' \<noteq> offset_path @ ''.'' @ to_string 8001" by (simp add: offset_path_def)
  obtain es where es: "load_log codec (fresh_disk ''raft.conf'' cfg_local) 8001 = Inr es" "log_of es = []" "entries_inv es"
    using load_log_fresh [OF p, of codec cfg_local] by blast
  have "text_file (fresh_disk ''raft.conf'' cfg_local) ''raft.conf'' = Some (config_text cfg_local)"
    by (simp add: fresh_disk_def)
  from main_reaches_follower [OF counting_asio_law boost_split_law_split_chars cfg_local_writable this es(1,3)] es(2)
  show ?thesis by auto
qed

text \<open>A restarted server has its log, and has forgotten its term, its vote, its commit index and the contents
  of its state machine: none of them is ever written to a file.\<close>

theorem restart_keeps_only_the_log:
  assumes "asio_law A pend" "boost_split_law sp" "\<forall>v \<in> set cfg. writable v" "pb_law P" "disk_inv P (entries_m s)"
    and "path \<noteq> offset_path @ ''.'' @ to_string port"
  shows "\<exists>t. raft_main P A sp (disk_of path cfg port (entries_m s)) rnd [prog, path, to_string port] = Inr t \<and>
     log_of (entries_m t) = log_of (entries_m s) \<and>
     term_m t = 0 \<and> \<not> already_voted_m t \<and> commit_index_m t = -1 \<and> state_machine_m (smc_m t) = []"
proof -
  obtain es where es: "load_log P (disk_of path cfg port (entries_m s)) port = Inr es"
      "log_of es = log_of (entries_m s)"
    using load_log_again [OF assms(4,5,6), of cfg] by blast
  have "text_file (disk_of path cfg port (entries_m s)) path = Some (config_text cfg)" by (simp add: disk_of_def)
  from main_starts [OF assms(1-3) this es(1)]
  obtain t where "raft_main P A sp (disk_of path cfg port (entries_m s)) rnd [prog, path, to_string port] = Inr t"
      "started cfg port (log_of es) t" by blast
  with es(2) show ?thesis by (auto simp: started_def)
qed

theorem restart_keeps_only_the_log_witness:
  "\<exists>t. raft_main codec counting_asio (split_chars []) (disk_of ''raft.conf'' cfg_local 8001 saved_empty) (\<lambda>n. 0)
      [''raft'', ''raft.conf'', to_string 8001] = Inr t \<and> log_of (entries_m t) = [] \<and> term_m t = 0"
proof -
  have p: "''raft.conf'' \<noteq> offset_path @ ''.'' @ to_string 8001" by (simp add: offset_path_def)
  have d: "disk_inv codec (entries_m (node1\<lparr>term_m := 7, entries_m := saved_empty\<rparr>))" using saved_empty by simp
  from restart_keeps_only_the_log [OF counting_asio_law boost_split_law_split_chars cfg_local_writable codec_law d p]
  show ?thesis by (auto simp: saved_empty)
qed

section \<open>The client program\<close>

text \<open>C40. A session at the client sends what the user asked for: for requests typed one after the other, the loop
  makes one message each, in order, to the configured server, with the typed key and value; the end of
  line a value leaves in the input does not disturb the next request.\<close>

theorem session_sends:
  assumes "\<forall>r \<in> set rs. typable r \<and> length (snd (request_msg P r)) < 9999" "addr_ok (ip_of server)"
  shows "\<exists>d. client_loop P addr_ok (length rs)
        (client_ctor server \<lparr>buf_m = concat (map typed rs), eofbit_m = False, failbit_m = False\<rparr>) = Ok d \<and>
     calls \<lparr>connection_map_m = [], conns_m = [], io_m = []\<rparr> (cl_network_m d) =
       map (\<lambda>r. (server, wire (request_msg P r))) rs"
proof -
  let ?c = "client_ctor server \<lparr>buf_m = concat (map typed rs), eofbit_m = False, failbit_m = False\<rparr>"
  have "surely (\<lambda>d. asked P ?c d rs) (client_loop P addr_ok (length rs) ?c)"
    using assms by (intro session_asks [where pre = "[]" and rest = "[]"])
      (simp_all add: client_ctor_def rpc_inv_def good_def)
  from surelyD [OF this] show ?thesis by (auto simp: asked_def client_ctor_def)
qed

theorem session_sends_witness:
  "\<exists>d. client_loop codec (\<lambda>a. True) 2 (client_ctor (''h'', 1)
        \<lparr>buf_m = typed (Set_key ''x y'' 5) @ typed (Get_key ''x y''), eofbit_m = False, failbit_m = False\<rparr>) = Ok d \<and>
     calls \<lparr>connection_map_m = [], conns_m = [], io_m = []\<rparr> (cl_network_m d) =
       [((''h'', 1), wire (CLIENT_APPLY, build_apply_str codec ''x y'' 5)),
        ((''h'', 1), wire (CLIENT_QUERY, build_query_str codec ''x y''))]"
proof -
  have "length (snd (request_msg codec (Set_key ''x y'' 5))) < 9999" "length (snd (request_msg codec (Get_key ''x y''))) < 9999"
    using length_enc_int [of 5] by (simp_all add: build_apply_str_def build_query_str_def codec_def length_enc_str)
  then have "\<forall>r \<in> set [Set_key ''x y'' 5, Get_key ''x y'']. typable r \<and> length (snd (request_msg codec r)) < 9999"
    by (simp add: int_min_def int_max_def)
  from session_sends [OF this, of "\<lambda>a. True" "(''h'', 1)"] show ?thesis by (simp add: numeral_2_eq_2)
qed

text \<open>At the end of its input the client goes on with an indeterminate character: the loop never ends and
  nothing in it looks at the state of the stream.\<close>

theorem client_reads_past_the_end:
  assumes "\<not> good (cin_m c) \<or> dropWhile is_space (buf_m (cin_m c)) = []"
  shows "\<exists>d. client_loop P addr_ok (Suc n) c = Throw Undefined_behaviour d"
  using client_turn_eof [OF assms, of P addr_ok] by auto

theorem client_reads_past_the_end_witness:
  "\<exists>d. client_loop codec (\<lambda>a. True) 1 (client_ctor (''h'', 1) \<lparr>buf_m = [], eofbit_m = False, failbit_m = False\<rparr>) =
     Throw Undefined_behaviour d"
  using client_reads_past_the_end [of "client_ctor (''h'', 1) \<lparr>buf_m = [], eofbit_m = False, failbit_m = False\<rparr>" codec
      "\<lambda>a. True" 0] by (simp add: client_ctor_def)

end
