(* ===== verification/Spec2Isabelle.thy ===== *)
theory Spec2Isabelle
  imports Raft_Server_Properties Raft_Log_Properties Raft_Ballot Raft_Answers Raft_Failover Raft_Saved Raft_Stale_Leader
    Raft_Component_Properties
begin

text \<open>
  \<^bold>\<open>my_raft\<close>: a replicated key-value store. A server process (\<^verbatim>\<open>src/main.cpp\<close>, class \<open>RaftServer\<close>) keeps a
  log of client commands in step with the other members of its cluster by the Raft protocol and executes
  the committed ones on a state machine; a client program (\<^verbatim>\<open>src/client/\<close>) sends it commands and queries.
  All network and timer callbacks of a server run on one io thread; committed commands and queries run on
  two thread pools, which post their answers back to the io thread.

  \<^bold>\<open>The parts and their theories.\<close> A theory's definitions have the names of the functions they model; a data
  member \<open>foo_\<close> is the record field \<open>foo_m\<close>.

    \<^item> \<open>Raft_Prelude\<close>: exceptions as values. A member function returns an \<open>outcome\<close>: \<open>Ok\<close> with the new object,
      or \<open>Throw\<close> with the exception and the object as it was then. \<open>okp Q m\<close> (if \<open>m\<close> returns, \<open>Q\<close>) and
      \<open>surely Q m\<close> (\<open>m\<close> returns, and \<open>Q\<close>) are the calculus all proofs use. \<open>std::map\<close>, \<open>atoi\<close>,
      \<open>std::to_string\<close>, \<open>sprintf\<close>.
    \<^item> \<open>Raft_Util\<close> (\<^verbatim>\<open>util.cpp\<close>), \<open>Raft_Messages\<close> (\<^verbatim>\<open>rpc.proto\<close>, \<^verbatim>\<open>rpc/rpc_type.h\<close>, \<^verbatim>\<open>rpc/rpc_to_string.cpp\<close>),
      \<open>Raft_Timer\<close> (\<^verbatim>\<open>Timer.cpp\<close>).
    \<^item> \<open>Raft_Data\<close>, \<open>Raft_Entries\<close> (\<^verbatim>\<open>entry/\<close>): the data file, and the log in memory and in its two files. The
      abstract log is a list of entries (\<open>log_of\<close>); the locale \<open>log_store\<close> is the contract and the
      interpretation \<open>entries\<close> its proof for the code.
    \<^item> \<open>Raft_RPC\<close> (\<^verbatim>\<open>rpc/rpc.cpp\<close>, \<^verbatim>\<open>rpc/connection.cpp\<close>): framing, connections, calls. The locale \<open>framing\<close> is the
      contract of a framed stream, the interpretation \<open>tcp\<close> its proof for encoder and reader.
    \<^item> \<open>Raft_ThreadPool\<close>, \<open>Raft_StateMachine\<close>, \<open>Raft_SMC\<close> (\<^verbatim>\<open>state_machine/\<close>): the pool with its worker threads
      as interleaved steps; the map that commands assign to (locale \<open>state_machine\<close>, interpretation
      \<open>esm\<close>); the controller that feeds committed entries to one worker and queries to others.
    \<^item> \<open>Raft_Server\<close> (\<^verbatim>\<open>RaftServer.cpp\<close>): every member function and every timer handler. \<open>server_step\<close> is one
      callback of the io thread: a message, a timer, or a posted call.
    \<^item> \<open>Raft_Client\<close> (\<^verbatim>\<open>client/\<close>): the terminal loop on a model of the \<open>istream\<close> operations it uses.
      \<open>Raft_Main\<close> (\<^verbatim>\<open>main.cpp\<close>, \<^verbatim>\<open>consts.h\<close>): starting a server from its files.

  \<^bold>\<open>The lemmas.\<close>

    \<^item> \<open>Raft_Server_Inv\<close>: what each operation leaves alone (\<open>log_frame\<close>, \<open>vote_frame\<close>) and the invariant
      \<open>raft_inv\<close>, kept by every \<open>server_step\<close>. \<open>Raft_Reach\<close>: the whole process, with handlers, worker threads,
      socket completions and the clock interleaved (\<open>raft_step\<close>), and its reachable states (locale
      \<open>invariant_system\<close>, interpretation \<open>raft\<close>).
    \<^item> \<open>Raft_Sends\<close>: which messages an operation hands to the network (\<open>sent\<close>), and that the rounds of an
      election and of a new primary return.
    \<^item> \<open>Raft_Election\<close>: the effect of a vote request, the possible changes of term, role and votes, and what
      follows along a run of one server (\<open>server_run\<close>). \<open>Raft_Replication\<close>: the effect of an AppendEntries and
      of its answer, matching logs, quorums. \<open>Raft_Totality\<close>: that these handlers return. \<open>Raft_Outcomes\<close>: the outcome of
      the handlers of vote requests, AppendEntries and their answers as equations, branch by branch, exceptions, timers and
      the tasks for the state machine included (\<open>rv_outcome\<close>, \<open>ae_outcome\<close>, \<open>ack_outcome\<close>).
    \<^item> \<open>Raft_Ballot\<close>: one server's votes, counted in the bytes it hands to the network (\<open>ballots_of\<close>). \<open>Raft_Answers\<close>: a
      client's command from the message to the answer, along any run of the primary with its worker threads
      (\<open>serves_client\<close>; interpretation \<open>results\<close> of \<open>invariant_system\<close>).
    \<^item> \<open>Raft_Codec\<close>, \<open>Raft_Example\<close>: concrete libraries and a three-server cluster for the witnesses.
    \<^item> \<open>Raft_CatchUp\<close>: a primary and one member connected by bytes. \<open>exchange\<close> is one AppendEntries and its
      answer, \<open>in_step\<close> the invariant of the two servers, \<open>todo\<close> the measure that every exchange lowers; the bound
      of twice the length of the primary's log on the number of exchanges comes from it. \<open>Raft_Failover\<close>: what a
      new primary in a cluster of five or more forgets.
    \<^item> \<open>Raft_Cluster\<close>: all members of a cluster at once. A state is the servers and the bytes under way, in the
      order they were sent; a step is a start, a callback or worker step of one member, the delivery of the
      oldest message from one member to another, or a loss (\<open>cluster_step\<close>). The locale \<open>invariant_system\<close> is
      interpreted on it as \<open>cluster\<close>.
    \<^item> \<open>Raft_Campaign\<close>: an election in a cluster of any size; \<open>campaign\<close> is a candidate that has counted some votes,
      \<open>willing\<close> a member that will vote for it. \<open>Raft_Split\<close>: a run of this system that ends with two primaries.
    \<^item> \<open>Raft_Matching\<close>: the runs of a cluster in which the defects listed below do not show (\<open>orderly_step\<close>, a labelled
      step that meets a proviso on the label and on the states), and log matching in all their states. The invariant
      has a ghost, the log that each term's primary has or last had; every log and every AppendEntries under way is a
      part of these (\<open>traced\<close>, \<open>piece_of\<close>). It is the interpretation \<open>orderly\<close> of \<open>invariant_system\<close>; that the
      primaries are those a function names (\<open>elected\<close>) is a proviso there.
    \<^item> \<open>Raft_Votes\<close>: where that function comes from. A step also records the ballots cast, that is the positive
      answers handed to the network and the candidatures, and its proviso is that no member casts two in a term
      (\<open>ballot_step\<close>). The invariant \<open>tally_inv\<close>, of the interpretation \<open>ballots\<close>, relates every \<open>winned_votes_\<close> to the
      ballots whose messages have been delivered; so a primary has a majority of the ballots of its term, and log
      matching needs no proviso on the primaries (\<open>safe_step\<close>). \<open>Raft_First_Entry\<close>: a run of this kind that elects a
      primary and replicates a command; \<open>Raft_Stale_Leader\<close> lets it go on, to a primary of the next term that has not got the
      committed entry.
    \<^item> \<open>Raft_Links\<close>: a primary and one other member as data, with the AppendEntries and the answers under way between
      them; \<open>link_inv\<close> says that the last request carries the entry at \<open>nextIndex_\<close>, that an answer to it is true, and
      that the member's log agrees with the primary's up to \<open>Follower_saved_index\<close>. \<open>Raft_Link_Steps\<close>: what the
      handlers do to the two ends. \<open>Raft_Pairs\<close>: every step of either end, and a loss, keeps the relation, also when
      the sender becomes primary with messages of its earlier terms still under way (\<open>pair_inv\<close>). \<open>Raft_Saved\<close>: it holds for
      every two members in all states of the runs above (interpretation \<open>linked\<close>), so what a primary believes saved is
      saved, and its commit index stands for entries that a majority holds. This is the part of leader
      completeness that the code has.
    \<^item> The properties, numbered C1 to C40, each with a witness if it has hypotheses, are in \<open>Raft_Server_Properties\<close>,
      \<open>Raft_Log_Properties\<close> and \<open>Raft_Component_Properties\<close>, at the end of \<open>Raft_Ballot\<close> and \<open>Raft_Answers\<close>, and those of several servers at the end of \<open>Raft_CatchUp\<close>,
      \<open>Raft_Failover\<close>, \<open>Raft_Cluster\<close>, \<open>Raft_Campaign\<close>, \<open>Raft_Split\<close>, \<open>Raft_Votes\<close>, \<open>Raft_Saved\<close> and \<open>Raft_Stale_Leader\<close>;
      the witnesses that need a run of three servers are in \<open>Raft_Split\<close>, \<open>Raft_First_Entry\<close> and \<open>Raft_Stale_Leader\<close>. This theory has those that
      relate the server to the client and to all its reachable states.

  \<^bold>\<open>Parameters.\<close> Code outside the repository is an argument with its documented behaviour as a hypothesis: \<open>P\<close>
  are the protobuf messages' and Boost archives' encoders and decoders (\<open>pb_law\<close>: decoding undoes encoding. This
  is taken for all values of the model; proto3 documents it for 32-bit integers and for \<open>string\<close> fields that are UTF-8,
  so the theorems speak of terms and indices in that range, and of commands whose bytes, a serialized message in
  the field \<open>msg\<close> of \<open>rpc_Entry\<close>, the encoder accepts),
  \<open>A\<close> asio's timers and addresses (\<open>asio_law\<close>: how pending waits are counted and cancelled), \<open>splitter\<close> is
  \<open>boost::split\<close> (\<open>boost_split_law\<close>). \<open>rand()\<close> is a stream of values. \<open>codec\<close>, \<open>counting_asio\<close> and
  \<open>split_chars []\<close> satisfy these hypotheses.

  \<^bold>\<open>Sizes and loops.\<close> The words of the log (offsets, indices passed to \<open>insert\<close>, \<open>size_t\<close> comparisons) are 32
  and 64 bits wide; \<open>entries_inv\<close> and \<open>entries_room\<close> say when they do not wrap (fewer than \<open>2 ^ 31 - 1\<close>
  entries), and the files are read back correctly below \<open>2 ^ 31\<close> bytes. Terms, sequence numbers and the indices
  of the protocol are unbounded integers; their overflow is undefined in the source. No fuel is used except
  for the client's endless loop, where \<open>client_loop n\<close> is its first \<open>n\<close> turns; the loops that could run on, over
  the configuration file, the entries to apply and the received bytes, are functions with termination proofs.

  \<^bold>\<open>What does not hold.\<close> The code departs from Raft in ways the theorems make precise: a
  follower can vote twice in a term (\<open>same_term_heartbeat_frees_the_vote\<close>), so two servers can be
  primary in it (\<open>two_primaries\<close>), the vote does not compare last terms
  (\<open>react2rv_spec\<close>), so a new primary can lack a committed entry
  (\<open>committed_entry_missed\<close>), a primary's commit index can move back
  (\<open>primary_commit_moves_back\<close>) and a follower then throws
  (\<open>react2ae_commit_decreases\<close>; \<open>new_primary_stops_members\<close> composes the two), every
  role takes client commands (\<open>client_command_appended\<close>), term and vote are not stored
  (\<open>restart_keeps_only_the_log\<close>), and the client of an entry that was cut from the log stays in the map
  (\<open>ae_keeps_clients\<close>), so that another entry's result can be sent to it in a later term. So leader completeness does not hold, and election safety and log
  matching (\<open>one_primary_per_term\<close>, \<open>logs_match\<close>), and that saved entries are saved (\<open>saved_entries_are_held\<close>,
  \<open>committed_entries_on_majority\<close>), hold for the runs in which nobody votes twice in a term; beyond that what is proved is the exact behaviour, and the parts of the argument that
  do hold.

  \<^bold>\<open>Not modelled.\<close> Logging, except where evaluating a logged expression can throw; the sockets and the event
  loop of asio, whose completions appear as steps in any order; the \<open>catch\<close> branches of \<open>EasyStateMachine\<close>, which only a
  lack of memory reaches; a failing bind of the acceptor; data races
  between the pools' threads on the state machine's map (its operations are taken to be atomic) and between
  the client's two threads; the
  stand-alone experiments in \<^verbatim>\<open>src/tests/\<close> and generated code.
\<close>

section \<open>Reachable states\<close>

text \<open>C1. Every state a server process can reach satisfies \<open>raft_inv\<close>: constructed on a configuration
  that names each member once and this server among them, started, and then driven by messages of any
  content from anybody, timer handlers with any error code, posted calls, worker threads, socket handlers
  and the clock. In particular the log's entries carry their own position, the commit index points into
  the log, a primary never records more of a member than its own log holds, and the commands handed to the
  state machine are those of the log positions 0, 1, 2 and so on, each once and in order.\<close>

theorem reachable_invariant:
  assumes "reachable (raft_init A m0) (raft_step P A) s"
  shows "raft_inv P m0 s"
  using assms by (rule raft.reachable_inv)

theorem reachable_invariant_witness:
  "reachable (raft_init counting_asio []) (raft_step codec counting_asio) node1 \<and> raft_inv codec [] node1"
proof -
  have "reachable (raft_init counting_asio []) (raft_step codec counting_asio) node1"
    by (rule reachable_init) (rule node1_init)
  with reachable_invariant [OF this] show ?thesis by simp
qed

section \<open>Two servers\<close>

text \<open>C2. Replication between two servers keeps their logs matching: when a member handles the AppendEntries its
  primary has built for it, and their logs agreed up to every position where both have an entry of the
  same term, they still do afterwards. If the member accepts, its log up to and including the entry sent
  is the primary's, and it commits nothing beyond the primary's commit index; if it refuses, its log is
  unchanged and \<open>nextIndex_\<close> was not yet 0, so the primary can go back.\<close>

theorem replication_step:
  assumes "pb_law P" "raft_inv P m0 s" "state_m s = primary" "v \<in> set (configuration_m s)"
    and "raft_inv P m0 f" "has_room f" "log_matching (log_of (entries_m s)) (log_of (entries_m f))"
    and "n = at0 (nextIndex_m s) v" "fst (build_rpc_ae v s) = Inr ae" "term_m f \<le> term_m s"
    and "seen_lsn f (term_m s) (ip_m s, port_m s) < at0 (current_rpc_lsn_m s) v"
    and "server_step P A (Incoming APPEND_ENTRY (ser_ae P ae) peer) f = Ok f'"
  shows "log_matching (log_of (entries_m s)) (log_of (entries_m f')) \<and> term_m f' = term_m s \<and>
    (if log_matches ae (log_of (entries_m f))
     then take (nat n + length (ae_entry ae)) (log_of (entries_m f')) =
            take (nat n + length (ae_entry ae)) (log_of (entries_m s)) \<and>
          commit_index_m f' \<le> commit_index_m s \<and> sent f f' [ae_reply P f ae True]
     else entries_m f' = entries_m f \<and> 0 < n \<and> sent f f' [ae_reply P f ae False])"
proof -
  let ?xs = "log_of (entries_m s)" and ?ys = "log_of (entries_m f)"
  have si: "entries_inv (entries_m s)" and fi: "entries_inv (entries_m f)" "rpc_inv (network_m f)"
    using assms(2,5) by (simp_all add: raft_inv_def log_inv_def conf_inv_def)
  have n: "0 \<le> n" "n \<le> Entries_size (entries_m s)"
    using assms(2-4) unfolding assms(8) raft_inv_def book_inv_def by blast+
  have "ae = ae_at s v n (commit_index_m s)"
    using build_rpc_ae_spec [OF si assms(8) n] assms(9) by (simp add: ae_at_def)
  note a = ae_at_fields [OF si n this]
  have "server_step P A (Incoming APPEND_ENTRY (ser_ae P ae) peer) f = react2ae P A ae f"
    using assms(1) by (simp add: reactToIncomingMsg_def)
  then have e: "ae_effect P ae f f'"
    using okpD [OF react2ae_effect [OF fi(1) assms(6) fi(2)]] assms(12) by simp
  then have t: "term_m f' = term_m s" using assms(10) a by (simp add: ae_effect_def)
  have new: "\<not> ae_lsn ae \<le> seen_lsn f (ae_term ae) (ae_ip ae, ae_port ae)" using assms(11) a by simp
  show ?thesis
  proof (cases "log_matches ae ?ys")
    case True
    then have acc: "sent f f' [ae_reply P f ae True]" "accepted ae f f'"
      using e new assms(10) a by (simp_all add: ae_effect_def)
    then have "log_of (entries_m f') = log_after ae ?ys" "commit_index_m f' \<le> commit_index_m s"
      using a by (simp_all add: accepted_def)
    with True acc t accepted_matching [OF assms(7) True a(6-9)] show ?thesis by simp
  next
    case False
    then have "sent f f' [ae_reply P f ae False]" "entries_m f' = entries_m f"
      using e new assms(10) a by (simp_all add: ae_effect_def log_frame_def)
    moreover have "0 < n" using False n(1) a(1) by (auto simp: log_matches_def)
    ultimately show ?thesis using False t assms(7) by simp
  qed
qed

text \<open>The witness: the first entry of \<open>primary2\<close> reaches a member with an empty log.\<close>

definition member_ae :: AppendEntryRpc where
  "member_ae = ae_at primary2 (''10.0.0.2'', 8002) 0 1"

lemma member_ae_eq:
  "member_ae = \<lparr>ae_term = 1, ae_prelog_term = -1, ae_commit_index = 1, ae_lsn = 1, ae_ip = ''10.0.0.1'',
     ae_port = 8001, ae_entry = [entry0], ae_prelog_index = -1\<rparr>"
proof -
  have "ip_m primary1 = ''10.0.0.1''" "port_m primary1 = 8001" by (simp_all add: primary1_def node1_facts)
  then show ?thesis by (simp add: member_ae_def ae_at_def primary2_def primary1_facts)
qed

theorem replication_step_witness:
  "\<exists>f'. server_step codec counting_asio (Incoming APPEND_ENTRY (ser_ae codec member_ae) (''10.0.0.1'', 8001)) node1 = Ok f' \<and>
     take 1 (log_of (entries_m f')) = [entry0] \<and> term_m f' = 1"
proof -
  let ?v = "(''10.0.0.2'', 8002)"
  have p: "configuration_m primary2 = cfg3" "at0 (nextIndex_m primary2) ?v = 0" "term_m primary2 = 1"
    "commit_index_m primary2 = 1" "log_of (entries_m primary2) = [entry0, entry1]"
    "ip_m primary2 = ''10.0.0.1''" "port_m primary2 = 8001" "at0 (current_rpc_lsn_m primary2) ?v = 1"
    by (simp_all add: primary2_def primary1_facts) (simp_all add: primary1_def node1_facts)
  have b: "fst (build_rpc_ae ?v primary2) = Inr member_ae"
  proof -
    have "entries_inv (entries_m primary2)" using primary2_inv(1) by (simp add: raft_inv_def log_inv_def)
    from build_rpc_ae_spec [OF this refl, of ?v] show ?thesis
      by (simp add: p member_ae_def ae_at_def primary2_def primary1_facts)
  qed
  have "surely (\<lambda>u. True) (react2ae codec counting_asio member_ae node1)"
  proof (rule react2ae_total [OF node1_inv node1_facts(6) counting_asio_law node1_device])
    show "ae_wf member_ae" by (simp add: ae_wf_def member_ae_eq entry0_def)
    show "ae_safe member_ae node1" by (simp add: ae_safe_def Let_def member_ae_eq log_after_def node1_log)
    show "reply_fits codec member_ae node1"
      using node_reply_length by (simp add: reply_fits_def member_ae_eq node1_facts)
  qed (simp_all add: node1_facts member_ae_eq counting_asio_def)
  then obtain f' where f': "server_step codec counting_asio (Incoming APPEND_ENTRY (ser_ae codec member_ae) (''10.0.0.1'', 8001)) node1 = Ok f'"
    by (auto simp: reactToIncomingMsg_def dest: surelyD)
  have lm: "log_matching (log_of (entries_m primary2)) (log_of (entries_m node1))"
    by (simp add: node1_log log_matching_def)
  have new: "seen_lsn node1 (term_m primary2) (ip_m primary2, port_m primary2) < at0 (current_rpc_lsn_m primary2) ?v"
    by (simp add: p seen_lsn_def node1_facts)
  have "log_matches member_ae l" "ae_entry member_ae = [entry0]" for l
    by (simp_all add: log_matches_def member_ae_eq)
  with replication_step [OF codec_law primary2_inv _ node1_inv node1_facts(6) lm refl b _ new f'] f' show ?thesis
    by (simp add: p node1_facts)
qed

section \<open>A client and a server\<close>

text \<open>C17. A command typed at the client reaches the log of the server it is connected to: the one message the
  client sends is delivered by the server's reading side as one call, which appends exactly this command
  to the log and notes the client's address for the answer. Executing the command gives the typed key
  the typed value and leaves the other keys alone.\<close>

theorem command_reaches_log:
  assumes "pb_law P" "CHR 0x0A \<notin> set k" "int_min \<le> x" "x \<le> int_max" "length (build_apply_str P k x) < 5120"
    and "addr_ok (ip_of server)" "clean junk" "raft_inv P m0 s" "has_room s" "\<not> wr_fails (data_m (entries_m s))"
  shows "\<exists>d bytes t.
     client_turn P addr_ok (client_ctor server \<lparr>buf_m = typed (Set_key k x), eofbit_m = False, failbit_m = False\<rparr>) = Ok d \<and>
     calls \<lparr>connection_map_m = [], conns_m = [], io_m = []\<rparr> (cl_network_m d) = [(server, bytes)] \<and>
     recv_stream P junk conn bytes = ([(CLIENT_APPLY, build_apply_str P k x, remote_peer_m conn)], Inr []) \<and>
     server_step P A (Incoming CLIENT_APPLY (build_apply_str P k x) (remote_peer_m conn)) s = Ok t \<and>
     log_of (entries_m t) = log_of (entries_m s) @ [\<lparr>en_term = term_m s, en_index = Entries_size (entries_m s),
       en_msg = build_apply_str P k x\<rparr>] \<and>
     map_of (entryIndex_to_socketAddr_map_m t) (Entries_size (entries_m s)) = Some (remote_peer_m conn) \<and>
     (\<forall>m. at0 (snd (EasyStateMachine_apply P (build_apply_str P k x) m)) = (at0 m)(k := x))"
proof -
  let ?msg = "build_apply_str P k x"
  let ?c = "client_ctor server \<lparr>buf_m = typed (Set_key k x), eofbit_m = False, failbit_m = False\<rparr>"
  have "surely (\<lambda>d. asked P ?c d [Set_key k x]) (client_loop P addr_ok (length [Set_key k x]) ?c)"
    using assms(2-6) by (intro session_asks [where pre = "[]" and rest = "[]"])
      (simp_all add: client_ctor_def rpc_inv_def good_def)
  then have "surely (\<lambda>d. asked P ?c d [Set_key k x]) (client_turn P addr_ok ?c)"
    by (simp add: wp del: typed.simps)
  then have "\<exists>d. client_turn P addr_ok ?c = Ok d \<and> asked P ?c d [Set_key k x]" by (rule surelyD)
  then obtain d where d: "client_turn P addr_ok ?c = Ok d"
    "calls \<lparr>connection_map_m = [], conns_m = [], io_m = []\<rparr> (cl_network_m d) = [(server, wire (CLIENT_APPLY, ?msg))]"
    by (auto simp: asked_def client_ctor_def)
  have "recv_stream P junk conn (concat (map wire [(CLIENT_APPLY, ?msg)]) @ []) =
      (map (\<lambda>m. (fst m, snd m, remote_peer_m conn)) [(CLIENT_APPLY, ?msg)], Inr [])"
    using assms(5,7) by (intro tcp.stream_all) (simp_all add: wire_fits_def recv_one_def)
  then have r: "recv_stream P junk conn (wire (CLIENT_APPLY, ?msg)) = ([(CLIENT_APPLY, ?msg, remote_peer_m conn)], Inr [])"
    by simp
  have e: "entries_inv (entries_m s)" using assms(8) by (simp add: raft_inv_def log_inv_def)
  obtain t where t: "append_client_apply_to_entries P (remote_peer_m conn) ?msg s = Ok t"
    "log_of (entries_m t) = log_of (entries_m s) @ [\<lparr>en_term = term_m s, en_index = Entries_size (entries_m s), en_msg = ?msg\<rparr>]"
    "map_of (entryIndex_to_socketAddr_map_m t) (Entries_size (entries_m s)) = Some (remote_peer_m conn)"
    using surelyD [OF append_client_total [OF e assms(9,10), of ?msg "remote_peer_m conn" P]] by auto
  have x: "at0 (snd (EasyStateMachine_apply P ?msg m)) = (at0 m)(k := x)" for m
    using assms(1) by (simp add: EasyStateMachine_apply_def build_apply_str_def Let_def fun_eq_iff)
  show ?thesis
    using d r t x by (intro exI [of _ d] exI [of _ "wire (CLIENT_APPLY, ?msg)"] exI [of _ t])
      (simp add: reactToIncomingMsg_def)
qed

theorem command_reaches_log_witness:
  "\<exists>d bytes t.
     client_turn codec (\<lambda>a. True) (client_ctor (''10.0.0.1'', 8001)
       \<lparr>buf_m = typed (Set_key ''x'' 5), eofbit_m = False, failbit_m = False\<rparr>) = Ok d \<and>
     recv_stream codec [] (connection_to (''127.0.0.1'', 50000)) bytes =
       ([(CLIENT_APPLY, build_apply_str codec ''x'' 5, (''127.0.0.1'', 50000))], Inr []) \<and>
     server_step codec counting_asio (Incoming CLIENT_APPLY (build_apply_str codec ''x'' 5) (''127.0.0.1'', 50000)) node1 = Ok t \<and>
     log_of (entries_m t) = [\<lparr>en_term = 0, en_index = 0, en_msg = build_apply_str codec ''x'' 5\<rparr>]"
proof -
  have "CHR 0x0A \<notin> set ''x''" "int_min \<le> 5" "5 \<le> int_max" "clean []" "length (build_apply_str codec ''x'' 5) < 5120"
    using length_enc_int [of 5]
    by (simp_all add: int_min_def int_max_def clean_def build_apply_str_def codec_def length_enc_str)
  from command_reaches_log [OF codec_law this(1-3,5), of "\<lambda>a. True" "(''10.0.0.1'', 8001)" "[]" "[]" node1
      "connection_to (''127.0.0.1'', 50000)" counting_asio] this(4) node1_inv node1_device
  show ?thesis by (auto simp: node1_facts node1_log connection_to_def simp del: typed.simps)
qed

text \<open>C29. A query is answered from the state machine of the server that receives it, in any role and without
  going through the log: the server queues it for its reading threads; the thread that executes it posts the
  answer for the asking client without changing the contents; the io thread sends it as one message; and
  the client prints the value the key had at that server when the thread executed the query.\<close>

theorem query_is_answered_locally:
  assumes "pb_law P" "rpc_inv (network_m u)" "addr_ok = address_ok A" "addr_ok (ip_of addr)"
    and "\<not> stop_m (read_pool_m (smc_m s))"
    and "res = ser_resp_query P \<lparr>rq_ok = True, rq_v = at0 (state_machine_m c) k\<rparr>" "length res < 9999"
  shows "(\<exists>t. server_step P A (Incoming CLIENT_QUERY (build_query_str P k) addr) s = Ok t \<and>
       log_of (entries_m t) = log_of (entries_m s) \<and>
       tasks_m (read_pool_m (smc_m t)) = tasks_m (read_pool_m (smc_m s)) @ [Query_task (build_query_str P k) addr]) \<and>
     posted_m (run_task P (Query_task (build_query_str P k) addr) c) = posted_m c @ [Write_resp_query addr res] \<and>
     at0 (state_machine_m (run_task P (Query_task (build_query_str P k) addr) c)) = at0 (state_machine_m c) \<and>
     (\<exists>w. server_step P A (Posted (Write_resp_query addr res)) u = Ok w \<and>
          sent u w [(addr, wire (RESP_CLIENT_QUERY, res))]) \<and>
     react_to_resp P RESP_CLIENT_QUERY res = Inr (''client received resp_query: '' @
       resp_query2str \<lparr>rq_ok = True, rq_v = at0 (state_machine_m c) k\<rparr> @ nl)"
proof -
  have q: "EasyStateMachine_get P (build_query_str P k) (state_machine_m c) = (res, touch k (state_machine_m c))"
    using assms(1,6) by (simp add: EasyStateMachine_get_def build_query_str_def Let_def)
  have "surely (\<lambda>w. sent u w [(addr, wire (RESP_CLIENT_QUERY, res))] \<and> (\<exists>n. w = u\<lparr>network_m := n\<rparr>))
      (net_call P A RESP_CLIENT_QUERY addr res u)"
    using assms(3,4,7) by (intro surelyI [OF net_call_total net_call_sends [OF assms(2)]]) simp_all
  then have "\<exists>w. net_call P A RESP_CLIENT_QUERY addr res u = Ok w \<and>
      sent u w [(addr, wire (RESP_CLIENT_QUERY, res))] \<and> (\<exists>n. w = u\<lparr>network_m := n\<rparr>)" by (rule surelyD)
  then show ?thesis
    using assms(1,5,6) q
    by (auto simp: reactToIncomingMsg_def get_from_state_machine_def smc_get_from_state_machine_def enqueue_def
        react_to_resp_prints write_resp_query_call_def)
qed

theorem query_is_answered_locally_witness:
  "state_m node1 = follower \<and>
   (\<exists>t. server_step codec counting_asio (Incoming CLIENT_QUERY (build_query_str codec ''x'') (''127.0.0.1'', 50000)) node1 = Ok t \<and>
      tasks_m (read_pool_m (smc_m t)) = [Query_task (build_query_str codec ''x'') (''127.0.0.1'', 50000)])"
proof -
  let ?res = "ser_resp_query codec \<lparr>rq_ok = True, rq_v = at0 (state_machine_m fresh_smc) ''x''\<rparr>"
  have n: "rpc_inv (network_m node1)" using node1_inv by (simp add: raft_inv_def conf_inv_def)
  have c: "smc_m node1 = fresh_smc" "\<not> stop_m (read_pool_m fresh_smc)" "tasks_m (read_pool_m fresh_smc) = []"
    "state_machine_m fresh_smc = []"
    by (simp_all add: node1_eq) (simp_all add: fresh_smc_def SMC_ctor_def ThreadPool_ctor_def)
  have "length ?res < 9999"
    using length_enc_int [of 0] by (simp add: codec_def length_enc_bool c at0_def)
  from query_is_answered_locally [OF codec_law n refl _ _ refl this, of counting_asio "(''127.0.0.1'', 50000)" node1] c
  show ?thesis by (auto simp: counting_asio_def node1_facts)
qed

end
